(* ===== verification/Prelude.thy ===== *)
theory Prelude
  imports Main "HOL-Library.AList" "HOL-Library.List_Lexorder" "HOL-Library.Char_ord"
    "HOL-Library.Word" "HOL-Library.Multiset"
begin

text \<open>
  Shared vocabulary of the development.

  Go maps are association lists with distinct keys (\<open>AList.update\<close> overwrites in
  place and appends a new key at the end, \<open>AList.delete\<close> removes it), Go strings
  are byte lists compared lexicographically (\<open>strings.Compare\<close>), a
  \<open>time.Time\<close> is its distance in nanoseconds from the zero time, a
  \<open>time.Duration\<close> is an \<open>int\<close> of nanoseconds, and an \<open>atomic.Uint64\<close> counter is
  a 64-bit word, which wraps.
\<close>

named_theorems gomap \<open>facts on Go maps kept as association lists\<close>
named_theorems slogdefs \<open>definitions of the log/slog vocabulary, for unfolding\<close>

type_synonym bytes = string
type_synonym time = int
type_synonym duration = int
type_synonym u64 = "64 word"
type_synonym i64 = "64 word"

section \<open>Association lists as Go maps\<close>

abbreviation keys :: "('k \<times> 'v) list \<Rightarrow> 'k list" where
  "keys m \<equiv> map fst m"

definition wf_map :: "('k \<times> 'v) list \<Rightarrow> bool" where
  "wf_map m \<longleftrightarrow> distinct (keys m)"

lemma wf_map_Nil [simp, gomap]: "wf_map []"
  by (simp add: wf_map_def)

lemma wf_map_Cons [gomap]: "wf_map (p # m) \<longleftrightarrow> fst p \<notin> set (keys m) \<and> wf_map m"
  by (simp add: wf_map_def)

lemma wf_map_update [intro, gomap]: "wf_map m \<Longrightarrow> wf_map (AList.update k v m)"
  by (simp add: wf_map_def distinct_update)

lemma wf_map_filter [intro, gomap]: "wf_map m \<Longrightarrow> wf_map (filter P m)"
  by (auto simp: wf_map_def distinct_map intro: inj_on_subset)

lemma wf_map_delete [intro, gomap]: "wf_map m \<Longrightarrow> wf_map (AList.delete k m)"
  by (simp add: AList.delete_eq wf_map_filter)

lemma map_of_None_iff [gomap]: "map_of m k = None \<longleftrightarrow> k \<notin> set (keys m)"
  by (simp add: map_of_eq_None_iff)

lemma keys_update [gomap]:
  "keys (AList.update k v m) = (if k \<in> set (keys m) then keys m else keys m @ [k])"
  by (induction m) auto

lemma length_update [gomap]:
  "length (AList.update k v m) = (if k \<in> set (keys m) then length m else Suc (length m))"
  by (induction m) auto

lemma update_fresh [gomap]: "k \<notin> set (keys m) \<Longrightarrow> AList.update k v m = m @ [(k, v)]"
  by (induction m) auto

lemma map_of_filter_wf [gomap]:
  assumes "wf_map m"
  shows "map_of (filter P m) k =
    (case map_of m k of None \<Rightarrow> None | Some v \<Rightarrow> if P (k, v) then Some v else None)"
  using assms
proof (induction m)
  case Nil
  then show ?case by simp
next
  case (Cons p m)
  obtain k' v' where p: "p = (k', v')" by (cases p)
  from Cons.prems have fresh: "map_of m k' = None" and wf: "wf_map m"
    by (simp_all add: wf_map_Cons p map_of_None_iff)
  show ?case
    using Cons.IH [OF wf] fresh by (auto simp: p split: option.splits)
qed

lemma map_of_delete_same [simp, gomap]: "map_of (AList.delete k m) k = None"
  by (simp add: AList.delete_conv')

lemma map_of_delete_other [gomap]: "k' \<noteq> k \<Longrightarrow> map_of (AList.delete k m) k' = map_of m k'"
  by (simp add: AList.delete_conv')

lemma map_of_update [gomap]:
  "map_of (AList.update k v m) k' = (if k' = k then Some v else map_of m k')"
  by (simp add: AList.update_conv')

lemma set_keys_delete [simp]: "set (keys (AList.delete k m)) = set (keys m) - {k}"
  by (auto simp: AList.delete_eq)

lemma length_delete_wf [gomap]:
  "wf_map m \<Longrightarrow> k \<in> set (keys m) \<Longrightarrow> Suc (length (AList.delete k m)) = length m"
proof (induction m)
  case Nil
  then show ?case by simp
next
  case (Cons p m)
  then have fresh: "fst p \<notin> set (keys m)" and wf: "wf_map m"
    by (simp_all add: wf_map_Cons)
  show ?case
  proof (cases "fst p = k")
    case True
    with fresh have "AList.delete k m = m" by (simp add: delete_idem)
    with True show ?thesis by (cases p) simp
  next
    case False
    with Cons.prems have "k \<in> set (keys m)" by simp
    with False Cons.IH [OF wf] show ?thesis by (cases p) simp
  qed
qed

lemma delete_absent [gomap]: "k \<notin> set (keys m) \<Longrightarrow> AList.delete k m = m"
  by (simp add: delete_idem)

section \<open>Lists\<close>

lemma filter_id_conv_all: "filter P xs = xs \<longleftrightarrow> list_all P xs"
  by (simp add: filter_id_conv list_all_iff)

lemma fold_rev_conv: "fold f (rev xs) a = foldr f xs a"
  by (simp add: foldr_conv_fold)

lemma distinct_map_filter_keys: "distinct (map f xs) \<Longrightarrow> distinct (map f (filter P xs))"
  by (rule distinct_map_filter)

section \<open>Bytes\<close>

definition byte :: "char \<Rightarrow> nat" where
  "byte c = of_char c"

definition is_ascii :: "bytes \<Rightarrow> bool" where
  "is_ascii s \<longleftrightarrow> list_all (\<lambda>c. byte c < 128) s"

end
