(* ===== verification/Slog.thy ===== *)
theory Slog
  imports Prelude
begin

text \<open>
  What the repository uses of Go's \<open>log/slog\<close>: values, attrs and records, with the
  behaviour of \<open>Value.Resolve\<close>, \<open>GroupValue\<close>, \<open>Record.AddAttrs\<close>,
  \<open>NewRecord\<close> and \<open>Attr.Equal\<close>, and the attr helpers of the repository itself
  (\<open>filterValidAttrs\<close>, \<open>hasKey\<close>, \<open>recordAttrs\<close>, \<open>utils.ExtractAttrs\<close>).

  The kinds whose rendering belongs to other parts of the standard library (floats,
  durations, times, arbitrary Go values) are represented by the text they print as;
  nothing in the repository looks at them in another way. A \<open>LogValuer\<close> carries the
  text of the unresolved Go value and what \<open>LogValue()\<close> returns, \<open>None\<close> for a panic.
\<close>

datatype slog_value =
    StringValue bytes
  | Int64Value int
  | Uint64Value nat
  | Float64Value bytes
  | BoolValue bool
  | DurationValue bytes
  | TimeValue bytes
  | AnyValue "bytes option"
  | Group "attr list"
  | LogValuer bytes "slog_value option"
and attr = Attr (Key: bytes) (Val: slog_value)

fun is_group :: "slog_value \<Rightarrow> bool" where
  "is_group (Group _) = True"
| "is_group _ = False"

fun is_log_valuer :: "slog_value \<Rightarrow> bool" where
  "is_log_valuer (LogValuer _ _) = True"
| "is_log_valuer _ = False"

fun is_empty_group :: "slog_value \<Rightarrow> bool" where
  "is_empty_group (Group []) = True"
| "is_empty_group _ = False"

section \<open>Resolve\<close>

text \<open>
  \<open>Value.Resolve\<close> calls \<open>LogValue\<close> until the value is of another kind, at most 100
  times, and turns both a longer chain and a panic into an error value.
\<close>

definition maxLogValues :: nat where
  "maxLogValues = 100"

fun resolve_steps :: "nat \<Rightarrow> slog_value \<Rightarrow> slog_value" where
  "resolve_steps 0 v = AnyValue (Some ''LogValue called too many times'')"
| "resolve_steps (Suc n) (LogValuer t None) = AnyValue (Some ''LogValue panicked'')"
| "resolve_steps (Suc n) (LogValuer t (Some v)) = resolve_steps n v"
| "resolve_steps (Suc n) v = v"

definition Resolve :: "slog_value \<Rightarrow> slog_value" where
  "Resolve v = resolve_steps maxLogValues v"

lemma resolve_steps_not_valuer: "\<not> is_log_valuer (resolve_steps n v)"
  by (induction n v rule: resolve_steps.induct) auto

lemma Resolve_not_valuer [simp]: "\<not> is_log_valuer (Resolve v)"
  by (simp add: Resolve_def resolve_steps_not_valuer)

lemma resolve_steps_id: "\<not> is_log_valuer v \<Longrightarrow> resolve_steps (Suc n) v = v"
  by (cases v) auto

lemma Resolve_id: "\<not> is_log_valuer v \<Longrightarrow> Resolve v = v"
  unfolding Resolve_def maxLogValues_def
  using resolve_steps_id [of v 99] by simp

lemma resolve_steps_group_size:
  "resolve_steps n v = Group ms \<Longrightarrow> size_list size ms < size v"
  by (induction n v rule: resolve_steps.induct) auto

text \<open>\<open>Value.Group\<close>, for a value that may not be a group.\<close>

fun group_members :: "slog_value \<Rightarrow> attr list" where
  "group_members (Group ms) = ms"
| "group_members _ = []"

lemma group_members_smaller:
  "is_group (Resolve v) \<Longrightarrow> size_list size (group_members (Resolve v)) < size v"
  unfolding Resolve_def
  by (cases "resolve_steps maxLogValues v") (auto dest: resolve_steps_group_size)

section \<open>Text\<close>

definition digit :: "nat \<Rightarrow> char" where
  "digit d = char_of (48 + d)"

fun utoa :: "nat \<Rightarrow> bytes" where
  "utoa n = (if n < 10 then [digit n] else utoa (n div 10) @ [digit (n mod 10)])"

declare utoa.simps [simp del]

definition itoa :: "int \<Rightarrow> bytes" where
  "itoa i = (if i < 0 then ''-'' @ utoa (nat (- i)) else utoa (nat i))"

definition join :: "bytes \<Rightarrow> bytes list \<Rightarrow> bytes" where
  "join sep ss = (case ss of [] \<Rightarrow> [] | x # xs \<Rightarrow> x @ concat (map (\<lambda>y. sep @ y) xs))"

text \<open>\<open>Value.String\<close>: a group prints as the slice of its attrs.\<close>

fun value_string :: "slog_value \<Rightarrow> bytes"
  and attr_string :: "attr \<Rightarrow> bytes" where
  "value_string (StringValue s) = s"
| "value_string (Int64Value i) = itoa i"
| "value_string (Uint64Value n) = utoa n"
| "value_string (Float64Value t) = t"
| "value_string (BoolValue b) = (if b then ''true'' else ''false'')"
| "value_string (DurationValue t) = t"
| "value_string (TimeValue t) = t"
| "value_string (AnyValue None) = ''<nil>''"
| "value_string (AnyValue (Some t)) = t"
| "value_string (Group as) = ''['' @ join '' '' (map attr_string as) @ '']''"
| "value_string (LogValuer t _) = t"
| "attr_string (Attr k v) = k @ ''='' @ value_string v"

section \<open>Attrs, groups and records\<close>

definition String :: "bytes \<Rightarrow> bytes \<Rightarrow> attr" where
  "String k v = Attr k (StringValue v)"

definition zero_attr :: attr where
  "zero_attr = Attr [] (AnyValue None)"

text \<open>\<open>GroupValue\<close> and \<open>AddAttrs\<close> leave out attrs that are empty groups.\<close>

abbreviation nonempty_attr :: "attr \<Rightarrow> bool" where
  "nonempty_attr a \<equiv> \<not> is_empty_group (Val a)"

definition GroupValue :: "attr list \<Rightarrow> slog_value" where
  "GroupValue as = Group (filter nonempty_attr as)"

record slog_record =
  r_time :: time
  r_level :: int
  r_message :: bytes
  r_pc :: nat
  r_attrs :: "attr list"

definition NewRecord :: "time \<Rightarrow> int \<Rightarrow> bytes \<Rightarrow> nat \<Rightarrow> slog_record" where
  "NewRecord t l m pc = \<lparr>r_time = t, r_level = l, r_message = m, r_pc = pc, r_attrs = []\<rparr>"

definition AddAttrs :: "slog_record \<Rightarrow> attr list \<Rightarrow> slog_record" where
  "AddAttrs r as = r\<lparr>r_attrs := r_attrs r @ filter nonempty_attr as\<rparr>"

text \<open>
  The records the standard library hands to a handler hold no empty group at the top
  level, since \<open>AddAttrs\<close> is the only way to put an attr into one.
\<close>

definition wf_record :: "slog_record \<Rightarrow> bool" where
  "wf_record r \<longleftrightarrow> list_all nonempty_attr (r_attrs r)"

lemma wf_record_AddAttrs: "wf_record r \<Longrightarrow> wf_record (AddAttrs r as)"
  by (auto simp: wf_record_def AddAttrs_def list_all_iff)

definition fresh_record :: "slog_record \<Rightarrow> attr list \<Rightarrow> slog_record" where
  "fresh_record r as = AddAttrs (NewRecord (r_time r) (r_level r) (r_message r) (r_pc r)) as"

lemma fresh_record_sel [simp]:
  "r_time (fresh_record r as) = r_time r"
  "r_level (fresh_record r as) = r_level r"
  "r_message (fresh_record r as) = r_message r"
  "r_pc (fresh_record r as) = r_pc r"
  "r_attrs (fresh_record r as) = filter nonempty_attr as"
  by (simp_all add: fresh_record_def NewRecord_def AddAttrs_def)

lemma AddAttrs_sel [simp]:
  "r_time (AddAttrs r as) = r_time r"
  "r_level (AddAttrs r as) = r_level r"
  "r_message (AddAttrs r as) = r_message r"
  "r_pc (AddAttrs r as) = r_pc r"
  "r_attrs (AddAttrs r as) = r_attrs r @ filter nonempty_attr as"
  by (simp_all add: AddAttrs_def)

lemma fresh_record_wf [simp]: "wf_record (fresh_record r as)"
  by (simp add: wf_record_def list_all_iff)

section \<open>Levels\<close>

definition LevelDebug :: int where "LevelDebug = -4"
definition LevelInfo :: int where "LevelInfo = 0"
definition LevelWarn :: int where "LevelWarn = 4"
definition LevelError :: int where "LevelError = 8"

lemmas level_defs = LevelDebug_def LevelInfo_def LevelWarn_def LevelError_def

definition signed :: "int \<Rightarrow> bytes" where
  "signed i = (if i < 0 then itoa i else ''+'' @ itoa i)"

definition level_offset :: "bytes \<Rightarrow> int \<Rightarrow> bytes" where
  "level_offset base i = (if i = 0 then base else base @ signed i)"

definition level_string :: "int \<Rightarrow> bytes" where
  "level_string l =
     (if l < LevelInfo then level_offset ''DEBUG'' (l - LevelDebug)
      else if l < LevelWarn then level_offset ''INFO'' (l - LevelInfo)
      else if l < LevelError then level_offset ''WARN'' (l - LevelWarn)
      else level_offset ''ERROR'' (l - LevelError))"

section \<open>The repository's attr helpers\<close>

text \<open>\<open>handler/global_fields_handler.go\<close>: \<open>hasKey\<close>, \<open>recordAttrs\<close>, \<open>filterValidAttrs\<close>.\<close>

fun hasKey :: "attr list \<Rightarrow> bytes \<Rightarrow> bool" where
  "hasKey [] k = False"
| "hasKey (a # as) k = (if Key a = k then True else hasKey as k)"

definition recordAttrs :: "slog_record \<Rightarrow> attr list" where
  "recordAttrs r = fold (\<lambda>a attrs. attrs @ [a]) (r_attrs r) []"

fun filterValidAttrs :: "attr list \<Rightarrow> attr list" where
  "filterValidAttrs [] = []"
| "filterValidAttrs (a # as) =
     (if Key a \<noteq> [] then a # filterValidAttrs as else filterValidAttrs as)"

text \<open>\<open>utils/log_utils.go\<close>: the attrs of a record as a map, and as a list.\<close>

definition ExtractAttrs :: "slog_record \<Rightarrow> (bytes \<times> slog_value) list" where
  "ExtractAttrs r = fold (\<lambda>a m. AList.update (Key a) (Val a) m) (r_attrs r) []"

definition ExtractAttrList :: "slog_record \<Rightarrow> attr list" where
  "ExtractAttrList r = fold (\<lambda>a attrs. attrs @ [a]) (r_attrs r) []"

lemma hasKey_iff [simp]: "hasKey as k \<longleftrightarrow> k \<in> Key ` set as"
  by (induction as) auto

lemma filterValidAttrs_eq [simp]: "filterValidAttrs as = filter (\<lambda>a. Key a \<noteq> []) as"
  by (induction as) auto

lemma fold_snoc: "fold (\<lambda>a attrs. attrs @ [a]) xs ys = ys @ xs"
  by (induction xs arbitrary: ys) auto

lemma recordAttrs_eq [simp]: "recordAttrs r = r_attrs r"
  by (simp add: recordAttrs_def fold_snoc)

lemma ExtractAttrList_eq [simp]: "ExtractAttrList r = r_attrs r"
  by (simp add: ExtractAttrList_def fold_snoc)

section \<open>Text of numbers and levels\<close>

fun decimal :: "bytes \<Rightarrow> nat" where
  "decimal cs = foldl (\<lambda>n c. 10 * n + (of_char c - 48)) 0 cs"

lemma of_char_digit: "d < 10 \<Longrightarrow> of_char (digit d) = (48 + d :: nat)"
  by (simp add: digit_def)

lemma decimal_utoa: "decimal (utoa n) = n"
proof (induction n rule: utoa.induct)
  case (1 n)
  show ?case
  proof (cases "n < 10")
    case True
    then show ?thesis by (simp add: utoa.simps [of n] of_char_digit)
  next
    case False
    from 1 [OF False] False show ?thesis
      by (simp add: utoa.simps [of n] of_char_digit)
  qed
qed

lemma utoa_inj: "utoa m = utoa n \<Longrightarrow> m = n"
  by (metis decimal_utoa)

lemma digit_range: "d < 10 \<Longrightarrow> digit d \<noteq> CHR ''-'' \<and> digit d \<noteq> CHR 0x00 \<and> digit d \<noteq> CHR ''+''"
proof -
  assume d: "d < 10"
  have "of_char (digit d) \<noteq> (of_char CHR ''-'' :: nat)" "of_char (digit d) \<noteq> (of_char CHR 0x00 :: nat)"
    "of_char (digit d) \<noteq> (of_char CHR ''+'' :: nat)"
    using d by (simp_all add: of_char_digit)
  then show ?thesis by metis
qed

lemma utoa_chars: "c \<in> set (utoa n) \<Longrightarrow> c \<noteq> CHR ''-'' \<and> c \<noteq> CHR 0x00 \<and> c \<noteq> CHR ''+''"
proof (induction n rule: utoa.induct)
  case (1 n)
  then show ?case
    by (cases "n < 10") (auto simp: utoa.simps [of n] digit_range)
qed

lemma utoa_nonempty [simp]: "utoa n \<noteq> []"
  by (simp add: utoa.simps [of n])

lemma itoa_inj: "itoa i = itoa j \<Longrightarrow> i = j"
proof -
  assume eq: "itoa i = itoa j"
  have sgn: "hd (itoa i) = CHR ''-'' \<longleftrightarrow> i < 0" for i
    using utoa_chars [of "hd (utoa (nat i))" "nat i"] by (simp add: itoa_def)
  with eq have "i < 0 \<longleftrightarrow> j < 0" by metis
  with eq show ?thesis by (auto simp: itoa_def split: if_splits dest!: utoa_inj)
qed

lemma signed_inj: "signed i = signed j \<Longrightarrow> i = j"
proof -
  assume eq: "signed i = signed j"
  have "hd (signed i) = CHR ''-'' \<longleftrightarrow> i < 0" for i
    by (simp add: signed_def itoa_def)
  with eq have "i < 0 \<longleftrightarrow> j < 0" by metis
  with eq show ?thesis by (auto simp: signed_def split: if_splits dest!: itoa_inj)
qed

lemma signed_nonempty [simp]: "signed i \<noteq> []"
  by (simp add: signed_def itoa_def)

lemma itoa_no_nul: "CHR 0x00 \<notin> set (itoa i)"
  using utoa_chars by (auto simp: itoa_def)

lemma level_offset_inj: "level_offset b i = level_offset b j \<Longrightarrow> i = j"
  using signed_inj by (auto simp: level_offset_def split: if_splits)

lemma level_string_inj: "level_string l = level_string l' \<Longrightarrow> l = l'"
proof -
  assume eq: "level_string l = level_string l'"
  have "hd (level_string l) = hd (level_string l')" using eq by simp
  moreover have "hd (level_string l) = (if l < 0 then CHR ''D'' else if l < 4 then CHR ''I''
      else if l < 8 then CHR ''W'' else CHR ''E'')" for l
    by (simp add: level_string_def level_offset_def level_defs)
  ultimately have "(l < 0 \<longleftrightarrow> l' < 0)" "(l < 4 \<longleftrightarrow> l' < 4)" "(l < 8 \<longleftrightarrow> l' < 8)"
    by (auto split: if_splits)
  with eq show ?thesis
    by (auto simp: level_string_def level_defs split: if_splits dest!: level_offset_inj)
qed

lemma level_string_no_nul: "CHR 0x00 \<notin> set (level_string l)"
  using itoa_no_nul by (auto simp: level_string_def level_offset_def signed_def)

end
