(* ===== verification/ConfigTypes.thy ===== *)
theory ConfigTypes
  imports Slog
begin

text \<open>
  \<open>config_types.go\<close>: the typed level and format of a \<open>Config\<close>, their names, and the
  bridges from the deprecated string fields.

  A \<open>Level\<close> is an \<open>int8\<close> and a \<open>Format\<close> a \<open>uint8\<close>, both kept as 8-bit words; \<open>sint\<close> reads the
  first and \<open>unat\<close> the second. An error value is a constructor that carries what its message prints.
  \<open>lower\<close> is a parameter: what \<open>strings.ToLower\<close> returns for a string with a byte outside ASCII,
  where it consults Unicode's tables. Its ASCII part is modelled.
\<close>

section \<open>strings.ToLower\<close>

definition lower_byte :: "char \<Rightarrow> char" where
  "lower_byte c = (if 65 \<le> byte c \<and> byte c \<le> 90 then char_of (byte c + 32) else c)"

definition ToLower :: "(bytes \<Rightarrow> bytes) \<Rightarrow> bytes \<Rightarrow> bytes" where
  "ToLower lower s = (if is_ascii s then map lower_byte s else lower s)"

section \<open>Levels\<close>

type_synonym level = "8 word"

definition cfg_LevelDebug :: level where "cfg_LevelDebug = -4"
definition cfg_LevelInfo :: level where "cfg_LevelInfo = 0"
definition cfg_LevelWarn :: level where "cfg_LevelWarn = 4"
definition cfg_LevelError :: level where "cfg_LevelError = 8"

lemmas cfg_level_defs = cfg_LevelDebug_def cfg_LevelInfo_def cfg_LevelWarn_def cfg_LevelError_def

definition Level_String :: "level \<Rightarrow> bytes" where
  "Level_String l =
     (if l = cfg_LevelDebug then ''debug''
      else if l = cfg_LevelInfo then ''info''
      else if l = cfg_LevelWarn then ''warn''
      else if l = cfg_LevelError then ''error''
      else ''level('' @ itoa (sint l) @ '')'')"

definition slogLevel :: "level \<Rightarrow> int" where
  "slogLevel l = sint l"

datatype config_error =
    InvalidLevel bytes
  | InvalidFormat bytes
  | BridgeInvalid bytes config_error
  | BridgeDisagrees bytes bytes bytes

definition ParseLevel :: "(bytes \<Rightarrow> bytes) \<Rightarrow> bytes \<Rightarrow> level \<times> config_error option" where
  "ParseLevel lower s =
     (let t = ToLower lower s in
      if t = [] then (cfg_LevelInfo, None)
      else if t = ''debug'' then (cfg_LevelDebug, None)
      else if t = ''info'' then (cfg_LevelInfo, None)
      else if t = ''warn'' \<or> t = ''warning'' then (cfg_LevelWarn, None)
      else if t = ''error'' then (cfg_LevelError, None)
      else (cfg_LevelInfo, Some (InvalidLevel s)))"

text \<open>\<open>UnmarshalText\<close> has a pointer receiver: the model takes the old value and returns the new one.\<close>

definition Level_UnmarshalText ::
  "(bytes \<Rightarrow> bytes) \<Rightarrow> level \<Rightarrow> bytes \<Rightarrow> level \<times> config_error option" where
  "Level_UnmarshalText lower l b =
     (let (parsed, err) = ParseLevel lower b in
      case err of Some e \<Rightarrow> (l, Some e) | None \<Rightarrow> (parsed, None))"

definition Level_MarshalText :: "level \<Rightarrow> bytes \<times> config_error option" where
  "Level_MarshalText l = (Level_String l, None)"

section \<open>Formats\<close>

type_synonym format = "8 word"

definition FormatText :: format where "FormatText = 0"
definition FormatJSON :: format where "FormatJSON = 1"
definition FormatConsole :: format where "FormatConsole = 2"

lemmas format_defs = FormatText_def FormatJSON_def FormatConsole_def

definition Format_String :: "format \<Rightarrow> bytes" where
  "Format_String f =
     (if f = FormatText then ''text''
      else if f = FormatJSON then ''json''
      else if f = FormatConsole then ''console''
      else ''format('' @ utoa (unat f) @ '')'')"

definition ParseFormat :: "(bytes \<Rightarrow> bytes) \<Rightarrow> bytes \<Rightarrow> format \<times> config_error option" where
  "ParseFormat lower s =
     (let t = ToLower lower s in
      if t = [] \<or> t = ''text'' then (FormatText, None)
      else if t = ''json'' then (FormatJSON, None)
      else if t = ''console'' then (FormatConsole, None)
      else (FormatText, Some (InvalidFormat s)))"

definition Format_UnmarshalText ::
  "(bytes \<Rightarrow> bytes) \<Rightarrow> format \<Rightarrow> bytes \<Rightarrow> format \<times> config_error option" where
  "Format_UnmarshalText lower f b =
     (let (parsed, err) = ParseFormat lower b in
      case err of Some e \<Rightarrow> (f, Some e) | None \<Rightarrow> (parsed, None))"

definition Format_MarshalText :: "format \<Rightarrow> bytes \<times> config_error option" where
  "Format_MarshalText f = (Format_String f, None)"

section \<open>The string bridges\<close>

definition resolveLevel ::
  "(bytes \<Rightarrow> bytes) \<Rightarrow> bytes \<Rightarrow> level \<Rightarrow> bytes \<Rightarrow> level \<times> config_error option" where
  "resolveLevel lower label typed legacy =
     (if legacy = [] then (typed, None)
      else (let (parsed, err) = ParseLevel lower legacy in
            case err of
              Some e \<Rightarrow> (typed, Some (BridgeInvalid label e))
            | None \<Rightarrow>
                if typed \<noteq> cfg_LevelInfo \<and> typed \<noteq> parsed
                then (typed, Some (BridgeDisagrees label (Level_String typed) legacy))
                else (parsed, None)))"

definition resolveFormat ::
  "(bytes \<Rightarrow> bytes) \<Rightarrow> bytes \<Rightarrow> format \<Rightarrow> bytes \<Rightarrow> format \<times> config_error option" where
  "resolveFormat lower label typed legacy =
     (if legacy = [] then (typed, None)
      else (let (parsed, err) = ParseFormat lower legacy in
            case err of
              Some e \<Rightarrow> (typed, Some (BridgeInvalid label e))
            | None \<Rightarrow>
                if typed \<noteq> FormatText \<and> typed \<noteq> parsed
                then (typed, Some (BridgeDisagrees label (Format_String typed) legacy))
                else (parsed, None)))"

section \<open>Names\<close>

lemma ToLower_ascii [simp]: "is_ascii s \<Longrightarrow> ToLower lower s = map lower_byte s"
  by (simp add: ToLower_def)

lemma lower_byte_idem: "lower_byte (lower_byte c) = lower_byte c"
proof (cases "65 \<le> byte c \<and> byte c \<le> 90")
  case True
  then have "byte (char_of (byte c + 32)) = byte c + 32" by (simp add: byte_def)
  with True show ?thesis by (simp add: lower_byte_def)
qed (auto simp: lower_byte_def)

lemma lower_byte_ascii: "byte c < 128 \<Longrightarrow> byte (lower_byte c) < 128"
  by (auto simp: lower_byte_def byte_def)

lemma is_ascii_lower: "is_ascii s \<Longrightarrow> is_ascii (map lower_byte s)"
  by (auto simp: is_ascii_def list_all_iff lower_byte_ascii)

lemma lower_level_other: "map lower_byte (''level('' @ s) = ''level('' @ map lower_byte s"
  by (simp add: lower_byte_def byte_def)

lemma itoa_ascii: "is_ascii (itoa i)"
proof -
  have d: "d < 10 \<Longrightarrow> byte (digit d) < 128" for d by (simp add: byte_def of_char_digit)
  have u: "is_ascii (utoa n)" for n
  proof (induction n rule: utoa.induct)
    case (1 n)
    then show ?case by (cases "n < 10") (auto simp: utoa.simps [of n] is_ascii_def d)
  qed
  then show ?thesis by (auto simp: itoa_def is_ascii_def byte_def)
qed

lemma level_other_ascii: "is_ascii (''level('' @ itoa i @ '')'')" "is_ascii (''format('' @ utoa n @ '')'')"
proof -
  show "is_ascii (''level('' @ itoa i @ '')'')"
    using itoa_ascii [of i] by (simp add: is_ascii_def byte_def)
  show "is_ascii (''format('' @ utoa n @ '')'')"
    using itoa_ascii [of "int n"] by (simp add: is_ascii_def byte_def itoa_def)
qed

lemma parse_level_other:
  "ParseLevel lower (''level('' @ itoa i @ '')'') = (cfg_LevelInfo, Some (InvalidLevel (''level('' @ itoa i @ '')'')))"
proof -
  have "ToLower lower (''level('' @ itoa i @ '')'') = ''level('' @ map lower_byte (itoa i @ '')'')"
    by (subst ToLower_ascii [OF level_other_ascii(1)]) (rule lower_level_other)
  then show ?thesis by (simp add: ParseLevel_def)
qed

lemma parse_level_names:
  "ParseLevel lower ''debug'' = (cfg_LevelDebug, None)" "ParseLevel lower ''info'' = (cfg_LevelInfo, None)"
  "ParseLevel lower ''warn'' = (cfg_LevelWarn, None)" "ParseLevel lower ''error'' = (cfg_LevelError, None)"
  by (simp_all add: ParseLevel_def ToLower_def is_ascii_def byte_def lower_byte_def)

text \<open>
  The text form of a level round-trips for exactly the four named levels: whatever level \<open>l\<close> is encoded and
  whatever value \<open>old\<close> the target holds, decoding gives back \<open>l\<close> when it has a name, and otherwise fails and
  leaves the target as it was, for all 256 values of the type.
\<close>

theorem level_text_roundtrip:
  "Level_UnmarshalText lower old (fst (Level_MarshalText l)) =
     (if l \<in> {cfg_LevelDebug, cfg_LevelInfo, cfg_LevelWarn, cfg_LevelError} then (l, None)
      else (old, Some (InvalidLevel (Level_String l))))"
proof -
  consider "l = cfg_LevelDebug" | "l = cfg_LevelInfo" | "l = cfg_LevelWarn" | "l = cfg_LevelError"
    | "l \<notin> {cfg_LevelDebug, cfg_LevelInfo, cfg_LevelWarn, cfg_LevelError}"
    by blast
  then show ?thesis
  proof cases
    case 5
    then have "Level_String l = ''level('' @ itoa (sint l) @ '')''" by (simp add: Level_String_def)
    with 5 show ?thesis
      by (simp only: Level_UnmarshalText_def Level_MarshalText_def fst_conv parse_level_other) simp
  qed (simp_all add: Level_UnmarshalText_def Level_MarshalText_def Level_String_def parse_level_names
         cfg_level_defs)
qed

lemma parse_format_other:
  "ParseFormat lower (''format('' @ utoa n @ '')'') = (FormatText, Some (InvalidFormat (''format('' @ utoa n @ '')'')))"
proof -
  have "ToLower lower (''format('' @ utoa n @ '')'') = ''format('' @ map lower_byte (utoa n @ '')'')"
    by (subst ToLower_ascii [OF level_other_ascii(2)]) (simp add: lower_byte_def byte_def)
  then show ?thesis by (simp add: ParseFormat_def)
qed

lemma parse_format_names:
  "ParseFormat lower ''text'' = (FormatText, None)" "ParseFormat lower ''json'' = (FormatJSON, None)"
  "ParseFormat lower ''console'' = (FormatConsole, None)"
  by (simp_all add: ParseFormat_def ToLower_def is_ascii_def byte_def lower_byte_def)

lemma format_text_roundtrip:
  "Format_UnmarshalText lower old (fst (Format_MarshalText f)) =
     (if f \<in> {FormatText, FormatJSON, FormatConsole} then (f, None)
      else (old, Some (InvalidFormat (Format_String f))))"
proof (cases "f \<in> {FormatText, FormatJSON, FormatConsole}")
  case True
  then show ?thesis
    by (auto simp: Format_UnmarshalText_def Format_MarshalText_def Format_String_def parse_format_names
        format_defs)
next
  case False
  then have "Format_String f = ''format('' @ utoa (unat f) @ '')''" by (simp add: Format_String_def)
  with False show ?thesis
    by (simp only: Format_UnmarshalText_def Format_MarshalText_def fst_conv parse_format_other) simp
qed

text \<open>No two levels and no two formats print alike.\<close>

lemma level_other_hd: "Level_String l = ''level('' @ itoa (sint l) @ '')'' \<or>
    (l = cfg_LevelDebug \<and> Level_String l = ''debug'') \<or> (l = cfg_LevelInfo \<and> Level_String l = ''info'') \<or>
    (l = cfg_LevelWarn \<and> Level_String l = ''warn'') \<or> (l = cfg_LevelError \<and> Level_String l = ''error'')"
  by (simp add: Level_String_def)

lemma Level_String_inj: "inj Level_String"
proof (rule injI)
  fix l l' assume eq: "Level_String l = Level_String l'"
  show "l = l'"
  proof (cases "Level_String l = ''level('' @ itoa (sint l) @ '')'' \<and> Level_String l' = ''level('' @ itoa (sint l') @ '')''")
    case True
    with eq have "itoa (sint l) = itoa (sint l')" by simp
    then have "sint l = sint l'" by (rule itoa_inj)
    then show ?thesis by (rule signed_word_eqI)
  next
    case False
    with eq level_other_hd [of l] level_other_hd [of l'] show ?thesis by auto
  qed
qed

section \<open>What the bridges resolve to\<close>

lemma ParseLevel_range:
  "fst (ParseLevel lower s) \<in> {cfg_LevelDebug, cfg_LevelInfo, cfg_LevelWarn, cfg_LevelError}"
  by (simp add: ParseLevel_def Let_def)

lemma ParseFormat_range: "fst (ParseFormat lower s) \<in> {FormatText, FormatJSON, FormatConsole}"
  by (simp add: ParseFormat_def Let_def)

lemma resolveLevel_ok:
  "resolveLevel lower label typed legacy = (l, None) \<longleftrightarrow>
    (if legacy = [] then l = typed
     else ParseLevel lower legacy = (l, None) \<and> (typed = cfg_LevelInfo \<or> typed = l))"
  by (auto simp: resolveLevel_def split: prod.splits option.splits)

lemma resolveLevel_error: "resolveLevel lower label typed legacy = (l, Some e) \<Longrightarrow> l = typed \<and> legacy \<noteq> []"
  by (auto simp: resolveLevel_def split: prod.splits option.splits if_splits)

lemma resolveFormat_ok:
  "resolveFormat lower label typed legacy = (f, None) \<longleftrightarrow>
    (if legacy = [] then f = typed
     else ParseFormat lower legacy = (f, None) \<and> (typed = FormatText \<or> typed = f))"
  by (auto simp: resolveFormat_def split: prod.splits option.splits)

lemma resolveFormat_error: "resolveFormat lower label typed legacy = (f, Some e) \<Longrightarrow> f = typed \<and> legacy \<noteq> []"
  by (auto simp: resolveFormat_def split: prod.splits option.splits if_splits)

end
