(* ===== verification/HeldOps.thy ===== *)
theory HeldOps
  imports Slog
begin

text \<open>
  \<open>WithAttrs\<close> and \<open>WithGroup\<close> calls that a handler holds back until \<open>Handle\<close>
  (\<open>dedupOp\<close>, \<open>filterOp\<close>, \<open>globalFieldsOp\<close> and \<open>groupOrAttrs\<close> in the code), the
  nesting log/slog prescribes for them, and the two interfaces of the library:
  \<open>op_holder\<close>, a handler that records its derivations, and \<open>slog_next\<close>, the
  \<open>next\<close> handler a decorator derives and calls.

  \<open>kitlogtest.TestHandler\<close> (\<open>kitlogtest/test_handler.go\<close>) is modelled here: it is the
  reference terminal handler of the repository, and the interpretation of both interfaces.
\<close>

section \<open>Held operations and the nesting they stand for\<close>

text \<open>One held call; the structs' \<open>isGroup\<close> flag is the constructor.\<close>

datatype held_op = HeldAttrs "attr list" | HeldGroup bytes

definition close_group :: "bytes \<Rightarrow> attr list \<Rightarrow> attr list" where
  "close_group g as = (if as = [] then [] else [Attr g (GroupValue as)])"

text \<open>
  The specification: attrs held before the record's own attrs come first, and everything
  after a \<open>WithGroup\<close> is a member of that group, which is left out when it is empty.
\<close>

fun nest :: "held_op list \<Rightarrow> attr list \<Rightarrow> attr list" where
  "nest [] as = as"
| "nest (HeldAttrs xs # ops) as = xs @ nest ops as"
| "nest (HeldGroup g # ops) as = close_group g (nest ops as)"

lemma nest_append [simp]: "nest (ops @ ops') as = nest ops (nest ops' as)"
  by (induction ops as rule: nest.induct) auto

text \<open>The loop the code runs instead: from the last held call to the first.\<close>

fun nest_step :: "held_op \<Rightarrow> attr list \<Rightarrow> attr list" where
  "nest_step (HeldAttrs xs) as = xs @ as"
| "nest_step (HeldGroup g) as = (if as = [] then as else [Attr g (GroupValue as)])"

lemma nest_loop: "fold nest_step (rev ops) as = nest ops as"
proof (induction ops)
  case Nil
  then show ?case by simp
next
  case (Cons op ops)
  then show ?case by (cases op) (simp_all add: close_group_def)
qed

text \<open>The calls that derive a handler, and their effect on the held operations.\<close>

definition apply_op :: "('h \<Rightarrow> attr list \<Rightarrow> 'h) \<Rightarrow> ('h \<Rightarrow> bytes \<Rightarrow> 'h) \<Rightarrow> 'h \<Rightarrow> held_op \<Rightarrow> 'h" where
  "apply_op wa wg h op = (case op of HeldAttrs as \<Rightarrow> wa h as | HeldGroup g \<Rightarrow> wg h g)"

definition derive :: "('h \<Rightarrow> attr list \<Rightarrow> 'h) \<Rightarrow> ('h \<Rightarrow> bytes \<Rightarrow> 'h) \<Rightarrow> 'h \<Rightarrow> held_op list \<Rightarrow> 'h" where
  "derive wa wg h ops = foldl (apply_op wa wg) h ops"

lemma derive_simps [simp]:
  "derive wa wg h [] = h"
  "derive wa wg h (HeldAttrs as # ops) = derive wa wg (wa h as) ops"
  "derive wa wg h (HeldGroup g # ops) = derive wa wg (wg h g) ops"
  by (simp_all add: derive_def apply_op_def)

lemma derive_invariant:
  assumes "P h" and "\<And>h as. P h \<Longrightarrow> HeldAttrs as \<in> set ops \<Longrightarrow> P (wa h as)"
    and "\<And>h g. P h \<Longrightarrow> HeldGroup g \<in> set ops \<Longrightarrow> P (wg h g)"
  shows "P (derive wa wg h ops)"
  using assms
proof (induction ops arbitrary: h)
  case (Cons op ops)
  then show ?case by (cases op) auto
qed simp

definition kept :: "(attr \<Rightarrow> bool) \<Rightarrow> held_op list \<Rightarrow> held_op list" where
  "kept keep ops =
     map (\<lambda>op. case op of HeldAttrs as \<Rightarrow> HeldAttrs (filter keep as) | HeldGroup g \<Rightarrow> HeldGroup g) ops"

lemma kept_simps [simp]:
  "kept keep [] = []"
  "kept keep (HeldAttrs as # ops) = HeldAttrs (filter keep as) # kept keep ops"
  "kept keep (HeldGroup g # ops) = HeldGroup g # kept keep ops"
  by (simp_all add: kept_def)

lemma kept_True [simp]: "kept (\<lambda>_. True) ops = ops"
  by (induction ops) (auto simp: kept_def split: held_op.splits)

fun named_groups :: "held_op list \<Rightarrow> bool" where
  "named_groups [] = True"
| "named_groups (HeldAttrs as # ops) = named_groups ops"
| "named_groups (HeldGroup g # ops) = (g \<noteq> [] \<and> named_groups ops)"

section \<open>Interface: a handler that holds its derivations\<close>

text \<open>
  \<open>keep\<close> says which attrs the handler's \<open>WithAttrs\<close> keeps (the code drops attrs with an
  empty key in some handlers and keeps them in others).
\<close>

locale op_holder =
  fixes held :: "'h \<Rightarrow> held_op list"
    and with_attrs :: "'h \<Rightarrow> attr list \<Rightarrow> 'h"
    and with_group :: "'h \<Rightarrow> bytes \<Rightarrow> 'h"
    and keep :: "attr \<Rightarrow> bool"
  assumes held_with_attrs:
      "nest (held (with_attrs h as)) xs = nest (held h) (filter keep as @ xs)"
    and held_with_group:
      "g \<noteq> [] \<Longrightarrow> nest (held (with_group h g)) xs = nest (held h) (close_group g xs)"
begin

lemma nest_derive:
  "named_groups ops \<Longrightarrow>
   nest (held (derive with_attrs with_group h ops)) xs = nest (held h) (nest (kept keep ops) xs)"
proof (induction ops arbitrary: h)
  case Nil
  then show ?case by simp
next
  case (Cons op ops)
  then show ?case by (cases op) (simp_all add: held_with_attrs held_with_group)
qed

end

section \<open>Interface: the next handler\<close>

text \<open>
  What a decorator relies on when it derives \<open>next\<close> and calls its \<open>Handle\<close>: \<open>line h r\<close>
  is the attr list the output shows for record \<open>r\<close>, and a derived handler shows what
  the underived one would show for the nested record.
\<close>

locale slog_next =
  fixes n_with_attrs :: "'n \<Rightarrow> attr list \<Rightarrow> 'n"
    and n_with_group :: "'n \<Rightarrow> bytes \<Rightarrow> 'n"
    and line :: "'n \<Rightarrow> attr list \<Rightarrow> attr list"
  assumes line_with_attrs: "line (n_with_attrs n as) xs = line n (as @ xs)"
    and line_with_group: "g \<noteq> [] \<Longrightarrow> line (n_with_group n g) xs = line n (close_group g xs)"
begin

abbreviation nderive :: "'n \<Rightarrow> held_op list \<Rightarrow> 'n" where
  "nderive \<equiv> derive n_with_attrs n_with_group"

lemma line_derive: "named_groups ops \<Longrightarrow> line (nderive n ops) xs = line n (nest ops xs)"
proof (induction ops arbitrary: n)
  case Nil
  then show ?case by simp
next
  case (Cons op ops)
  then show ?case by (cases op) (simp_all add: line_with_attrs line_with_group)
qed

end

section \<open>kitlogtest.TestHandler\<close>

text \<open>
  The handler's state is its chain of derivations; \<open>Handle\<close> passes the rebuilt record to
  \<open>Callback\<close>, so the model returns that record.
\<close>

record test_handler =
  goas :: "held_op list"

definition NewTestHandler :: test_handler where
  "NewTestHandler = \<lparr>goas = []\<rparr>"

definition withGroupOrAttrs :: "test_handler \<Rightarrow> held_op \<Rightarrow> test_handler" where
  "withGroupOrAttrs h goa = h\<lparr>goas := goas h @ [goa]\<rparr>"

definition TestHandler_WithAttrs :: "test_handler \<Rightarrow> attr list \<Rightarrow> test_handler" where
  "TestHandler_WithAttrs h as = (if as = [] then h else withGroupOrAttrs h (HeldAttrs as))"

definition TestHandler_WithGroup :: "test_handler \<Rightarrow> bytes \<Rightarrow> test_handler" where
  "TestHandler_WithGroup h name = (if name = [] then h else withGroupOrAttrs h (HeldGroup name))"

definition TestHandler_Handle :: "test_handler \<Rightarrow> slog_record \<Rightarrow> slog_record" where
  "TestHandler_Handle h r =
     (let attrs = fold (\<lambda>a attrs. attrs @ [a]) (r_attrs r) [];
          attrs = fold nest_step (rev (goas h)) attrs
      in fresh_record r attrs)"

lemma TestHandler_Handle_attrs:
  "r_attrs (TestHandler_Handle h r) = filter nonempty_attr (nest (goas h) (r_attrs r))"
  by (simp add: TestHandler_Handle_def Let_def fold_snoc nest_loop)

definition TestHandler_line :: "test_handler \<Rightarrow> attr list \<Rightarrow> attr list" where
  "TestHandler_line h as = filter nonempty_attr (nest (goas h) as)"

interpretation test_holder: op_holder goas TestHandler_WithAttrs TestHandler_WithGroup "\<lambda>_. True"
  by unfold_locales
     (auto simp: TestHandler_WithAttrs_def TestHandler_WithGroup_def withGroupOrAttrs_def)

interpretation test_next: slog_next TestHandler_WithAttrs TestHandler_WithGroup TestHandler_line
  by unfold_locales
     (auto simp: TestHandler_line_def TestHandler_WithAttrs_def TestHandler_WithGroup_def
        withGroupOrAttrs_def)

end
