(* ===== verification/DedupHandler.thy ===== *)
theory DedupHandler
  imports HeldOps
begin

text \<open>
  \<open>handler/dedup_handler.go\<close>: the innermost stage of the pipeline, which resolves every
  held attr and the record's own attrs into one tree with unique keys.

  A \<open>dedupNode\<close> (its \<open>keys\<close> slice and its \<open>entries\<close> map, always updated together) is an
  association list in insertion order. The pointer \<open>cur\<close> of \<open>Handle\<close> only ever moves
  to a child of the node it points to, so the loop over \<open>ops\<close> recurses into that child
  and puts the result back (\<open>with_child\<close>); the detached node \<open>child\<close> returns below a
  pinned scalar is dropped, which leaves the parent as it is.
\<close>

section \<open>The attr tree\<close>

datatype dedup_entry =
    Scalar attr bool
  | Node "(bytes \<times> dedup_entry) list" bool

type_synonym dedup_node = "(bytes \<times> dedup_entry) list"

fun e_pinned :: "dedup_entry \<Rightarrow> bool" where
  "e_pinned (Scalar _ p) = p"
| "e_pinned (Node _ p) = p"

fun set_pinned :: "dedup_entry \<Rightarrow> dedup_entry" where
  "set_pinned (Scalar a _) = Scalar a True"
| "set_pinned (Node n _) = Node n True"

definition newDedupNode :: dedup_node where
  "newDedupNode = []"

text \<open>\<open>with_child n key f\<close> is \<open>child\<close> followed by the changes \<open>f\<close> made through its result.\<close>

definition with_child :: "dedup_node \<Rightarrow> bytes \<Rightarrow> (dedup_node \<Rightarrow> dedup_node) \<Rightarrow> dedup_node" where
  "with_child n key f =
     (case map_of n key of
        Some (Scalar a pinned) \<Rightarrow>
          if pinned then n else AList.update key (Node (f newDedupNode) pinned) n
      | Some (Node sub pinned) \<Rightarrow> AList.update key (Node (f sub) pinned) n
      | None \<Rightarrow> AList.update key (Node (f newDedupNode) False) n)"

definition insert_scalar :: "bool \<Rightarrow> attr \<Rightarrow> dedup_node \<Rightarrow> dedup_node" where
  "insert_scalar pinned a n =
     (case map_of n (Key a) of
        Some e \<Rightarrow>
          if e_pinned e \<and> \<not> pinned then n
          else AList.update (Key a) (Scalar a (e_pinned e \<or> pinned)) n
      | None \<Rightarrow> AList.update (Key a) (Scalar a pinned) n)"

definition mark_pinned :: "bytes \<Rightarrow> dedup_node \<Rightarrow> dedup_node" where
  "mark_pinned k n =
     (case map_of n k of Some e \<Rightarrow> AList.update k (set_pinned e) n | None \<Rightarrow> n)"

definition blocked :: "bool \<Rightarrow> bytes \<Rightarrow> dedup_node \<Rightarrow> bool" where
  "blocked pinned k n = (case map_of n k of Some e \<Rightarrow> e_pinned e \<and> \<not> pinned | None \<Rightarrow> False)"

function node_insert :: "bool \<Rightarrow> attr \<Rightarrow> dedup_node \<Rightarrow> dedup_node"
  and node_inserts :: "bool \<Rightarrow> attr list \<Rightarrow> dedup_node \<Rightarrow> dedup_node" where
  "node_insert pinned (Attr k v0) n =
     (let v = Resolve v0; members = group_members v in
      if is_group v then
        (if k = [] then node_inserts pinned members n
         else if members = [] then n
         else if blocked pinned k n then n
         else
           (let n' = with_child n k (\<lambda>sub. node_inserts pinned members sub)
            in if pinned then mark_pinned k n' else n'))
      else if Attr k v = zero_attr then n
      else insert_scalar pinned (Attr k v) n)"
| "node_inserts pinned [] n = n"
| "node_inserts pinned (a # as) n = node_inserts pinned as (node_insert pinned a n)"
  by pat_completeness auto
termination
  by (relation "measure (\<lambda>x. case x of Inl (_, a, _) \<Rightarrow> size a | Inr (_, as, _) \<Rightarrow> size_list size as)")
     (auto dest: group_members_smaller)

declare node_insert.simps [simp del]

fun materialize :: "bytes list \<Rightarrow> dedup_node \<Rightarrow> attr list" where
  "materialize reserved [] = []"
| "materialize reserved ((k, Scalar a p) # n) =
     Attr (if k \<in> set reserved then ''attr.'' @ k else k) (Val a) # materialize reserved n"
| "materialize reserved ((k, Node sub p) # n) =
     (let members = materialize [] sub in
      if members = [] then materialize reserved n
      else Attr (if k \<in> set reserved then ''attr.'' @ k else k) (GroupValue members)
             # materialize reserved n)"

section \<open>The handler\<close>

record 'h dedup_handler =
  dh_next :: 'h
  dh_pinned :: "attr list"
  dh_reserved :: "bytes list"
  dh_ops :: "held_op list"

definition NewDedupHandler :: "'h \<Rightarrow> attr list \<Rightarrow> bytes list \<Rightarrow> 'h dedup_handler" where
  "NewDedupHandler next pinned reserved =
     \<lparr>dh_next = next, dh_pinned = filterValidAttrs pinned,
      dh_reserved = [''time'', ''level'', ''msg''] @ filter (\<lambda>k. k \<noteq> []) reserved, dh_ops = []\<rparr>"

fun clean_loop :: "bytes list \<Rightarrow> bytes list \<Rightarrow> attr list \<Rightarrow> bool" where
  "clean_loop reserved seen [] = True"
| "clean_loop reserved seen (a # as) =
     (if is_group (Val a) \<or> is_log_valuer (Val a) then False
      else if Key a \<in> set reserved \<or> Key a \<in> set seen then False
      else clean_loop reserved (seen @ [Key a]) as)"

definition isClean :: "'h dedup_handler \<Rightarrow> slog_record \<Rightarrow> bool" where
  "isClean h r = (if r_attrs r = [] then True else clean_loop (dh_reserved h) [] (r_attrs r))"

fun fill :: "dedup_node \<Rightarrow> held_op list \<Rightarrow> attr list \<Rightarrow> dedup_node" where
  "fill cur [] rec_attrs = node_inserts False rec_attrs cur"
| "fill cur (HeldGroup g # ops) rec_attrs = with_child cur g (\<lambda>sub. fill sub ops rec_attrs)"
| "fill cur (HeldAttrs as # ops) rec_attrs = fill (node_inserts False as cur) ops rec_attrs"

definition dedup_root :: "'h dedup_handler \<Rightarrow> attr list \<Rightarrow> dedup_node" where
  "dedup_root h rec_attrs =
     fill (node_inserts True (dh_pinned h) newDedupNode) (dh_ops h) rec_attrs"

text \<open>\<open>Handle\<close> always ends in \<open>next.Handle(ctx, r')\<close>; the model returns \<open>r'\<close>.\<close>

definition DedupHandler_Handle :: "'h dedup_handler \<Rightarrow> slog_record \<Rightarrow> slog_record" where
  "DedupHandler_Handle h r =
     (if dh_ops h = [] \<and> dh_pinned h = [] \<and> isClean h r then r
      else fresh_record r (materialize (dh_reserved h) (dedup_root h (r_attrs r))))"

definition dedup_derive_op :: "'h dedup_handler \<Rightarrow> held_op \<Rightarrow> 'h dedup_handler" where
  "dedup_derive_op h op = h\<lparr>dh_ops := dh_ops h @ [op]\<rparr>"

definition DedupHandler_WithAttrs :: "'h dedup_handler \<Rightarrow> attr list \<Rightarrow> 'h dedup_handler" where
  "DedupHandler_WithAttrs h as =
     (let as = filterValidAttrs as in if as = [] then h else dedup_derive_op h (HeldAttrs as))"

definition DedupHandler_WithGroup :: "'h dedup_handler \<Rightarrow> bytes \<Rightarrow> 'h dedup_handler" where
  "DedupHandler_WithGroup h name = (if name = [] then h else dedup_derive_op h (HeldGroup name))"

lemmas dedup_defs = DedupHandler_WithAttrs_def DedupHandler_WithGroup_def dedup_derive_op_def

interpretation dedup_holder:
  op_holder dh_ops DedupHandler_WithAttrs DedupHandler_WithGroup "\<lambda>a. Key a \<noteq> []"
  by unfold_locales (auto simp: dedup_defs Let_def)

section \<open>Well-formed trees\<close>

fun wf_entry :: "dedup_entry \<Rightarrow> bool" where
  "wf_entry (Scalar a p) = (\<not> is_group (Val a) \<and> \<not> is_log_valuer (Val a))"
| "wf_entry (Node n p) = (wf_map n \<and> list_all (\<lambda>ke. wf_entry (snd ke)) n)"

definition wf_node :: "dedup_node \<Rightarrow> bool" where
  "wf_node n \<longleftrightarrow> wf_map n \<and> list_all (\<lambda>ke. wf_entry (snd ke)) n"

lemma wf_entry_Node [simp]: "wf_entry (Node n p) \<longleftrightarrow> wf_node n"
  by (simp add: wf_node_def)

declare wf_entry.simps(2) [simp del]

lemma wf_node_Nil [simp]: "wf_node []" "wf_node newDedupNode"
  by (simp_all add: wf_node_def newDedupNode_def)

lemma wf_node_map: "wf_node n \<Longrightarrow> wf_map n"
  by (simp add: wf_node_def)

lemma wf_node_lookup: "wf_node n \<Longrightarrow> map_of n k = Some e \<Longrightarrow> wf_entry e"
  by (auto simp: wf_node_def list_all_iff dest!: map_of_SomeD)

lemma set_update_subset: "set (AList.update k v m) \<subseteq> insert (k, v) (set m)"
  by (induction m) auto

lemma wf_node_update: "wf_node n \<Longrightarrow> wf_entry e \<Longrightarrow> wf_node (AList.update k e n)"
  using set_update_subset [of k e n]
  by (fastforce simp: wf_node_def list_all_iff wf_map_update)

lemma wf_node_child:
  assumes n: "wf_node n" and f: "\<And>sub. wf_node sub \<Longrightarrow> wf_node (f sub)"
  shows "wf_node (with_child n k f)"
  using n wf_node_lookup [OF n]
  by (fastforce simp: with_child_def f intro!: wf_node_update
      split: option.splits dedup_entry.splits)

lemma wf_entry_set_pinned [simp]: "wf_entry (set_pinned e) = wf_entry e"
  by (cases e) auto

lemma wf_node_mark: "wf_node n \<Longrightarrow> wf_node (mark_pinned k n)"
  by (auto simp: mark_pinned_def dest: wf_node_lookup intro!: wf_node_update split: option.splits)

lemma wf_node_scalar:
  "wf_node n \<Longrightarrow> \<not> is_group (Val a) \<Longrightarrow> \<not> is_log_valuer (Val a) \<Longrightarrow>
   wf_node (insert_scalar p a n)"
  by (auto simp: insert_scalar_def intro!: wf_node_update split: option.splits)

lemma wf_node_insert:
  "wf_node n \<Longrightarrow> wf_node (node_insert p a n)"
  "wf_node n \<Longrightarrow> wf_node (node_inserts p as n)"
proof (induction p a n and p as n rule: node_insert_node_inserts.induct)
  case (1 p k v n)
  then show ?case
    by (auto simp: node_insert.simps Let_def intro!: wf_node_mark wf_node_child wf_node_scalar)
qed simp_all

lemma wf_node_fill: "wf_node n \<Longrightarrow> wf_node (fill n ops as)"
  by (induction n ops as rule: fill.induct) (auto intro!: wf_node_child wf_node_insert)

lemma wf_node_root: "wf_node (dedup_root h as)"
  by (simp add: dedup_root_def wf_node_fill wf_node_insert)

section \<open>Unique keys\<close>

fun unique_value :: "slog_value \<Rightarrow> bool" and unique_attr :: "attr \<Rightarrow> bool" where
  "unique_value (Group ms) = (distinct (map Key ms) \<and> list_all unique_attr ms)"
| "unique_value _ = True"
| "unique_attr (Attr k v) = unique_value v"

lemma unique_attr_eq: "unique_attr a = unique_value (Val a)"
  by (cases a) simp

lemma unique_value_scalar: "\<not> is_group v \<Longrightarrow> unique_value v"
  by (cases v) auto

definition rename :: "bytes list \<Rightarrow> bytes \<Rightarrow> bytes" where
  "rename reserved k = (if k \<in> set reserved then ''attr.'' @ k else k)"

lemma rename_Nil [simp]: "rename [] k = k"
  by (simp add: rename_def)

fun visible :: "bytes \<times> dedup_entry \<Rightarrow> bool" where
  "visible (k, Scalar a p) = True"
| "visible (k, Node sub p) = (materialize [] sub \<noteq> [])"

lemma materialize_keys:
  "map Key (materialize reserved n) = map (\<lambda>ke. rename reserved (fst ke)) (filter visible n)"
  by (induction reserved n rule: materialize.induct) (auto simp: rename_def Let_def)

lemma filter_nonempty_materialize:
  "wf_node n \<Longrightarrow> filter nonempty_attr (materialize reserved n) = materialize reserved n"
proof (induction reserved n rule: materialize.induct)
  case (2 reserved k a p n)
  then show ?case
    by (cases "Val a") (auto simp: wf_node_def wf_map_Cons)
next
  case (3 reserved k sub p n)
  then have "wf_node sub" and "wf_node n"
    by (simp_all add: wf_node_def wf_map_Cons)
  moreover from \<open>wf_node sub\<close> have
    "filter nonempty_attr (materialize [] sub) = materialize [] sub"
    using "3.IH"(1) by blast
  ultimately show ?case
    using "3.IH"(2,3) [OF refl]
    by (cases "materialize [] sub") (auto simp: Let_def GroupValue_def)
qed simp

lemma distinct_visible: "wf_node n \<Longrightarrow> distinct (map fst (filter visible n))"
  by (simp add: wf_node_def wf_map_def distinct_map_filter)

lemma materialize_distinct: "wf_node n \<Longrightarrow> distinct (map Key (materialize [] n))"
  by (simp add: materialize_keys distinct_visible)

lemma wf_node_Cons:
  "wf_node ((k, e) # n) \<longleftrightarrow> k \<notin> set (keys n) \<and> wf_entry e \<and> wf_node n"
  by (auto simp: wf_node_def wf_map_Cons)

lemma materialize_unique:
  "wf_node n \<Longrightarrow> list_all unique_attr (materialize reserved n)"
proof (induction reserved n rule: materialize.induct)
  case (3 reserved k sub p n)
  then have wf: "wf_node sub" "wf_node n" by (simp_all add: wf_node_Cons)
  then have "list_all unique_attr (materialize [] sub)" using "3.IH"(1) by blast
  with wf "3.IH"(2,3) [OF refl] show ?case
    by (auto simp: Let_def GroupValue_def filter_nonempty_materialize materialize_distinct)
qed (auto simp: wf_node_Cons unique_value_scalar)

definition renamed_keys :: "bytes list \<Rightarrow> bytes set" where
  "renamed_keys reserved = (\<lambda>k. ''attr.'' @ k) ` set reserved"

lemma rename_other: "rename reserved k \<notin> renamed_keys reserved \<Longrightarrow> rename reserved k = k"
  by (auto simp: rename_def renamed_keys_def)

lemma distinct_rename:
  "distinct ks \<Longrightarrow> distinct (filter (\<lambda>k. k \<notin> renamed_keys reserved) (map (rename reserved) ks))"
  by (induction ks) (auto, metis rename_other)

text \<open>The shape a record has once the handler forwarded it.\<close>

definition deduped :: "bytes list \<Rightarrow> attr list \<Rightarrow> bool" where
  "deduped reserved as \<longleftrightarrow>
     distinct (filter (\<lambda>k. k \<notin> renamed_keys reserved) (map Key as)) \<and> list_all unique_attr as"

lemma deduped_materialize:
  assumes "wf_node n"
  shows "deduped reserved (materialize reserved n)"
proof -
  have "distinct (filter (\<lambda>k. k \<notin> renamed_keys reserved)
      (map (rename reserved) (map fst (filter visible n))))"
    using distinct_visible [OF assms] by (rule distinct_rename)
  then show ?thesis
    using materialize_unique [OF assms] by (simp add: deduped_def materialize_keys comp_def)
qed

lemma clean_loop_spec:
  "clean_loop reserved seen as \<longleftrightarrow>
     list_all (\<lambda>a. \<not> is_group (Val a) \<and> \<not> is_log_valuer (Val a) \<and> Key a \<notin> set reserved) as \<and>
     distinct (map Key as) \<and> Key ` set as \<inter> set seen = {}"
  by (induction reserved seen as rule: clean_loop.induct) auto

lemma isClean_spec:
  "isClean h r \<longleftrightarrow>
     list_all (\<lambda>a. \<not> is_group (Val a) \<and> \<not> is_log_valuer (Val a) \<and> Key a \<notin> set (dh_reserved h)) (r_attrs r)
     \<and> distinct (map Key (r_attrs r))"
  by (simp add: isClean_def clean_loop_spec)

lemma deduped_clean: "isClean h r \<Longrightarrow> deduped (dh_reserved h) (r_attrs r)"
  by (auto simp: isClean_spec deduped_def distinct_filter list_all_iff unique_attr_eq
      intro: unique_value_scalar)

lemma handle_attrs:
  "r_attrs (DedupHandler_Handle h r) =
     (if dh_ops h = [] \<and> dh_pinned h = [] \<and> isClean h r then r_attrs r
      else materialize (dh_reserved h) (dedup_root h (r_attrs r)))"
  by (simp add: DedupHandler_Handle_def filter_nonempty_materialize wf_node_root)

lemma Handle_deduped: "deduped (dh_reserved h) (r_attrs (DedupHandler_Handle h r))"
  by (simp add: handle_attrs deduped_clean deduped_materialize wf_node_root)

text \<open>
  C1. Every record \<open>DedupHandler.Handle\<close> forwards has unique keys: inside every group at any
  depth, and at the top level among all keys that are not the target \<open>attr.<key>\<close> of a
  reserved key's renaming.
\<close>

theorem dedup_unique_keys: "deduped (dh_reserved h) (r_attrs (DedupHandler_Handle h r))"
  by (rule Handle_deduped)

text \<open>
  The renaming of reserved keys can itself produce a duplicate: a record with the keys
  \<open>time\<close> and \<open>attr.time\<close> leaves the handler with \<open>attr.time\<close> twice.
\<close>

theorem dedup_reserved_rename_duplicates:
  "map Key (r_attrs (DedupHandler_Handle (NewDedupHandler n [] [])
     (fresh_record r [String ''time'' ''a'', String ''attr.time'' ''b'']))) =
   [''attr.time'', ''attr.time'']"
  by (simp add: handle_attrs isClean_def NewDedupHandler_def String_def dedup_root_def
      newDedupNode_def node_insert.simps Let_def Resolve_id insert_scalar_def zero_attr_def)

section \<open>Records without groups: last value, first position\<close>

definition flat_attr :: "attr \<Rightarrow> bool" where
  "flat_attr a \<longleftrightarrow> \<not> is_group (Val a) \<and> \<not> is_log_valuer (Val a) \<and> a \<noteq> zero_attr"

definition first_occurrences :: "bytes list \<Rightarrow> bytes list" where
  "first_occurrences ks = rev (remdups (rev ks))"

definition last_value :: "attr list \<Rightarrow> bytes \<Rightarrow> slog_value" where
  "last_value as k = Val (last (filter (\<lambda>a. Key a = k) as))"

lemma first_occurrences_simps [simp]:
  "first_occurrences [] = []"
  "first_occurrences (ks @ [k]) =
     (if k \<in> set ks then first_occurrences ks else first_occurrences ks @ [k])"
  by (simp_all add: first_occurrences_def)

lemma set_first_occurrences [simp]: "set (first_occurrences ks) = set ks"
  by (simp add: first_occurrences_def)

lemma distinct_first_occurrences [simp]: "distinct (first_occurrences ks)"
  by (simp add: first_occurrences_def)

lemma first_occurrences_id: "distinct ks \<Longrightarrow> first_occurrences ks = ks"
  by (simp add: first_occurrences_def distinct_remdups_id)

lemma node_insert_flat: "flat_attr a \<Longrightarrow> node_insert p a n = insert_scalar p a n"
  by (cases a) (simp add: flat_attr_def node_insert.simps Let_def Resolve_id)

lemma node_inserts_snoc:
  "node_inserts p (as @ [a]) n = node_insert p a (node_inserts p as n)"
  by (induction as arbitrary: n) auto

lemma update_map_entry:
  "distinct ks \<Longrightarrow> k \<in> set ks \<Longrightarrow>
   AList.update k v (map (\<lambda>k. (k, f k)) ks) = map (\<lambda>k'. (k', (f(k := v)) k')) ks"
  by (induction ks) (auto simp: fun_upd_def)

lemma update_append_other:
  "k \<notin> set (keys m) \<Longrightarrow> AList.update k v (m @ m') = m @ AList.update k v m'"
  by (induction m) auto

lemma last_value_snoc [simp]:
  "last_value (as @ [a]) k = (if Key a = k then Val a else last_value as k)"
  by (simp add: last_value_def)

definition pins :: "attr list \<Rightarrow> dedup_node" where
  "pins ps = map (\<lambda>a. (Key a, Scalar a True)) ps"

lemma keys_pins [simp]: "keys (pins ps) = map Key ps"
  by (simp add: pins_def)

lemma map_of_pins_None: "k \<notin> Key ` set ps \<Longrightarrow> map_of (pins ps) k = None"
  by (auto simp: pins_def map_of_eq_None_iff)

lemma map_of_pins_Some:
  "k \<in> Key ` set ps \<Longrightarrow> \<exists>a. map_of (pins ps) k = Some (Scalar a True)"
  by (induction ps) (auto simp: pins_def)

lemma insert_pins:
  "list_all flat_attr ps \<Longrightarrow> distinct (map Key ps) \<Longrightarrow> node_inserts True ps newDedupNode = pins ps"
proof (induction ps rule: rev_induct)
  case Nil
  then show ?case by (simp add: pins_def newDedupNode_def)
next
  case (snoc a ps)
  then show ?case
    by (auto simp: node_inserts_snoc node_insert_flat insert_scalar_def map_of_pins_None
        gomap) (simp add: pins_def)
qed

lemma insert_flats:
  assumes "list_all flat_attr as"
  shows "node_inserts False as (pins ps) = pins ps @
    map (\<lambda>k. (k, Scalar (Attr k (last_value as k)) False))
      (first_occurrences (filter (\<lambda>k. k \<notin> Key ` set ps) (map Key as)))"
  using assms
proof (induction as rule: rev_induct)
  case Nil
  then show ?case by simp
next
  case (snoc a as)
  let ?ks = "first_occurrences (filter (\<lambda>k. k \<notin> Key ` set ps) (map Key as))"
  let ?entry = "\<lambda>k. Scalar (Attr k (last_value as k)) False"
  let ?n = "pins ps @ map (\<lambda>k. (k, ?entry k)) ?ks"
  have IH: "node_inserts False as (pins ps) = ?n" and flat: "flat_attr a"
    using snoc by simp_all
  show ?case
  proof (cases "Key a \<in> Key ` set ps")
    case True
    then obtain b where "map_of (pins ps) (Key a) = Some (Scalar b True)"
      using map_of_pins_Some by blast
    with True have "insert_scalar False a ?n = ?n"
      by (simp add: insert_scalar_def)
    moreover have "map ?entry ?ks = map (\<lambda>k. Scalar (Attr k (last_value (as @ [a]) k)) False) ?ks"
      using True by auto
    ultimately show ?thesis
      using True by (auto simp: node_inserts_snoc IH node_insert_flat flat)
  next
    case False
    then show ?thesis
      by (cases "Key a \<in> Key ` set as")
         (auto simp: node_inserts_snoc IH node_insert_flat flat insert_scalar_def
          map_of_pins_None update_append_other update_map_entry update_fresh
          map_of_map_restrict restrict_map_def comp_def split: option.splits)
  qed
qed


lemma materialize_append:
  "materialize reserved (m @ n) = materialize reserved m @ materialize reserved n"
  by (induction reserved m rule: materialize.induct) (auto simp: Let_def)

definition rename_attr :: "bytes list \<Rightarrow> attr \<Rightarrow> attr" where
  "rename_attr reserved a = Attr (rename reserved (Key a)) (Val a)"

lemma Key_rename_attr [simp]: "Key (rename_attr reserved a) = rename reserved (Key a)"
  by (simp add: rename_attr_def)

lemma rename_attr_id: "Key a \<notin> set reserved \<Longrightarrow> rename_attr reserved a = a"
  by (cases a) (simp add: rename_attr_def rename_def)

lemma materialize_pins: "materialize reserved (pins ps) = map (rename_attr reserved) ps"
  by (induction ps) (auto simp: pins_def rename_attr_def rename_def)

lemma materialize_scalars:
  "materialize reserved (map (\<lambda>k. (k, Scalar (Attr k (f k)) p)) ks) =
   map (\<lambda>k. rename_attr reserved (Attr k (f k))) ks"
  by (induction ks) (auto simp: rename_attr_def rename_def)

definition last_values :: "attr list \<Rightarrow> bytes list \<Rightarrow> attr list" where
  "last_values as ks = map (\<lambda>k. Attr k (last_value as k)) ks"

lemma last_value_member:
  "distinct (map Key as) \<Longrightarrow> a \<in> set as \<Longrightarrow> last_value as (Key a) = Val a"
proof -
  assume "distinct (map Key as)" and "a \<in> set as"
  then have "filter (\<lambda>b. Key b = Key a) as = [a]"
    by (induction as) (auto simp: filter_empty_conv rev_image_eqI)
  then show ?thesis by (simp add: last_value_def)
qed

lemma last_values_distinct:
  "distinct (map Key as) \<Longrightarrow> last_values as (map Key as) = as"
  by (rule nth_equalityI) (auto simp: last_values_def last_value_member intro: attr.expand)

lemma map_rename_attr_clean:
  "list_all (\<lambda>a. Key a \<notin> set reserved) as \<Longrightarrow> map (rename_attr reserved) as = as"
  by (induction as) (auto simp: rename_attr_id)

text \<open>
  For a record without groups the handler keeps one attr per key, with the value of the
  last occurrence at the position of the first, after the pinned attrs; keys of pinned attrs
  are left out and reserved keys are renamed. The fast path for clean records is covered: it
  agrees with the tree.
\<close>

theorem dedup_last_value_first_position:
  assumes "dh_ops h = []" and "list_all flat_attr (dh_pinned h)"
    and "distinct (map Key (dh_pinned h))" and "list_all flat_attr (r_attrs r)"
  shows "r_attrs (DedupHandler_Handle h r) =
    map (rename_attr (dh_reserved h))
      (dh_pinned h @ last_values (r_attrs r)
         (first_occurrences (filter (\<lambda>k. k \<notin> Key ` set (dh_pinned h)) (map Key (r_attrs r)))))"
proof (cases "dh_ops h = [] \<and> dh_pinned h = [] \<and> isClean h r")
  case True
  then show ?thesis
    by (simp add: handle_attrs isClean_spec first_occurrences_id last_values_distinct
        map_rename_attr_clean list_all_iff)
next
  case False
  then have "r_attrs (DedupHandler_Handle h r) =
    materialize (dh_reserved h) (node_inserts False (r_attrs r) (pins (dh_pinned h)))"
    using assms by (auto simp add: handle_attrs dedup_root_def insert_pins)
  then show ?thesis
    using assms by (simp add: insert_flats materialize_append materialize_pins
        materialize_scalars last_values_def comp_def)
qed

theorem dedup_last_value_first_position_witness:
  "r_attrs (DedupHandler_Handle (NewDedupHandler () [String ''env'' ''prod''] [])
      (fresh_record (NewRecord 0 0 ''m'' 0)
        [String ''id'' ''1'', String ''env'' ''x'', String ''n'' ''2'', String ''id'' ''3''])) =
    [String ''env'' ''prod'', String ''id'' ''3'', String ''n'' ''2'']"
proof -
  let ?h = "NewDedupHandler () [String ''env'' ''prod''] []"
  let ?r = "fresh_record (NewRecord 0 0 ''m'' 0)
        [String ''id'' ''1'', String ''env'' ''x'', String ''n'' ''2'', String ''id'' ''3'']"
  have "dh_ops ?h = []" "list_all flat_attr (dh_pinned ?h)" "distinct (map Key (dh_pinned ?h))"
    "list_all flat_attr (r_attrs ?r)"
    by (simp_all add: NewDedupHandler_def flat_attr_def String_def zero_attr_def)
  from dedup_last_value_first_position [OF this] show ?thesis
    by (simp add: NewDedupHandler_def String_def first_occurrences_def last_values_def
        last_value_def rename_attr_def rename_def)
qed

section \<open>Pinned attrs\<close>

text \<open>Nothing inserted without \<open>pinned\<close> changes a prefix of pinned scalars.\<close>

definition pinned_prefix :: "attr list \<Rightarrow> dedup_node \<Rightarrow> bool" where
  "pinned_prefix ps n \<longleftrightarrow> (\<exists>rest. n = pins ps @ rest)"

lemma pinned_prefix_update:
  "pinned_prefix ps n \<Longrightarrow> k \<notin> Key ` set ps \<Longrightarrow> pinned_prefix ps (AList.update k e n)"
  by (auto simp: pinned_prefix_def update_append_other)

lemma pinned_prefix_lookup:
  "pinned_prefix ps n \<Longrightarrow> k \<in> Key ` set ps \<Longrightarrow> \<exists>a. map_of n k = Some (Scalar a True)"
  by (auto simp: pinned_prefix_def dest!: map_of_pins_Some)

lemma pinned_prefix_child: "pinned_prefix ps n \<Longrightarrow> pinned_prefix ps (with_child n k f)"
  using pinned_prefix_lookup [of ps n k]
  by (cases "k \<in> Key ` set ps")
     (auto simp: with_child_def intro!: pinned_prefix_update
       split: option.splits dedup_entry.splits)

lemma pinned_prefix_scalar: "pinned_prefix ps n \<Longrightarrow> pinned_prefix ps (insert_scalar False a n)"
  using pinned_prefix_lookup [of ps n "Key a"]
  by (cases "Key a \<in> Key ` set ps")
     (auto simp: insert_scalar_def intro!: pinned_prefix_update split: option.splits)

lemma pinned_prefix_insert:
  "p = False \<Longrightarrow> pinned_prefix ps n \<Longrightarrow> pinned_prefix ps (node_insert p a n)"
  "p = False \<Longrightarrow> pinned_prefix ps n \<Longrightarrow> pinned_prefix ps (node_inserts p as n)"
  by (induction p a n and p as n rule: node_insert_node_inserts.induct)
     (auto simp: node_insert.simps Let_def pinned_prefix_child pinned_prefix_scalar)

lemma pinned_prefix_fill: "pinned_prefix ps n \<Longrightarrow> pinned_prefix ps (fill n ops as)"
  by (induction n ops as rule: fill.induct)
     (auto simp: pinned_prefix_child pinned_prefix_insert)

lemma Handle_pinned_first:
  assumes "list_all flat_attr (dh_pinned h)" and "distinct (map Key (dh_pinned h))"
  shows "take (length (dh_pinned h)) (r_attrs (DedupHandler_Handle h r)) =
    map (rename_attr (dh_reserved h)) (dh_pinned h)"
proof (cases "dh_pinned h = []")
  case False
  have "pinned_prefix (dh_pinned h) (pins (dh_pinned h))"
    by (simp add: pinned_prefix_def)
  then have "pinned_prefix (dh_pinned h) (dedup_root h (r_attrs r))"
    using assms by (simp add: dedup_root_def insert_pins pinned_prefix_fill)
  then obtain rest where "dedup_root h (r_attrs r) = pins (dh_pinned h) @ rest"
    by (auto simp: pinned_prefix_def)
  with False show ?thesis
    by (simp add: handle_attrs materialize_append materialize_pins)
qed simp

text \<open>
  Pinned attrs come first, in their order and with their own values, whatever \<open>With\<close>
  attrs, opened groups and record attrs follow.
\<close>

theorem dedup_pinned_first:
  assumes "list_all flat_attr (dh_pinned h)" and "distinct (map Key (dh_pinned h))"
  shows "take (length (dh_pinned h)) (r_attrs (DedupHandler_Handle h r)) =
    map (rename_attr (dh_reserved h)) (dh_pinned h)"
  by (rule Handle_pinned_first [OF assms])

theorem dedup_pinned_first_witness:
  "take 1 (r_attrs (DedupHandler_Handle
      (DedupHandler_WithGroup (NewDedupHandler () [String ''env'' ''prod''] []) ''env'')
      (fresh_record (NewRecord 0 0 ''m'' 0) [String ''env'' ''x'']))) = [String ''env'' ''prod'']"
proof -
  let ?h = "DedupHandler_WithGroup (NewDedupHandler () [String ''env'' ''prod''] []) ''env''"
  have "list_all flat_attr (dh_pinned ?h)" and "distinct (map Key (dh_pinned ?h))"
    by (simp_all add: NewDedupHandler_def dedup_defs flat_attr_def String_def zero_attr_def)
  from dedup_pinned_first [OF this] show ?thesis
    by (simp add: NewDedupHandler_def dedup_defs String_def rename_attr_def rename_def)
qed

section \<open>Reserved keys\<close>

lemma rename_not_reserved:
  "renamed_keys reserved \<inter> set reserved = {} \<Longrightarrow> rename reserved k \<notin> set reserved"
  by (auto simp: rename_def renamed_keys_def)

text \<open>
  No attr of a forwarded record has a reserved key at the top level, so it can neither
  shadow nor repeat \<open>time\<close>, \<open>level\<close> or \<open>msg\<close>.
\<close>

theorem dedup_reserved_free:
  assumes "renamed_keys (dh_reserved h) \<inter> set (dh_reserved h) = {}"
  shows "Key ` set (r_attrs (DedupHandler_Handle h r)) \<inter> set (dh_reserved h) = {}"
proof (cases "dh_ops h = [] \<and> dh_pinned h = [] \<and> isClean h r")
  case True
  then show ?thesis by (auto simp: handle_attrs isClean_spec list_all_iff)
next
  case False
  have "Key ` set (materialize (dh_reserved h) n) \<inter> set (dh_reserved h) = {}" for n
    using rename_not_reserved [OF assms] materialize_keys [of "dh_reserved h" n]
    by (metis (no_types, lifting) disjoint_iff ex_map_conv image_set)
  with False show ?thesis by (auto simp: handle_attrs)
qed

theorem dedup_reserved_free_witness:
  "Key ` set (r_attrs (DedupHandler_Handle (NewDedupHandler () [] [''source''])
     (fresh_record (NewRecord 0 0 [] 0) [String ''time'' ''x'', String ''source'' ''y''])))
   \<inter> {''time'', ''level'', ''msg'', ''source''} = {}"
proof -
  let ?h = "NewDedupHandler () [] [''source'']"
  have res: "dh_reserved ?h = [''time'', ''level'', ''msg'', ''source'']"
    by (simp add: NewDedupHandler_def)
  then have "renamed_keys (dh_reserved ?h) \<inter> set (dh_reserved ?h) = {}"
    by (simp add: renamed_keys_def)
  from dedup_reserved_free [OF this] show ?thesis
    by (simp only: res list.set)
qed

section \<open>Held derivations against inlined attrs\<close>

fun unpinned :: "dedup_entry \<Rightarrow> bool" where
  "unpinned (Scalar a p) = True"
| "unpinned (Node n p) = (\<not> p \<and> list_all (\<lambda>ke. unpinned (snd ke)) n)"

text \<open>Trees whose pinned entries are scalars, as \<open>Config.GlobalFields\<close> produces.\<close>

definition scalar_pins :: "dedup_node \<Rightarrow> bool" where
  "scalar_pins n \<longleftrightarrow> list_all (\<lambda>ke. unpinned (snd ke)) n"

lemma unpinned_Node [simp]: "unpinned (Node n p) \<longleftrightarrow> \<not> p \<and> scalar_pins n"
  by (simp add: scalar_pins_def)

declare unpinned.simps(2) [simp del]

lemma scalar_pins_Nil [simp]: "scalar_pins []" "scalar_pins newDedupNode"
  by (simp_all add: scalar_pins_def newDedupNode_def)

lemma scalar_pins_lookup: "scalar_pins n \<Longrightarrow> map_of n k = Some e \<Longrightarrow> unpinned e"
  by (auto simp: scalar_pins_def list_all_iff dest!: map_of_SomeD)

lemma scalar_pins_update: "scalar_pins n \<Longrightarrow> unpinned e \<Longrightarrow> scalar_pins (AList.update k e n)"
  using set_update_subset [of k e n] by (fastforce simp: scalar_pins_def list_all_iff)

lemma scalar_pins_child:
  assumes n: "scalar_pins n" and f: "\<And>sub. scalar_pins sub \<Longrightarrow> scalar_pins (f sub)"
  shows "scalar_pins (with_child n k f)"
  using n scalar_pins_lookup [OF n]
  by (fastforce simp: with_child_def f intro!: scalar_pins_update
      split: option.splits dedup_entry.splits)

lemma scalar_pins_insert:
  "p = False \<Longrightarrow> scalar_pins n \<Longrightarrow> scalar_pins (node_insert p a n)"
  "p = False \<Longrightarrow> scalar_pins n \<Longrightarrow> scalar_pins (node_inserts p as n)"
  by (induction p a n and p as n rule: node_insert_node_inserts.induct)
     (auto simp: node_insert.simps Let_def insert_scalar_def scalar_pins_child
       intro!: scalar_pins_update split: option.splits)

lemma scalar_pins_pins: "scalar_pins (pins ps)"
  by (simp add: scalar_pins_def pins_def list_all_iff)

lemma with_child_cong_pins:
  assumes "scalar_pins n" and "\<And>sub. scalar_pins sub \<Longrightarrow> f sub = g sub"
  shows "with_child n k f = with_child n k g"
  using assms scalar_pins_lookup [OF assms(1), of k]
  by (auto simp: with_child_def split: option.splits dedup_entry.splits)

lemma with_child_blocked: "scalar_pins n \<Longrightarrow> blocked False k n \<Longrightarrow> with_child n k f = n"
  using scalar_pins_lookup [of n k]
  by (auto simp: with_child_def blocked_def split: option.splits dedup_entry.splits)

text \<open>Held operations as the handler's own methods record them.\<close>

fun solid_op :: "held_op \<Rightarrow> bool" where
  "solid_op (HeldAttrs as) = list_all nonempty_attr as"
| "solid_op (HeldGroup g) = (g \<noteq> [])"

lemma nest_solid:
  "list_all solid_op ops \<Longrightarrow> as \<noteq> [] \<Longrightarrow> list_all nonempty_attr as \<Longrightarrow>
   nest ops as \<noteq> [] \<and> list_all nonempty_attr (nest ops as)"
proof (induction ops as rule: nest.induct)
  case (3 g ops as)
  then have IH: "nest ops as \<noteq> []" "list_all nonempty_attr (nest ops as)" by simp_all
  then have "filter nonempty_attr (nest ops as) = nest ops as"
    by (simp add: filter_id_conv_all)
  with IH show ?case
    by (cases "nest ops as") (simp_all add: close_group_def GroupValue_def)
qed simp_all

lemma node_inserts_append: "node_inserts p (as @ bs) n = node_inserts p bs (node_inserts p as n)"
  by (induction as arbitrary: n) auto

lemma insert_closed_group:
  assumes "g \<noteq> []" and "as \<noteq> []" and "list_all nonempty_attr as" and "scalar_pins n"
  shows "node_inserts False (close_group g as) n = with_child n g (node_inserts False as)"
proof -
  have "filter nonempty_attr as = as"
    using assms(3) by (simp add: filter_id_conv_all)
  then show ?thesis
    using assms with_child_blocked [of n g]
    by (simp add: close_group_def GroupValue_def node_insert.simps Resolve_id Let_def)
qed

lemma fill_nest:
  "list_all solid_op ops \<Longrightarrow> as \<noteq> [] \<Longrightarrow> list_all nonempty_attr as \<Longrightarrow> scalar_pins n \<Longrightarrow>
   fill n ops as = node_inserts False (nest ops as) n"
proof (induction ops arbitrary: n)
  case Nil
  then show ?case by simp
next
  case (Cons op ops)
  then have ne: "nest ops as \<noteq> []" "list_all nonempty_attr (nest ops as)"
    using nest_solid by simp_all
  show ?case
  proof (cases op)
    case (HeldAttrs xs)
    then show ?thesis
      using Cons by (simp add: node_inserts_append scalar_pins_insert)
  next
    case (HeldGroup g)
    have "fill n (op # ops) as = with_child n g (node_inserts False (nest ops as))"
      using Cons HeldGroup by (auto intro!: with_child_cong_pins)
    then show ?thesis
      using Cons.prems HeldGroup ne by (simp add: insert_closed_group)
  qed
qed

lemma dedup_with_sel [simp]:
  "dh_next (DedupHandler_WithAttrs h as) = dh_next h"
  "dh_pinned (DedupHandler_WithAttrs h as) = dh_pinned h"
  "dh_reserved (DedupHandler_WithAttrs h as) = dh_reserved h"
  "dh_ops (DedupHandler_WithAttrs h as) =
     (if filterValidAttrs as = [] then dh_ops h else dh_ops h @ [HeldAttrs (filterValidAttrs as)])"
  "dh_next (DedupHandler_WithGroup h g) = dh_next h"
  "dh_pinned (DedupHandler_WithGroup h g) = dh_pinned h"
  "dh_reserved (DedupHandler_WithGroup h g) = dh_reserved h"
  "dh_ops (DedupHandler_WithGroup h g) = (if g = [] then dh_ops h else dh_ops h @ [HeldGroup g])"
  by (simp_all add: dedup_defs Let_def)

lemma dedup_derive_frame [simp]:
  "dh_next (derive DedupHandler_WithAttrs DedupHandler_WithGroup h ops) = dh_next h"
  "dh_pinned (derive DedupHandler_WithAttrs DedupHandler_WithGroup h ops) = dh_pinned h"
  "dh_reserved (derive DedupHandler_WithAttrs DedupHandler_WithGroup h ops) = dh_reserved h"
  by (rule derive_invariant, simp_all)+

lemma derive_solid:
  "list_all solid_op ops \<Longrightarrow> list_all solid_op (dh_ops h) \<Longrightarrow>
   list_all solid_op (dh_ops (derive DedupHandler_WithAttrs DedupHandler_WithGroup h ops))"
  by (rule derive_invariant) (auto simp: list_all_iff)

lemma solid_named: "list_all solid_op ops \<Longrightarrow> named_groups ops"
  by (induction ops rule: named_groups.induct) auto

lemma clean_materialize:
  assumes "isClean h r" and "zero_attr \<notin> set (r_attrs r)"
  shows "materialize (dh_reserved h) (node_inserts False (r_attrs r) []) = r_attrs r"
proof -
  have "list_all flat_attr (r_attrs r)"
    using assms by (auto simp: isClean_spec list_all_iff flat_attr_def)
  from insert_flats [OF this, of "[]"] show ?thesis
    using assms by (simp add: pins_def materialize_scalars isClean_spec first_occurrences_id
        list_all_iff del: map_map)
      (simp add: rename_attr_id last_value_member map_idI attr.expand)
qed

text \<open>A record whose attrs are inserted below the pins, fast path or not.\<close>

lemma handle_inserted:
  assumes "dh_ops h = []" and "list_all flat_attr (dh_pinned h)"
    and "distinct (map Key (dh_pinned h))" and "zero_attr \<notin> set (r_attrs r)"
  shows "r_attrs (DedupHandler_Handle h r) =
    materialize (dh_reserved h) (node_inserts False (r_attrs r) (pins (dh_pinned h)))"
  using assms by (auto simp: handle_attrs dedup_root_def insert_pins clean_materialize pins_def)

lemma zero_attr_nest:
  "zero_attr \<notin> set as \<Longrightarrow> named_groups ops \<Longrightarrow>
   zero_attr \<notin> set (nest (kept (\<lambda>a. Key a \<noteq> []) ops) as)"
  by (induction ops rule: named_groups.induct) (auto simp: zero_attr_def close_group_def)

text \<open>
  C15. Let a logger be derived by \<open>With\<close> and \<open>WithGroup\<close> calls that open no group without a name and pass no empty group
  (\<open>solid_op\<close>), and let a record hold at least one attr, none of them zero and none an empty group. If the pinned attrs
  are scalars with distinct keys, the derived logger forwards for the record exactly what the underived one forwards for the
  record with these attrs and groups written inline: holding the calls back loses nothing and changes nothing. A \<open>With\<close>
  attr with an empty key is dropped (\<open>kept\<close>). Without an attr in the record this is false: an opened group then takes a
  \<open>With\<close> attr of its name along (\<open>dedup_empty_group_drops_scalar\<close>).
\<close>

theorem dedup_with_equals_inline:
  assumes "dh_ops h = []" and "list_all flat_attr (dh_pinned h)"
    and "distinct (map Key (dh_pinned h))" and "list_all solid_op ops"
    and "wf_record r" and "r_attrs r \<noteq> []" and "zero_attr \<notin> set (r_attrs r)"
  shows "r_attrs (DedupHandler_Handle
      (derive DedupHandler_WithAttrs DedupHandler_WithGroup h ops) r) =
    r_attrs (DedupHandler_Handle h
      (r\<lparr>r_attrs := nest (kept (\<lambda>a. Key a \<noteq> []) ops) (r_attrs r)\<rparr>))"
proof -
  let ?h' = "derive DedupHandler_WithAttrs DedupHandler_WithGroup h ops"
  let ?as = "nest (kept (\<lambda>a. Key a \<noteq> []) ops) (r_attrs r)"
  have solid: "list_all solid_op (dh_ops ?h')"
    using assms by (simp add: derive_solid)
  have nest: "nest (dh_ops ?h') (r_attrs r) = ?as"
    using assms dedup_holder.nest_derive [of ops h "r_attrs r"] by (simp add: solid_named)
  have ne: "list_all nonempty_attr (r_attrs r)"
    using assms by (simp add: wf_record_def)
  have "r_attrs (DedupHandler_Handle ?h' r) =
    materialize (dh_reserved h) (node_inserts False ?as (pins (dh_pinned h)))"
  proof (cases "dh_ops ?h' = []")
    case True
    with nest have "?as = r_attrs r" by simp
    with True show ?thesis
      using assms handle_inserted [of ?h' r] by simp
  next
    case False
    then show ?thesis
      using assms solid ne fill_nest [of "dh_ops ?h'" "r_attrs r" "pins (dh_pinned h)"]
      by (simp add: handle_attrs dedup_root_def insert_pins scalar_pins_pins nest)
  qed
  moreover have "zero_attr \<notin> set ?as"
    using assms by (simp add: zero_attr_nest solid_named)
  ultimately show ?thesis
    using assms handle_inserted [of h "r\<lparr>r_attrs := ?as\<rparr>"] by simp
qed

theorem dedup_with_equals_inline_witness:
  "r_attrs (DedupHandler_Handle
      (derive DedupHandler_WithAttrs DedupHandler_WithGroup
         (NewDedupHandler () [String ''env'' ''prod''] [])
         [HeldAttrs [String ''id'' ''1''], HeldGroup ''req'', HeldAttrs [String ''m'' ''GET'']])
      (fresh_record (NewRecord 0 0 ''x'' 0) [String ''m'' ''PUT''])) =
   [String ''env'' ''prod'', String ''id'' ''1'', Attr ''req'' (Group [String ''m'' ''PUT''])]"
proof -
  let ?h = "NewDedupHandler () [String ''env'' ''prod''] []"
  let ?ops = "[HeldAttrs [String ''id'' ''1''], HeldGroup ''req'', HeldAttrs [String ''m'' ''GET'']]"
  let ?r = "fresh_record (NewRecord 0 0 ''x'' 0) [String ''m'' ''PUT'']"
  have "dh_ops ?h = []" "list_all flat_attr (dh_pinned ?h)" "distinct (map Key (dh_pinned ?h))"
    "list_all solid_op ?ops" "wf_record ?r" "r_attrs ?r \<noteq> []" "zero_attr \<notin> set (r_attrs ?r)"
    by (simp_all add: NewDedupHandler_def flat_attr_def String_def zero_attr_def)
  from dedup_with_equals_inline [OF this] show ?thesis
    by (simp add: NewDedupHandler_def String_def close_group_def GroupValue_def handle_attrs
        dedup_root_def newDedupNode_def node_insert.simps Let_def Resolve_id insert_scalar_def
        zero_attr_def with_child_def blocked_def)
qed

text \<open>
  Opening a group loses a \<open>With\<close> attr of the same name when the record adds nothing to
  the group: the scalar is replaced by an empty node, which is then elided, although slog's
  nesting of the same calls shows the scalar.
\<close>

theorem dedup_empty_group_drops_scalar:
  "(let ops = [HeldAttrs [String ''http'' ''GET''], HeldGroup ''http''];
        h = derive DedupHandler_WithAttrs DedupHandler_WithGroup (NewDedupHandler n [] []) ops
    in r_attrs (DedupHandler_Handle h (fresh_record r [])) = [] \<and>
       nest ops [] = [String ''http'' ''GET''])"
  by (simp add: NewDedupHandler_def String_def close_group_def handle_attrs
        dedup_root_def newDedupNode_def node_insert.simps Let_def Resolve_id insert_scalar_def
        zero_attr_def with_child_def)

end
