(* ===== verification/FilterHandler.thy ===== *)
theory FilterHandler
  imports HeldOps
begin

text \<open>
  \<open>handler/filter_handler.go\<close>: dropping or redacting records by rules on their attrs.

  \<open>unicode_fold\<close> is a parameter: the part of \<open>strings.EqualFold\<close> that starts at the first
  byte outside ASCII and consults Unicode's folding tables. The ASCII part is modelled.
  The methods of \<open>next\<close> are parameters too (\<open>wa\<close>, \<open>wg\<close>); the facts that need them to
  behave as slog's contract says are proved in the locale \<open>slog_next\<close>.
\<close>

section \<open>Rules\<close>

definition ascii_case_pair :: "nat \<Rightarrow> nat \<Rightarrow> bool" where
  "ascii_case_pair sr tr \<longleftrightarrow> 65 \<le> sr \<and> sr \<le> 90 \<and> tr = sr + 32"

fun EqualFold :: "(bytes \<Rightarrow> bytes \<Rightarrow> bool) \<Rightarrow> bytes \<Rightarrow> bytes \<Rightarrow> bool" where
  "EqualFold unicode_fold (s # ss) (t # ts) =
     (if 128 \<le> byte s \<or> 128 \<le> byte t then unicode_fold (s # ss) (t # ts)
      else if t = s then EqualFold unicode_fold ss ts
      else if ascii_case_pair (min (byte s) (byte t)) (max (byte s) (byte t))
        then EqualFold unicode_fold ss ts
      else False)"
| "EqualFold unicode_fold ss ts = (ss = [] \<and> ts = [])"

type_synonym mode = "8 word"

definition ModeDrop :: mode where "ModeDrop = 0"
definition ModeRedact :: mode where "ModeRedact = 1"

definition defaultRedactionReplacement :: bytes where
  "defaultRedactionReplacement = ''[REDACTED]''"

record filter_rule =
  fr_key :: bytes
  fr_value :: bytes
  fr_replacement :: bytes

record 'h filter_handler =
  fh_next :: 'h
  fh_rules :: "filter_rule list"
  fh_mode :: mode
  fh_ops :: "held_op list"

definition NewFilterHandlerWithMode :: "'h \<Rightarrow> filter_rule list \<Rightarrow> mode \<Rightarrow> 'h filter_handler" where
  "NewFilterHandlerWithMode next rules mode =
     \<lparr>fh_next = next, fh_rules = rules, fh_mode = mode, fh_ops = []\<rparr>"

definition NewFilterHandler :: "'h \<Rightarrow> filter_rule list \<Rightarrow> 'h filter_handler" where
  "NewFilterHandler next rules = NewFilterHandlerWithMode next rules ModeDrop"

definition NewRedactingFilterHandler :: "'h \<Rightarrow> filter_rule list \<Rightarrow> 'h filter_handler" where
  "NewRedactingFilterHandler next rules = NewFilterHandlerWithMode next rules ModeRedact"

section \<open>Matching\<close>

definition full_path :: "bytes list \<Rightarrow> bytes \<Rightarrow> bytes" where
  "full_path path k = (if path \<noteq> [] then join ''.'' path @ ''.'' @ k else k)"

fun match_rules ::
  "(bytes \<Rightarrow> bytes \<Rightarrow> bool) \<Rightarrow> filter_rule list \<Rightarrow> bytes \<Rightarrow> attr \<Rightarrow> filter_rule option" where
  "match_rules uf [] full a = None"
| "match_rules uf (rule # rules) full a =
     (if \<not> EqualFold uf (Key a) (fr_key rule) \<and> \<not> EqualFold uf full (fr_key rule)
      then match_rules uf rules full a
      else if fr_value rule = [] \<or> value_string (Val a) = fr_value rule then Some rule
      else match_rules uf rules full a)"

definition matchRule ::
  "(bytes \<Rightarrow> bytes \<Rightarrow> bool) \<Rightarrow> filter_rule list \<Rightarrow> bytes list \<Rightarrow> attr \<Rightarrow> filter_rule option" where
  "matchRule uf rules path a = match_rules uf rules (full_path path (Key a)) a"

definition replacement_of :: "filter_rule \<Rightarrow> bytes" where
  "replacement_of rule =
     (if fr_replacement rule = [] then defaultRedactionReplacement else fr_replacement rule)"

text \<open>
  \<open>filterAttrs\<close> with its loop \<open>filter_walk\<close>, whose result \<open>None\<close> is the early return of
  \<open>ModeDrop\<close>. The slice \<open>out\<close> is allocated lazily in the code; an attr no rule touched is the
  same in \<open>out\<close> and in \<open>attrs\<close>, so the model builds it all along.
\<close>

fun filterAttrs ::
    "(bytes \<Rightarrow> bytes \<Rightarrow> bool) \<Rightarrow> filter_rule list \<Rightarrow> mode \<Rightarrow> bytes list \<Rightarrow> attr list \<Rightarrow> attr list \<times> bool"
  and filter_walk ::
    "(bytes \<Rightarrow> bytes \<Rightarrow> bool) \<Rightarrow> filter_rule list \<Rightarrow> mode \<Rightarrow> bytes list \<Rightarrow> attr list
       \<Rightarrow> (attr list \<times> bool) option"
  and filter_attr ::
    "(bytes \<Rightarrow> bytes \<Rightarrow> bool) \<Rightarrow> filter_rule list \<Rightarrow> mode \<Rightarrow> bytes list \<Rightarrow> attr \<Rightarrow> (attr \<times> bool) option"
  where
  "filterAttrs uf rules mode path attrs =
     (case filter_walk uf rules mode path attrs of
        None \<Rightarrow> (attrs, True)
      | Some (out, hit) \<Rightarrow> (out, hit))"
| "filter_walk uf rules mode path [] = Some ([], False)"
| "filter_walk uf rules mode path (a # as) =
     (case filter_attr uf rules mode path a of
        None \<Rightarrow> None
      | Some (a', hit) \<Rightarrow>
          (case filter_walk uf rules mode path as of
             None \<Rightarrow> None
           | Some (out, hits) \<Rightarrow> Some (a' # out, hit \<or> hits)))"
| "filter_attr uf rules mode path (Attr k (Group ms)) =
     (let (subAttrs, subHit) = filterAttrs uf rules mode (path @ [k]) ms in
      if \<not> subHit then Some (Attr k (Group ms), False)
      else if mode = ModeRedact then Some (Attr k (GroupValue subAttrs), True)
      else Some (Attr k (Group ms), True))"
| "filter_attr uf rules mode path a =
     (case matchRule uf rules path a of
        None \<Rightarrow> Some (a, False)
      | Some rule \<Rightarrow>
          if mode = ModeDrop then None
          else Some (String (Key a) (replacement_of rule), True))"

section \<open>The handler\<close>

text \<open>
  The loop of \<open>Handle\<close> over the held calls: it checks (and rewrites) the attrs of each
  \<open>WithAttrs\<close> under the groups opened so far and replays both kinds of calls onto
  \<open>next\<close>; \<open>None\<close> is the early \<open>return nil\<close> of \<open>ModeDrop\<close>.
\<close>

fun replay_ops ::
  "('h \<Rightarrow> attr list \<Rightarrow> 'h) \<Rightarrow> ('h \<Rightarrow> bytes \<Rightarrow> 'h) \<Rightarrow> (bytes \<Rightarrow> bytes \<Rightarrow> bool) \<Rightarrow>
   filter_rule list \<Rightarrow> mode \<Rightarrow> 'h \<Rightarrow> bytes list \<Rightarrow> held_op list \<Rightarrow> ('h \<times> bytes list) option" where
  "replay_ops wa wg uf rules mode next path [] = Some (next, path)"
| "replay_ops wa wg uf rules mode next path (HeldGroup g # ops) =
     replay_ops wa wg uf rules mode (wg next g) (path @ [g]) ops"
| "replay_ops wa wg uf rules mode next path (HeldAttrs as # ops) =
     (let (attrs, hit) = filterAttrs uf rules mode path as in
      if hit \<and> mode = ModeDrop then None
      else replay_ops wa wg uf rules mode (wa next attrs) path ops)"

text \<open>
  \<open>Handle\<close> returns nil without delivering (\<open>None\<close>) or ends in \<open>next'.Handle(ctx, r')\<close>
  (\<open>Some (next', r')\<close>).
\<close>

definition FilterHandler_Handle ::
  "('h \<Rightarrow> attr list \<Rightarrow> 'h) \<Rightarrow> ('h \<Rightarrow> bytes \<Rightarrow> 'h) \<Rightarrow> (bytes \<Rightarrow> bytes \<Rightarrow> bool) \<Rightarrow>
   'h filter_handler \<Rightarrow> slog_record \<Rightarrow> ('h \<times> slog_record) option" where
  "FilterHandler_Handle wa wg uf h r =
     (if fh_rules h = [] then Some (fh_next h, r)
      else
        (case replay_ops wa wg uf (fh_rules h) (fh_mode h) (fh_next h) [] (fh_ops h) of
           None \<Rightarrow> None
         | Some (next, path) \<Rightarrow>
             (let (newAttrs, hit) = filterAttrs uf (fh_rules h) (fh_mode h) path (recordAttrs r) in
              if hit then
                (if fh_mode h = ModeDrop then None
                 else Some (next, fresh_record r newAttrs))
              else Some (next, r))))"

definition FilterHandler_WithAttrs ::
  "('h \<Rightarrow> attr list \<Rightarrow> 'h) \<Rightarrow> 'h filter_handler \<Rightarrow> attr list \<Rightarrow> 'h filter_handler" where
  "FilterHandler_WithAttrs wa h attrs =
     (if fh_rules h = []
      then \<lparr>fh_next = wa (fh_next h) attrs, fh_rules = fh_rules h, fh_mode = fh_mode h, fh_ops = []\<rparr>
      else h\<lparr>fh_ops := fh_ops h @ [HeldAttrs attrs]\<rparr>)"

definition FilterHandler_WithGroup ::
  "('h \<Rightarrow> bytes \<Rightarrow> 'h) \<Rightarrow> 'h filter_handler \<Rightarrow> bytes \<Rightarrow> 'h filter_handler" where
  "FilterHandler_WithGroup wg h name =
     (if fh_rules h = []
      then \<lparr>fh_next = wg (fh_next h) name, fh_rules = fh_rules h, fh_mode = fh_mode h, fh_ops = []\<rparr>
      else h\<lparr>fh_ops := fh_ops h @ [HeldGroup name]\<rparr>)"

section \<open>What a rule set means\<close>

text \<open>
  The specification: an attr is hit when a rule matches one of its leaves, and redaction
  replaces exactly the matching leaves.
\<close>

fun hit_attr :: "(bytes \<Rightarrow> bytes \<Rightarrow> bool) \<Rightarrow> filter_rule list \<Rightarrow> bytes list \<Rightarrow> attr \<Rightarrow> bool" where
  "hit_attr uf rules path (Attr k (Group ms)) = list_ex (hit_attr uf rules (path @ [k])) ms"
| "hit_attr uf rules path a = (matchRule uf rules path a \<noteq> None)"

fun redact_attr :: "(bytes \<Rightarrow> bytes \<Rightarrow> bool) \<Rightarrow> filter_rule list \<Rightarrow> bytes list \<Rightarrow> attr \<Rightarrow> attr" where
  "redact_attr uf rules path (Attr k (Group ms)) =
     (if list_ex (hit_attr uf rules (path @ [k])) ms
      then Attr k (GroupValue (map (redact_attr uf rules (path @ [k])) ms))
      else Attr k (Group ms))"
| "redact_attr uf rules path a =
     (case matchRule uf rules path a of
        None \<Rightarrow> a
      | Some rule \<Rightarrow> String (Key a) (replacement_of rule))"

lemma hit_leaf: "\<not> is_group (Val a) \<Longrightarrow> hit_attr uf rules path a \<longleftrightarrow> matchRule uf rules path a \<noteq> None"
  by (cases a; cases "Val a") auto

lemma redact_leaf:
  "\<not> is_group (Val a) \<Longrightarrow> redact_attr uf rules path a =
     (case matchRule uf rules path a of None \<Rightarrow> a | Some rule \<Rightarrow> String (Key a) (replacement_of rule))"
  by (cases a; cases "Val a") auto

lemma filter_leaf:
  "\<not> is_group (Val a) \<Longrightarrow> filter_attr uf rules mode path a =
     (case matchRule uf rules path a of None \<Rightarrow> Some (a, False)
      | Some rule \<Rightarrow> if mode = ModeDrop then None
          else Some (String (Key a) (replacement_of rule), True))"
  by (cases a; cases "Val a") auto

lemma modes_differ [simp]: "ModeRedact \<noteq> ModeDrop" "ModeDrop \<noteq> ModeRedact"
  by (simp_all add: ModeDrop_def ModeRedact_def)

lemma redact_unhit: "\<not> hit_attr uf rules path a \<Longrightarrow> redact_attr uf rules path a = a"
  by (cases "is_group (Val a)"; cases a; cases "Val a")
     (auto split: option.splits)

lemma map_redact_unhit:
  "\<not> list_ex (hit_attr uf rules path) as \<Longrightarrow> map (redact_attr uf rules path) as = as"
  by (auto simp: list_ex_iff redact_unhit intro: map_idI)

lemma filter_redact:
  "mode = ModeRedact \<Longrightarrow> filterAttrs uf rules mode path as =
     (map (redact_attr uf rules path) as, list_ex (hit_attr uf rules path) as)"
  "mode = ModeRedact \<Longrightarrow> filter_walk uf rules mode path as =
     Some (map (redact_attr uf rules path) as, list_ex (hit_attr uf rules path) as)"
  "mode = ModeRedact \<Longrightarrow> filter_attr uf rules mode path a =
     Some (redact_attr uf rules path a, hit_attr uf rules path a)"
  by (induction uf rules mode path as and uf rules mode path as and uf rules mode path a
        rule: filterAttrs_filter_walk_filter_attr.induct)
     (auto split: option.splits)

lemma filter_drop:
  "mode = ModeDrop \<Longrightarrow> filterAttrs uf rules mode path as = (as, list_ex (hit_attr uf rules path) as)"
  "mode = ModeDrop \<Longrightarrow> (case filter_walk uf rules mode path as of
     None \<Rightarrow> list_ex (hit_attr uf rules path) as
   | Some (out, hit) \<Rightarrow> out = as \<and> hit = list_ex (hit_attr uf rules path) as)"
  "mode = ModeDrop \<Longrightarrow> (case filter_attr uf rules mode path a of
     None \<Rightarrow> hit_attr uf rules path a
   | Some (a', hit) \<Rightarrow> a' = a \<and> hit = hit_attr uf rules path a)"
proof (induction uf rules mode path as and uf rules mode path as and uf rules mode path a
        rule: filterAttrs_filter_walk_filter_attr.induct)
  case (3 uf rules mode path a as)
  show ?case
  proof (cases "filter_attr uf rules mode path a")
    case None
    with "3.IH"(1) [OF "3.prems"] show ?thesis by simp
  next
    case (Some p)
    obtain a' hit where p: "p = (a', hit)" by (cases p)
    from "3.IH"(1) [OF "3.prems"] "3.IH"(2) [OF Some p [symmetric] "3.prems"] Some p show ?thesis
      by (auto split: option.splits)
  qed
qed (auto split: option.splits)

declare filterAttrs.simps [simp del]

section \<open>Paths and leaves\<close>

fun attr_leaves :: "bytes list \<Rightarrow> attr \<Rightarrow> (bytes list \<times> attr) list" where
  "attr_leaves path (Attr k (Group ms)) = concat (map (attr_leaves (path @ [k])) ms)"
| "attr_leaves path a = [(path, a)]"

definition leaves :: "bytes list \<Rightarrow> attr list \<Rightarrow> (bytes list \<times> attr) list" where
  "leaves path as = concat (map (attr_leaves path) as)"

lemma leaf_leaves: "\<not> is_group (Val a) \<Longrightarrow> attr_leaves path a = [(path, a)]"
  by (cases a; cases "Val a") auto

lemma leaves_simps [simp]:
  "leaves path [] = []"
  "leaves path (a # as) = attr_leaves path a @ leaves path as"
  "leaves path (as @ bs) = leaves path as @ leaves path bs"
  by (simp_all add: leaves_def)

lemma attr_leaves_group: "attr_leaves path (Attr k (Group ms)) = leaves (path @ [k]) ms"
  by (simp add: leaves_def)

lemma leaves_nonempty_filter [simp]: "leaves path (filter nonempty_attr as) = leaves path as"
proof (induction as)
  case (Cons a as)
  have "is_empty_group (Val a) \<Longrightarrow> attr_leaves path a = []"
    by (cases a; cases "Val a") (auto elim: is_empty_group.elims)
  with Cons show ?case by auto
qed simp

text \<open>The effect of redaction on one leaf.\<close>

definition redact_at :: "(bytes \<Rightarrow> bytes \<Rightarrow> bool) \<Rightarrow> filter_rule list \<Rightarrow> bytes list \<times> attr \<Rightarrow> bytes list \<times> attr"
  where
  "redact_at uf rules pa =
     (case matchRule uf rules (fst pa) (snd pa) of
        None \<Rightarrow> pa
      | Some rule \<Rightarrow> (fst pa, String (Key (snd pa)) (replacement_of rule)))"

lemma hit_leaves:
  "hit_attr uf rules path a \<longleftrightarrow>
     list_ex (\<lambda>pa. matchRule uf rules (fst pa) (snd pa) \<noteq> None) (attr_leaves path a)"
  by (induction uf rules path a rule: hit_attr.induct) (auto simp: list_ex_iff)

lemma leaves_redact_attr:
  "attr_leaves path (redact_attr uf rules path a) = map (redact_at uf rules) (attr_leaves path a)"
proof (induction uf rules path a rule: hit_attr.induct)
  case (1 uf rules path k ms)
  let ?p = "path @ [k]"
  have IH: "leaves ?p (map (redact_attr uf rules ?p) ms) = map (redact_at uf rules) (leaves ?p ms)"
    using 1 by (induction ms) auto
  show ?case
  proof (cases "list_ex (hit_attr uf rules ?p) ms")
    case True
    then show ?thesis using IH by (simp add: attr_leaves_group GroupValue_def del: attr_leaves.simps)
  next
    case False
    then have "map (redact_attr uf rules ?p) ms = ms" by (rule map_redact_unhit)
    with IH False show ?thesis
      by (simp add: attr_leaves_group del: attr_leaves.simps)
  qed
qed (auto simp: redact_at_def String_def split: option.splits)

lemma leaves_redact:
  "leaves path (map (redact_attr uf rules path) as) = map (redact_at uf rules) (leaves path as)"
  by (induction as) (auto simp: leaves_redact_attr)

section \<open>Redaction and nesting commute\<close>

lemma redact_keeps_emptiness:
  "is_empty_group (Val (redact_attr uf rules path a)) = is_empty_group (Val a)"
proof (induction uf rules path a rule: redact_attr.induct)
  case (1 uf rules path k ms)
  let ?p = "path @ [k]"
  show ?case
  proof (cases "list_ex (hit_attr uf rules ?p) ms")
    case True
    then obtain m where m: "m \<in> set ms" "hit_attr uf rules ?p m"
      by (auto simp: list_ex_iff)
    have "\<not> is_empty_group (Val m)"
      using m(2) by (cases m; cases "Val m") (auto elim: is_empty_group.elims)
    with 1 True m(1) have "filter nonempty_attr (map (redact_attr uf rules ?p) ms) \<noteq> []"
      by (force simp: filter_empty_conv)
    then show ?thesis
      using True m(1) by (cases ms) (auto simp: GroupValue_def elim: is_empty_group.elims)
  next
    case False
    then show ?thesis by simp
  qed
qed (auto simp: String_def split: option.splits)

lemma redact_filter_nonempty:
  "map (redact_attr uf rules path) (filter nonempty_attr as) =
   filter nonempty_attr (map (redact_attr uf rules path) as)"
  by (induction as) (auto simp: redact_keeps_emptiness)

lemma hit_nonempty: "hit_attr uf rules path a \<Longrightarrow> nonempty_attr a"
  by (cases a; cases "Val a") (auto elim: is_empty_group.elims)

lemma list_ex_hit_filter:
  "list_ex (hit_attr uf rules path) (filter nonempty_attr as) = list_ex (hit_attr uf rules path) as"
  by (auto simp: list_ex_iff dest: hit_nonempty)

lemma redact_close_group:
  "map (redact_attr uf rules path) (close_group g as) =
   close_group g (map (redact_attr uf rules (path @ [g])) as)"
proof (cases "list_ex (hit_attr uf rules (path @ [g])) as")
  case True
  then show ?thesis
    by (simp add: close_group_def GroupValue_def list_ex_hit_filter redact_filter_nonempty)
next
  case False
  then show ?thesis
    using map_redact_unhit [OF False]
    by (simp add: close_group_def GroupValue_def list_ex_hit_filter)
qed

lemma hit_close_group:
  "list_ex (hit_attr uf rules path) (close_group g as) = list_ex (hit_attr uf rules (path @ [g])) as"
  by (auto simp: close_group_def GroupValue_def list_ex_hit_filter)

text \<open>The path under which the record's own attrs are checked, and the redacted held calls.\<close>

fun open_path :: "bytes list \<Rightarrow> held_op list \<Rightarrow> bytes list" where
  "open_path path [] = path"
| "open_path path (HeldAttrs as # ops) = open_path path ops"
| "open_path path (HeldGroup g # ops) = open_path (path @ [g]) ops"

fun redact_ops ::
  "(bytes \<Rightarrow> bytes \<Rightarrow> bool) \<Rightarrow> filter_rule list \<Rightarrow> bytes list \<Rightarrow> held_op list \<Rightarrow> held_op list" where
  "redact_ops uf rules path [] = []"
| "redact_ops uf rules path (HeldAttrs as # ops) =
     HeldAttrs (map (redact_attr uf rules path) as) # redact_ops uf rules path ops"
| "redact_ops uf rules path (HeldGroup g # ops) = HeldGroup g # redact_ops uf rules (path @ [g]) ops"

fun hit_ops ::
  "(bytes \<Rightarrow> bytes \<Rightarrow> bool) \<Rightarrow> filter_rule list \<Rightarrow> bytes list \<Rightarrow> held_op list \<Rightarrow> bool" where
  "hit_ops uf rules path [] = False"
| "hit_ops uf rules path (HeldAttrs as # ops) =
     (list_ex (hit_attr uf rules path) as \<or> hit_ops uf rules path ops)"
| "hit_ops uf rules path (HeldGroup g # ops) = hit_ops uf rules (path @ [g]) ops"

lemma redact_nest:
  "map (redact_attr uf rules path) (nest ops as) =
   nest (redact_ops uf rules path ops) (map (redact_attr uf rules (open_path path ops)) as)"
  by (induction path ops rule: open_path.induct) (auto simp: redact_close_group)

lemma hit_nest:
  "list_ex (hit_attr uf rules path) (nest ops as) \<longleftrightarrow>
   hit_ops uf rules path ops \<or> list_ex (hit_attr uf rules (open_path path ops)) as"
  by (induction path ops rule: open_path.induct) (auto simp: hit_close_group)

lemma replay_redact:
  "replay_ops wa wg uf rules ModeRedact n path ops =
     Some (derive wa wg n (redact_ops uf rules path ops), open_path path ops)"
  by (induction path ops arbitrary: n rule: open_path.induct) (auto simp: filter_redact)

lemma replay_drop:
  "replay_ops wa wg uf rules ModeDrop n path ops =
     (if hit_ops uf rules path ops then None
      else Some (derive wa wg n ops, open_path path ops))"
  by (induction path ops arbitrary: n rule: open_path.induct) (auto simp: filter_drop)

section \<open>The handler over a lawful next handler\<close>

lemma named_groups_redact_ops: "named_groups (redact_ops uf rules path ops) = named_groups ops"
  by (induction path ops rule: open_path.induct) auto

lemma handle_redact:
  assumes "fh_mode h = ModeRedact" and "wf_record r" and "fh_rules h \<noteq> []"
  shows "\<exists>r'. FilterHandler_Handle wa wg uf h r =
      Some (derive wa wg (fh_next h) (redact_ops uf (fh_rules h) [] (fh_ops h)), r') \<and>
      r_attrs r' = map (redact_attr uf (fh_rules h) (open_path [] (fh_ops h))) (r_attrs r) \<and>
      r_time r' = r_time r \<and> r_level r' = r_level r \<and> r_message r' = r_message r \<and> r_pc r' = r_pc r"
proof -
  let ?red = "redact_attr uf (fh_rules h) (open_path [] (fh_ops h))"
  have "filter nonempty_attr (map ?red (r_attrs r)) = map ?red (r_attrs r)"
    using assms(2) by (simp add: filter_id_conv_all wf_record_def list_all_iff redact_keeps_emptiness)
  moreover have "\<not> list_ex (hit_attr uf (fh_rules h) (open_path [] (fh_ops h))) (r_attrs r) \<Longrightarrow>
      map ?red (r_attrs r) = r_attrs r"
    by (rule map_redact_unhit)
  ultimately show ?thesis
    using assms by (auto simp: FilterHandler_Handle_def replay_redact filter_redact)
qed

lemma handle_drop:
  assumes "fh_mode h = ModeDrop" and "fh_rules h \<noteq> []"
  shows "FilterHandler_Handle wa wg uf h r =
    (if list_ex (hit_attr uf (fh_rules h) []) (nest (fh_ops h) (r_attrs r)) then None
     else Some (derive wa wg (fh_next h) (fh_ops h), r))"
  using assms by (simp add: FilterHandler_Handle_def replay_drop filter_drop hit_nest)

context slog_next
begin

lemma filter_redact_line:
  assumes "fh_mode h = ModeRedact" and "wf_record r" and "named_groups (fh_ops h)"
    and "fh_rules h \<noteq> []"
  shows "\<exists>n' r'. FilterHandler_Handle n_with_attrs n_with_group uf h r = Some (n', r') \<and>
     line n' (r_attrs r') =
     line (fh_next h) (map (redact_attr uf (fh_rules h) []) (nest (fh_ops h) (r_attrs r)))"
proof -
  obtain r' where "FilterHandler_Handle n_with_attrs n_with_group uf h r =
      Some (nderive (fh_next h) (redact_ops uf (fh_rules h) [] (fh_ops h)), r')"
    and "r_attrs r' = map (redact_attr uf (fh_rules h) (open_path [] (fh_ops h))) (r_attrs r)"
    using handle_redact [OF assms(1,2,4)] by blast
  then show ?thesis
    using assms by (simp add: line_derive named_groups_redact_ops redact_nest)
qed

lemma filter_drop_line:
  assumes "fh_mode h = ModeDrop" and "named_groups (fh_ops h)" and "fh_rules h \<noteq> []"
    and "FilterHandler_Handle n_with_attrs n_with_group uf h r = Some (n', r')"
  shows "line n' (r_attrs r') = line (fh_next h) (nest (fh_ops h) (r_attrs r))"
  using assms by (auto simp: handle_drop line_derive split: if_splits)

end

section \<open>The line a record becomes\<close>

text \<open>
  The leaves of a line as a handler that follows log/slog's contract shows it, whatever the filter does: values are
  resolved, the members of a group stand under its key, those of a group without a key stand where the group is, and
  the zero attr is left out.
\<close>

function shown_leaves :: "bytes list \<Rightarrow> attr \<Rightarrow> (bytes list \<times> attr) list" where
  "shown_leaves path (Attr k v) =
     (let v' = Resolve v in
      if is_group v'
      then concat (map (shown_leaves (if k = [] then path else path @ [k])) (group_members v'))
      else if Attr k v' = zero_attr then [] else [(path, Attr k v')])"
  by pat_completeness auto
termination
proof (relation "measure (\<lambda>(path, a). size a)")
  fix path k v v' x
  assume v: "v' = Resolve v" "is_group v'" "x \<in> set (group_members v')"
  from v(3) have "size x \<le> size_list size (group_members v')"
    by (induction "group_members v'" arbitrary: v') (auto dest: size_list_estimation')
  with group_members_smaller [of v] v show "((if k = [] then path else path @ [k], x), path, Attr k v) \<in> measure (\<lambda>(path, a). size a)"
    by simp
qed simp

declare shown_leaves.simps [simp del]

definition line_leaves :: "attr list \<Rightarrow> (bytes list \<times> attr) list" where
  "line_leaves as = concat (map (shown_leaves []) as)"

text \<open>What \<open>FilterRule\<close> promises for one leaf, and the first rule that applies.\<close>

definition rule_applies :: "(bytes \<Rightarrow> bytes \<Rightarrow> bool) \<Rightarrow> bytes list \<times> attr \<Rightarrow> filter_rule \<Rightarrow> bool" where
  "rule_applies uf leaf rule \<longleftrightarrow>
     (case leaf of (path, Attr k v) \<Rightarrow>
        (EqualFold uf k (fr_key rule) \<or> EqualFold uf (full_path path k) (fr_key rule)) \<and>
        (fr_value rule = [] \<or> value_string v = fr_value rule))"

definition redacted_leaf ::
  "(bytes \<Rightarrow> bytes \<Rightarrow> bool) \<Rightarrow> filter_rule list \<Rightarrow> bytes list \<times> attr \<Rightarrow> bytes list \<times> attr" where
  "redacted_leaf uf rules leaf =
     (case find (rule_applies uf leaf) rules of
        None \<Rightarrow> leaf
      | Some rule \<Rightarrow> (fst leaf, String (Key (snd leaf)) (replacement_of rule)))"

text \<open>
  The attrs for which the filter, which looks at them before they are resolved, sees the line: every group has a name,
  no attr is zero, and a \<open>LogValuer\<close> does not stand for a group, nor for a value that a rule asks for.
\<close>

fun in_sight :: "bool \<Rightarrow> attr \<Rightarrow> bool" where
  "in_sight by_value (Attr k (Group ms)) \<longleftrightarrow> k \<noteq> [] \<and> list_all (in_sight by_value) ms"
| "in_sight by_value (Attr k (LogValuer t v)) \<longleftrightarrow> \<not> by_value \<and> \<not> is_group (Resolve (LogValuer t v)) \<and>
     Attr k (Resolve (LogValuer t v)) \<noteq> zero_attr"
| "in_sight by_value a \<longleftrightarrow> a \<noteq> zero_attr"

definition rules_by_value :: "filter_rule list \<Rightarrow> bool" where
  "rules_by_value rules \<longleftrightarrow> list_ex (\<lambda>rule. fr_value rule \<noteq> []) rules"

definition resolve_leaf :: "bytes list \<times> attr \<Rightarrow> bytes list \<times> attr" where
  "resolve_leaf leaf = (fst leaf, Attr (Key (snd leaf)) (Resolve (Val (snd leaf))))"

lemma match_rules_find:
  "match_rules uf rules (full_path path (Key a)) a = find (rule_applies uf (path, a)) rules"
  by (induction rules) (cases a; simp add: rule_applies_def)+

lemma find_resolved:
  assumes "in_sight (rules_by_value rules) a" "\<not> is_group (Val a)"
  shows "find (rule_applies uf (path, a)) rules = find (rule_applies uf (resolve_leaf (path, a))) rules"
proof (cases "is_log_valuer (Val a)")
  case True
  then have "fr_value rule = []" if "rule \<in> set rules" for rule
    using assms(1) that by (cases a; cases "Val a") (auto simp: rules_by_value_def list_ex_iff)
  then show ?thesis
    by (intro find_cong) (auto simp: rule_applies_def resolve_leaf_def split: attr.splits)
next
  case False
  then show ?thesis by (simp add: resolve_leaf_def Resolve_id)
qed

lemma shown_leaves_in_sight:
  "in_sight bv a \<Longrightarrow> shown_leaves path a = map resolve_leaf (attr_leaves path a)"
proof (induction bv a arbitrary: path rule: in_sight.induct)
  case (1 bv k ms)
  then have "map (shown_leaves (path @ [k])) ms = map (\<lambda>m. map resolve_leaf (attr_leaves (path @ [k]) m)) ms"
    by (auto simp: list_all_iff)
  from arg_cong [OF this, of concat] show ?case
    using "1.prems" by (simp add: shown_leaves.simps [of path k] Resolve_id map_concat comp_def)
qed (simp_all add: shown_leaves.simps Resolve_id resolve_leaf_def Let_def)

lemma line_leaves_in_sight:
  "list_all (in_sight bv) as \<Longrightarrow> line_leaves as = map resolve_leaf (leaves [] as)"
  unfolding line_leaves_def by (induction as) (auto simp: shown_leaves_in_sight)

lemma leaves_in_sight:
  "in_sight bv a \<Longrightarrow> (p, l) \<in> set (attr_leaves path a) \<Longrightarrow> in_sight bv l \<and> \<not> is_group (Val l)"
  by (induction bv a arbitrary: path rule: in_sight.induct) (auto simp: list_all_iff)

lemma redact_in_sight:
  "in_sight bv a \<Longrightarrow> in_sight bv (redact_attr uf rules path a)"
  by (induction bv a arbitrary: path rule: in_sight.induct)
     (auto simp: list_all_iff GroupValue_def String_def zero_attr_def split: option.splits)


lemma redact_at_resolved:
  assumes "in_sight (rules_by_value rules) a" "\<not> is_group (Val a)"
  shows "resolve_leaf (redact_at uf rules (path, a)) = redacted_leaf uf rules (resolve_leaf (path, a))"
proof -
  have "matchRule uf rules path a = find (rule_applies uf (resolve_leaf (path, a))) rules"
    by (simp add: matchRule_def match_rules_find find_resolved [OF assms])
  then show ?thesis
    by (cases "find (rule_applies uf (resolve_leaf (path, a))) rules")
       (simp_all add: redact_at_def redacted_leaf_def, simp_all add: resolve_leaf_def String_def Resolve_id)
qed

lemma line_leaves_redact:
  assumes "list_all (in_sight (rules_by_value rules)) as"
  shows "line_leaves (map (redact_attr uf rules []) as) = map (redacted_leaf uf rules) (line_leaves as)"
proof -
  have "list_all (in_sight (rules_by_value rules)) (map (redact_attr uf rules []) as)"
    using assms by (auto simp: list_all_iff intro: redact_in_sight)
  then have "line_leaves (map (redact_attr uf rules []) as) = map resolve_leaf (map (redact_at uf rules) (leaves [] as))"
    by (simp add: line_leaves_in_sight leaves_redact)
  also have "\<dots> = map (redacted_leaf uf rules) (map resolve_leaf (leaves [] as))"
    using assms leaves_in_sight redact_at_resolved by (fastforce simp: leaves_def list_all_iff)
  also have "\<dots> = map (redacted_leaf uf rules) (line_leaves as)"
    using assms by (simp add: line_leaves_in_sight)
  finally show ?thesis .
qed

lemma line_leaves_hit:
  assumes "list_all (in_sight (rules_by_value rules)) as"
  shows "list_ex (hit_attr uf rules []) as \<longleftrightarrow>
    list_ex (\<lambda>leaf. list_ex (rule_applies uf leaf) rules) (line_leaves as)"
proof -
  have "list_ex (hit_attr uf rules []) as \<longleftrightarrow>
      list_ex (\<lambda>pa. matchRule uf rules (fst pa) (snd pa) \<noteq> None) (leaves [] as)"
    by (induction as) (auto simp: hit_leaves)
  also have "\<dots> \<longleftrightarrow> list_ex (\<lambda>leaf. list_ex (rule_applies uf leaf) rules) (map resolve_leaf (leaves [] as))"
  proof -
    have "matchRule uf rules (fst pa) (snd pa) \<noteq> None \<longleftrightarrow> list_ex (rule_applies uf (resolve_leaf pa)) rules"
      if "pa \<in> set (leaves [] as)" for pa
    proof -
      obtain p a where pa: "pa = (p, a)" by (cases pa)
      have "in_sight (rules_by_value rules) a \<and> \<not> is_group (Val a)"
        using that assms leaves_in_sight by (fastforce simp: pa leaves_def list_all_iff)
      then show ?thesis
        by (auto simp: pa matchRule_def match_rules_find find_resolved list_ex_iff find_None_iff)
    qed
    then show ?thesis by (auto simp: list_ex_iff)
  qed
  finally show ?thesis using assms by (simp add: line_leaves_in_sight)
qed

text \<open>
  C8. In drop mode, with at least one rule, a record is discarded exactly when a rule applies to some leaf of the line it
  would become (\<open>line_leaves\<close>: groups flattened, lazy values resolved), by the leaf's key or its full dotted path through
  the opened groups, held attrs included; otherwise \<open>next\<close> receives the held calls and the record unchanged. The attrs must
  be in sight (\<open>in_sight\<close>): no unnamed group, no zero attr, and no \<open>LogValuer\<close> that resolves to a group or to nothing, or
  that meets a rule on values. The lemmas \<open>filter_misses_log_valuer\<close> and \<open>filter_misses_unnamed_group\<close> show that the others
  do escape the rules.
\<close>

theorem filter_drop_iff_hit:
  assumes "fh_mode h = ModeDrop" "fh_rules h \<noteq> []"
    and "list_all (in_sight (rules_by_value (fh_rules h))) (nest (fh_ops h) (r_attrs r))"
  shows "FilterHandler_Handle wa wg uf h r =
    (if list_ex (\<lambda>leaf. list_ex (rule_applies uf leaf) (fh_rules h)) (line_leaves (nest (fh_ops h) (r_attrs r)))
     then None else Some (derive wa wg (fh_next h) (fh_ops h), r))"
  using handle_drop [OF assms(1,2)] line_leaves_hit [OF assms(3)] by simp

theorem filter_drop_iff_hit_witness:
  "FilterHandler_Handle TestHandler_WithAttrs TestHandler_WithGroup (=)
     (FilterHandler_WithGroup TestHandler_WithGroup
        (NewFilterHandler NewTestHandler
           [\<lparr>fr_key = ''cred.Password'', fr_value = [], fr_replacement = []\<rparr>]) ''cred'')
     (fresh_record (NewRecord 0 0 ''m'' 0) [Attr ''password'' (LogValuer ''t'' (Some (StringValue ''x'')))]) = None"
proof -
  let ?h = "FilterHandler_WithGroup TestHandler_WithGroup
        (NewFilterHandler NewTestHandler
           [\<lparr>fr_key = ''cred.Password'', fr_value = [], fr_replacement = []\<rparr>]) ''cred''"
  let ?r = "fresh_record (NewRecord 0 0 ''m'' 0) [Attr ''password'' (LogValuer ''t'' (Some (StringValue ''x'')))]"
  have h: "fh_mode ?h = ModeDrop" "fh_rules ?h \<noteq> []"
    by (simp_all add: FilterHandler_WithGroup_def NewFilterHandler_def NewFilterHandlerWithMode_def)
  have line: "nest (fh_ops ?h) (r_attrs ?r) =
      [Attr ''cred'' (Group [Attr ''password'' (LogValuer ''t'' (Some (StringValue ''x'')))])]"
    by (simp add: FilterHandler_WithGroup_def NewFilterHandler_def NewFilterHandlerWithMode_def
        close_group_def GroupValue_def)
  have res: "Resolve (LogValuer ''t'' (Some (StringValue ''x''))) = StringValue ''x''"
    by (simp add: Resolve_def maxLogValues_def eval_nat_numeral)
  have "list_all (in_sight (rules_by_value (fh_rules ?h))) (nest (fh_ops ?h) (r_attrs ?r))"
    unfolding line
    by (simp add: res zero_attr_def rules_by_value_def FilterHandler_WithGroup_def NewFilterHandler_def
        NewFilterHandlerWithMode_def)
  from filter_drop_iff_hit [OF h this] show ?thesis
    unfolding line
    by (simp add: FilterHandler_WithGroup_def NewFilterHandler_def NewFilterHandlerWithMode_def line_leaves_def
        shown_leaves.simps res Resolve_id zero_attr_def rule_applies_def full_path_def join_def byte_def ascii_case_pair_def)
qed

text \<open>
  C10. In redact mode, with at least one rule, no record is lost, and over a next handler that follows slog's contract
  the line is, leaf for leaf and in the same order, the line of the record with its held calls in which the first rule that
  applies to a leaf has replaced its value. The record holds no empty group, as slog builds it, the open groups have names,
  and, as for dropping, the attrs must be in sight.
\<close>

theorem filter_redacts_every_match:
  assumes "slog_next wa wg line" "fh_mode h = ModeRedact" "wf_record r" "named_groups (fh_ops h)" "fh_rules h \<noteq> []"
    and "list_all (in_sight (rules_by_value (fh_rules h))) (nest (fh_ops h) (r_attrs r))"
  shows "\<exists>n' r' as. FilterHandler_Handle wa wg uf h r = Some (n', r') \<and>
     line n' (r_attrs r') = line (fh_next h) as \<and>
     line_leaves as = map (redacted_leaf uf (fh_rules h)) (line_leaves (nest (fh_ops h) (r_attrs r)))"
  using slog_next.filter_redact_line [OF assms(1-5)] line_leaves_redact [OF assms(6)] by blast

theorem filter_redacts_every_match_witness:
  "\<exists>n' r' as. FilterHandler_Handle TestHandler_WithAttrs TestHandler_WithGroup (=)
     (NewRedactingFilterHandler NewTestHandler
        [\<lparr>fr_key = ''PASSWORD'', fr_value = [], fr_replacement = []\<rparr>])
     (fresh_record (NewRecord 0 0 ''m'' 0)
        [Attr ''cred'' (Group [String ''password'' ''x'', String ''user'' ''u''])]) = Some (n', r') \<and>
   TestHandler_line n' (r_attrs r') = TestHandler_line NewTestHandler as \<and>
   line_leaves as = [([''cred''], String ''password'' ''[REDACTED]''), ([''cred''], String ''user'' ''u'')]"
proof -
  let ?h = "NewRedactingFilterHandler NewTestHandler
        [\<lparr>fr_key = ''PASSWORD'', fr_value = [], fr_replacement = []\<rparr>]"
  let ?r = "fresh_record (NewRecord 0 0 ''m'' 0)
        [Attr ''cred'' (Group [String ''password'' ''x'', String ''user'' ''u''])]"
  have "fh_mode ?h = ModeRedact" "wf_record ?r" "named_groups (fh_ops ?h)" "fh_rules ?h \<noteq> []"
    "list_all (in_sight (rules_by_value (fh_rules ?h))) (nest (fh_ops ?h) (r_attrs ?r))"
    by (simp_all add: NewRedactingFilterHandler_def NewFilterHandlerWithMode_def String_def zero_attr_def)
  from filter_redacts_every_match [OF test_next.slog_next_axioms this, of "(=)"] show ?thesis
    by (simp add: NewRedactingFilterHandler_def NewFilterHandlerWithMode_def String_def line_leaves_def
        shown_leaves.simps Resolve_id zero_attr_def redacted_leaf_def rule_applies_def full_path_def join_def byte_def
        ascii_case_pair_def replacement_of_def defaultRedactionReplacement_def)
qed

text \<open>
  What is out of sight: the filter looks at an attr's kind and text before \<open>Resolve\<close>, and takes the empty key of an
  unnamed group for a part of the path. Both records pass a drop rule whose leaf their line shows.
\<close>

lemma filter_misses_log_valuer:
  "let user = Attr ''user'' (LogValuer ''t'' (Some (Group [String ''password'' ''x''])))
   in line_leaves [user] = [([''user''], String ''password'' ''x'')] \<and>
      FilterHandler_Handle TestHandler_WithAttrs TestHandler_WithGroup (=)
        (NewFilterHandler NewTestHandler [\<lparr>fr_key = ''password'', fr_value = [], fr_replacement = []\<rparr>])
        (fresh_record (NewRecord 0 0 ''m'' 0) [user]) =
      Some (NewTestHandler, fresh_record (NewRecord 0 0 ''m'' 0) [user])"
proof -
  have res: "Resolve (LogValuer ''t'' (Some (Group [String ''password'' ''x'']))) = Group [String ''password'' ''x'']"
    by (simp add: Resolve_def maxLogValues_def eval_nat_numeral)
  then show ?thesis
    by (simp add: line_leaves_def shown_leaves.simps Resolve_id String_def zero_attr_def NewFilterHandler_def
        NewFilterHandlerWithMode_def FilterHandler_Handle_def filterAttrs.simps matchRule_def full_path_def byte_def
        ascii_case_pair_def Let_def)
qed

lemma filter_misses_unnamed_group:
  "let cred = Attr ''cred'' (Group [Attr [] (Group [String ''password'' ''x''])])
   in line_leaves [cred] = [([''cred''], String ''password'' ''x'')] \<and>
      FilterHandler_Handle TestHandler_WithAttrs TestHandler_WithGroup (=)
        (NewFilterHandler NewTestHandler [\<lparr>fr_key = ''cred.password'', fr_value = [], fr_replacement = []\<rparr>])
        (fresh_record (NewRecord 0 0 ''m'' 0) [cred]) =
      Some (NewTestHandler, fresh_record (NewRecord 0 0 ''m'' 0) [cred])"
  by (simp add: line_leaves_def shown_leaves.simps Resolve_id String_def zero_attr_def NewFilterHandler_def
      NewFilterHandlerWithMode_def FilterHandler_Handle_def filterAttrs.simps matchRule_def full_path_def join_def byte_def
      ascii_case_pair_def Let_def)

text \<open>
  Redaction keeps the record's time, level, message and PC and the keys of its attrs in
  their order, and hands \<open>next\<close> exactly the held calls, in order, with their attrs rewritten.
\<close>

theorem filter_redact_preserves_metadata:
  assumes "fh_mode h = ModeRedact" and "wf_record r" and "fh_rules h \<noteq> []"
  shows "\<exists>r'. FilterHandler_Handle wa wg uf h r =
      Some (derive wa wg (fh_next h) (redact_ops uf (fh_rules h) [] (fh_ops h)), r') \<and>
      length (r_attrs r') = length (r_attrs r) \<and> map Key (r_attrs r') = map Key (r_attrs r) \<and>
      r_time r' = r_time r \<and> r_level r' = r_level r \<and> r_message r' = r_message r \<and> r_pc r' = r_pc r"
proof -
  have "Key (redact_attr uf rules path a) = Key a" for rules path a
    by (cases a; cases "Val a") (auto simp: String_def split: option.splits)
  then show ?thesis
    using handle_redact [OF assms(1-3), of wa wg uf] by (force simp: comp_def)
qed

theorem filter_redact_preserves_metadata_witness:
  "\<exists>r'. FilterHandler_Handle TestHandler_WithAttrs TestHandler_WithGroup (=)
      (FilterHandler_WithAttrs TestHandler_WithAttrs
        (NewRedactingFilterHandler NewTestHandler
          [\<lparr>fr_key = ''token'', fr_value = ''t'', fr_replacement = ''-''\<rparr>])
        [String ''Token'' ''t'', String ''token'' ''T''])
      (fresh_record (NewRecord 7 8 ''m'' 9) [String ''token'' ''t'']) =
      Some (TestHandler_WithAttrs NewTestHandler [String ''Token'' ''-'', String ''token'' ''T''], r') \<and>
      length (r_attrs r') = 1 \<and> map Key (r_attrs r') = [''token''] \<and>
      r_time r' = 7 \<and> r_level r' = 8 \<and> r_message r' = ''m'' \<and> r_pc r' = 9"
proof -
  let ?h = "FilterHandler_WithAttrs TestHandler_WithAttrs
        (NewRedactingFilterHandler NewTestHandler
          [\<lparr>fr_key = ''token'', fr_value = ''t'', fr_replacement = ''-''\<rparr>])
        [String ''Token'' ''t'', String ''token'' ''T'']"
  let ?r = "fresh_record (NewRecord 7 8 ''m'' 9) [String ''token'' ''t'']"
  have "fh_mode ?h = ModeRedact" "wf_record ?r" "fh_rules ?h \<noteq> []"
    by (simp_all add: FilterHandler_WithAttrs_def NewRedactingFilterHandler_def
        NewFilterHandlerWithMode_def)
  from filter_redact_preserves_metadata [OF this, of TestHandler_WithAttrs TestHandler_WithGroup "(=)"]
  show ?thesis
    by (simp add: FilterHandler_WithAttrs_def NewRedactingFilterHandler_def
        NewFilterHandlerWithMode_def String_def matchRule_def full_path_def join_def byte_def
        ascii_case_pair_def replacement_of_def NewRecord_def)
qed

definition filter_line ::
  "(bytes \<Rightarrow> bytes \<Rightarrow> bool) \<Rightarrow> ('h \<Rightarrow> attr list \<Rightarrow> attr list) \<Rightarrow> 'h filter_handler \<Rightarrow> attr list \<Rightarrow> attr list" where
  "filter_line uf line h as =
     (if fh_rules h = [] then line (fh_next h) as
      else line (fh_next h) (map (redact_attr uf (fh_rules h) []) (nest (fh_ops h) as)))"

lemma filter_is_next:
  assumes "slog_next wa wg line"
  shows "slog_next (FilterHandler_WithAttrs wa) (FilterHandler_WithGroup wg) (filter_line uf line)"
proof -
  note laws = slog_next.line_with_attrs [OF assms] slog_next.line_with_group [OF assms]
  show ?thesis
    by unfold_locales
       (auto simp: filter_line_def FilterHandler_WithAttrs_def FilterHandler_WithGroup_def laws)
qed

interpretation filter_next: slog_next "FilterHandler_WithAttrs TestHandler_WithAttrs"
  "FilterHandler_WithGroup TestHandler_WithGroup" "filter_line uf TestHandler_line"
  by (rule filter_is_next [OF test_next.slog_next_axioms])

text \<open>
  A redacting handler over a next handler that follows slog's contract follows it too:
  a handler derived with \<open>With\<close> or a named group shows what the underived one shows for the
  nested record. Chains of decorators therefore keep the contract.
\<close>

theorem filter_keeps_contract:
  assumes "slog_next wa wg line"
  shows "slog_next (FilterHandler_WithAttrs wa) (FilterHandler_WithGroup wg) (filter_line uf line)"
  using assms by (rule filter_is_next)

theorem filter_keeps_contract_witness:
  "filter_line (=) TestHandler_line
     (FilterHandler_WithGroup TestHandler_WithGroup
        (NewRedactingFilterHandler NewTestHandler
           [\<lparr>fr_key = ''pw'', fr_value = [], fr_replacement = []\<rparr>]) ''g'') [String ''pw'' ''x''] =
   [Attr ''g'' (Group [String ''pw'' ''[REDACTED]''])]"
proof -
  have "''g'' \<noteq> []" by simp
  from slog_next.line_with_group [OF filter_keeps_contract [OF test_next.slog_next_axioms] this]
  show ?thesis
    by (simp add: filter_line_def NewRedactingFilterHandler_def NewFilterHandlerWithMode_def
        String_def close_group_def GroupValue_def matchRule_def full_path_def join_def byte_def
        ascii_case_pair_def replacement_of_def defaultRedactionReplacement_def
        TestHandler_line_def NewTestHandler_def)
qed

text \<open>
  The mode is not validated. With a mode other than the two constants a matching attr
  nested in a group is left in the record, although one at the top level is replaced.
\<close>

theorem filter_unknown_mode_leaks_nested:
  "FilterHandler_Handle wa wg uf
     (NewFilterHandlerWithMode n [\<lparr>fr_key = ''pw'', fr_value = [], fr_replacement = []\<rparr>] 2)
     (fresh_record r [Attr ''g'' (Group [String ''pw'' ''x'']), String ''pw'' ''y'']) =
   Some (n, fresh_record r [Attr ''g'' (Group [String ''pw'' ''x'']), String ''pw'' ''[REDACTED]''])"
  by (simp add: FilterHandler_Handle_def NewFilterHandlerWithMode_def filterAttrs.simps String_def
      matchRule_def full_path_def join_def byte_def ascii_case_pair_def replacement_of_def
      defaultRedactionReplacement_def ModeDrop_def ModeRedact_def fresh_record_def NewRecord_def
      AddAttrs_def)

end
