(* ===== verification/GlobalFieldsHandler.thy ===== *)
theory GlobalFieldsHandler
  imports HeldOps
begin

text \<open>
  \<open>handler/global_fields_handler.go\<close>: the decorator that attaches a fixed set of fields to
  every record, in sorted key order, replacing the record's attrs of the same key
  (\<open>override\<close>) or yielding to them.

  The handler only forwards to \<open>next\<close>, so \<open>Handle\<close> is modelled by the record it passes on.
  The Go map of fields is the list of its entries in the order the \<open>range\<close> loop of one run
  visits them; \<open>globals_order_irrelevant\<close> shows the order does not matter.
\<close>

section \<open>The handler\<close>

record 'h global_fields_handler =
  gh_next :: 'h
  gh_fields :: "attr list"
  gh_override :: bool
  gh_ops :: "held_op list"

definition NewGlobalFieldsHandler ::
  "'h \<Rightarrow> (bytes \<times> bytes) list \<Rightarrow> bool \<Rightarrow> 'h global_fields_handler" where
  "NewGlobalFieldsHandler n fs override =
     (let attrs = fold (\<lambda>(k, v) attrs. attrs @ [String k v]) fs [];
          attrs = filterValidAttrs attrs
      in \<lparr>gh_next = n, gh_fields = sort_key Key attrs, gh_override = override, gh_ops = []\<rparr>)"

text \<open>\<open>slices.BinarySearchFunc\<close>: the first index whose key is not below the target.\<close>

function bsearch :: "attr list \<Rightarrow> bytes \<Rightarrow> nat \<Rightarrow> nat \<Rightarrow> nat" where
  "bsearch fs k i j =
     (if i < j
      then (let m = (i + j) div 2
            in if Key (fs ! m) < k then bsearch fs k (m + 1) j else bsearch fs k i m)
      else i)"
  by pat_completeness auto
termination
  by (relation "measure (\<lambda>(fs, k, i, j). j - i)") auto

declare bsearch.simps [simp del]

definition lookup :: "'h global_fields_handler \<Rightarrow> bytes \<Rightarrow> nat \<times> bool" where
  "lookup h key =
     (let fs = gh_fields h; i = bsearch fs key 0 (length fs)
      in (i, i < length fs \<and> Key (fs ! i) = key))"

fun merge_attrs :: "'h global_fields_handler \<Rightarrow> attr list \<Rightarrow> attr list \<Rightarrow> attr list" where
  "merge_attrs h [] out = out"
| "merge_attrs h (a # as) out =
     (let (i, isGlobal) = lookup h (Key a)
      in if \<not> isGlobal \<or> \<not> gh_override h then merge_attrs h as (out @ [a])
         else if hasKey out (Key a) then merge_attrs h as out
         else merge_attrs h as (out @ [gh_fields h ! i]))"

fun merge_missing :: "attr list \<Rightarrow> attr list \<Rightarrow> attr list \<Rightarrow> attr list" where
  "merge_missing attrs [] out = out"
| "merge_missing attrs (g # gs) out =
     (if \<not> hasKey attrs (Key g) then merge_missing attrs gs (out @ [g])
      else merge_missing attrs gs out)"

definition merge :: "'h global_fields_handler \<Rightarrow> attr list \<Rightarrow> attr list" where
  "merge h attrs = merge_missing attrs (gh_fields h) (merge_attrs h attrs [])"

fun group_attrs :: "held_op list \<Rightarrow> attr list \<Rightarrow> attr list" where
  "group_attrs [] attrs = attrs"
| "group_attrs (HeldAttrs xs # rops) attrs = group_attrs rops (xs @ attrs)"
| "group_attrs (HeldGroup g # rops) attrs =
     (if attrs = [] then group_attrs rops attrs
      else group_attrs rops [Attr g (GroupValue attrs)])"

definition handleGrouped :: "'h global_fields_handler \<Rightarrow> slog_record \<Rightarrow> slog_record" where
  "handleGrouped h r =
     (let attrs = group_attrs (rev (gh_ops h)) (recordAttrs r);
          out = NewRecord (r_time r) (r_level r) (r_message r) (r_pc r);
          out = AddAttrs out (gh_fields h)
      in AddAttrs out attrs)"

definition GlobalFieldsHandler_Handle :: "'h global_fields_handler \<Rightarrow> slog_record \<Rightarrow> slog_record" where
  "GlobalFieldsHandler_Handle h r =
     (if gh_fields h = [] then r
      else if gh_ops h \<noteq> [] then handleGrouped h r
      else (let collides = list_ex (\<lambda>a. snd (lookup h (Key a))) (r_attrs r)
            in if \<not> collides then AddAttrs r (gh_fields h)
               else (let out = NewRecord (r_time r) (r_level r) (r_message r) (r_pc r)
                     in AddAttrs out (merge h (recordAttrs r)))))"

definition GlobalFieldsHandler_WithAttrs ::
  "('h \<Rightarrow> attr list \<Rightarrow> 'h) \<Rightarrow> 'h global_fields_handler \<Rightarrow> attr list \<Rightarrow> 'h global_fields_handler" where
  "GlobalFieldsHandler_WithAttrs wa h attrs =
     (let attrs = filterValidAttrs attrs
      in if attrs = [] then h
         else if gh_ops h = []
         then \<lparr>gh_next = wa (gh_next h) attrs, gh_fields = gh_fields h,
               gh_override = gh_override h, gh_ops = []\<rparr>
         else h\<lparr>gh_ops := gh_ops h @ [HeldAttrs attrs]\<rparr>)"

definition GlobalFieldsHandler_WithGroup ::
  "('h \<Rightarrow> bytes \<Rightarrow> 'h) \<Rightarrow> 'h global_fields_handler \<Rightarrow> bytes \<Rightarrow> 'h global_fields_handler" where
  "GlobalFieldsHandler_WithGroup wg h name =
     (if name = [] then h
      else if gh_fields h = []
      then \<lparr>gh_next = wg (gh_next h) name, gh_fields = gh_fields h,
            gh_override = gh_override h, gh_ops = []\<rparr>
      else h\<lparr>gh_ops := gh_ops h @ [HeldGroup name]\<rparr>)"

section \<open>The field set\<close>

text \<open>What the constructor establishes and no operation changes.\<close>

definition wf_globals :: "'h global_fields_handler \<Rightarrow> bool" where
  "wf_globals h \<longleftrightarrow> sorted (map Key (gh_fields h)) \<and> distinct (map Key (gh_fields h)) \<and>
     list_all (\<lambda>a. Key a \<noteq> [] \<and> nonempty_attr a) (gh_fields h)"

lemma wf_globals_WithAttrs [intro]:
  "wf_globals h \<Longrightarrow> wf_globals (GlobalFieldsHandler_WithAttrs wa h as)"
  by (simp add: wf_globals_def GlobalFieldsHandler_WithAttrs_def Let_def)

lemma wf_globals_WithGroup [intro]:
  "wf_globals h \<Longrightarrow> wf_globals (GlobalFieldsHandler_WithGroup wg h g)"
  by (simp add: wf_globals_def GlobalFieldsHandler_WithGroup_def)

lemma wf_globals_nonempty [simp]:
  "wf_globals h \<Longrightarrow> filter nonempty_attr (gh_fields h) = gh_fields h"
  by (simp add: wf_globals_def list_all_iff)

lemma new_fields_fold: "fold (\<lambda>(k, v) attrs. attrs @ [String k v]) m xs = xs @ map (\<lambda>(k, v). String k v) m"
  by (induction m arbitrary: xs) auto

lemma new_fields:
  "gh_fields (NewGlobalFieldsHandler n m ov) =
     sort_key Key (map (\<lambda>(k, v). String k v) (filter (\<lambda>(k, v). k \<noteq> []) m))"
proof -
  have "filter (\<lambda>a. Key a \<noteq> []) (map (\<lambda>(k, v). String k v) m) =
      map (\<lambda>(k, v). String k v) (filter (\<lambda>(k, v). k \<noteq> []) m)"
    by (induction m) (auto simp: String_def)
  then show ?thesis
    by (simp add: NewGlobalFieldsHandler_def new_fields_fold)
qed

lemma new_sel [simp]:
  "gh_next (NewGlobalFieldsHandler n m ov) = n"
  "gh_override (NewGlobalFieldsHandler n m ov) = ov"
  "gh_ops (NewGlobalFieldsHandler n m ov) = []"
  by (simp_all add: NewGlobalFieldsHandler_def Let_def)

lemma keys_of_strings: "map Key (map (\<lambda>(k, v). String k v) m) = keys m"
  by (induction m) (auto simp: String_def)

lemma wf_globals_new:
  assumes "wf_map m"
  shows "wf_globals (NewGlobalFieldsHandler n m ov)"
proof -
  let ?m = "filter (\<lambda>(k, v). k \<noteq> []) m"
  let ?as = "map (\<lambda>(k, v). String k v) ?m"
  have "distinct (map Key ?as)"
    unfolding keys_of_strings using assms by (simp add: wf_map_def distinct_map_filter)
  moreover have "mset (map Key (sort_key Key ?as)) = mset (map Key ?as)"
    by (simp only: mset_map mset_sort)
  ultimately have "distinct (map Key (sort_key Key ?as))"
    by (metis mset_eq_imp_distinct_iff)
  then show ?thesis
    by (auto simp: wf_globals_def new_fields list_all_iff String_def)
qed

section \<open>The binary search\<close>

text \<open>
  On a sorted slice the search stops at the number of keys below the target.
\<close>

lemma bsearch_stop: "\<not> i < j \<Longrightarrow> bsearch fs k i j = i"
  by (simp add: bsearch.simps)

lemma bsearch_bounds: "i \<le> j \<Longrightarrow> i \<le> bsearch fs k i j \<and> bsearch fs k i j \<le> j"
proof (induction fs k i j rule: bsearch.induct)
  case (1 fs k i j)
  show ?case
  proof (cases "i < j")
    case False
    with 1(3-) show ?thesis by (auto simp: bsearch_stop)
  next
    case True
    let ?m = "(i + j) div 2"
    have m: "i \<le> ?m" "?m < j" using True by auto
    show ?thesis
    proof (cases "Key (fs ! ?m) < k")
      case below: True
      have "?m + 1 \<le> bsearch fs k (?m + 1) j \<and> bsearch fs k (?m + 1) j \<le> j"
        using 1(1) [OF True refl below] m by simp
      with True below m show ?thesis by (simp add: bsearch.simps [of fs k i j] Let_def)
    next
      case above: False
      have "i \<le> bsearch fs k i ?m \<and> bsearch fs k i ?m \<le> ?m"
        using 1(2) [OF True refl above] m by simp
      with True above m show ?thesis by (simp add: bsearch.simps [of fs k i j] Let_def)
    qed
  qed
qed

lemma bsearch_partition:
  assumes "sorted (map Key fs)" "i \<le> j" "j \<le> length fs"
    and "\<forall>x<i. Key (fs ! x) < k" and "\<forall>x. j \<le> x \<and> x < length fs \<longrightarrow> k \<le> Key (fs ! x)"
  shows "(\<forall>x<bsearch fs k i j. Key (fs ! x) < k) \<and>
    (\<forall>x. bsearch fs k i j \<le> x \<and> x < length fs \<longrightarrow> k \<le> Key (fs ! x))"
  using assms
proof (induction fs k i j rule: bsearch.induct)
  case (1 fs k i j)
  have mono: "Key (fs ! x) \<le> Key (fs ! y)" if "x \<le> y" "y < length fs" for x y
    using sorted_nth_mono [OF 1(3), of x y] that by simp
  show ?case
  proof (cases "i < j")
    case False
    with 1(3-) show ?thesis by (auto simp: bsearch_stop)
  next
    case True
    let ?m = "(i + j) div 2"
    have m: "i \<le> ?m" "?m < j" using True by auto
    show ?thesis
    proof (cases "Key (fs ! ?m) < k")
      case below: True
      have "\<forall>x<?m + 1. Key (fs ! x) < k"
      proof (intro allI impI)
        fix x assume "x < ?m + 1"
        then have "Key (fs ! x) \<le> Key (fs ! ?m)" using m 1(5) by (intro mono) auto
        with below show "Key (fs ! x) < k" by (rule le_less_trans [rotated])
      qed
      from 1(1) [OF True refl below 1(3) _ 1(5) this 1(7)] m True below show ?thesis
        by (simp add: bsearch.simps [of fs k i j] Let_def)
    next
      case above: False
      have "\<forall>x. ?m \<le> x \<and> x < length fs \<longrightarrow> k \<le> Key (fs ! x)"
      proof (intro allI impI)
        fix x assume "?m \<le> x \<and> x < length fs"
        then have "Key (fs ! ?m) \<le> Key (fs ! x)" by (intro mono) auto
        with above show "k \<le> Key (fs ! x)" by (metis leI order_trans)
      qed
      from 1(2) [OF True refl above 1(3) _ _ 1(6) this] m True above 1(5) show ?thesis
        by (simp add: bsearch.simps [of fs k i j] Let_def)
    qed
  qed
qed

lemma lookup_found:
  assumes "wf_globals h" "lookup h k = (i, True)"
  shows "i < length (gh_fields h)" "Key (gh_fields h ! i) = k"
  using assms by (auto simp: lookup_def Let_def)

lemma lookup_iff:
  assumes "wf_globals h"
  shows "snd (lookup h k) \<longleftrightarrow> k \<in> Key ` set (gh_fields h)"
proof
  assume "snd (lookup h k)"
  then show "k \<in> Key ` set (gh_fields h)" by (simp add: lookup_def Let_def) (metis image_eqI nth_mem)
next
  assume "k \<in> Key ` set (gh_fields h)"
  then obtain x where x: "x < length (gh_fields h)" "Key (gh_fields h ! x) = k"
    by (auto simp: in_set_conv_nth)
  let ?b = "bsearch (gh_fields h) k 0 (length (gh_fields h))"
  from assms have srt: "sorted (map Key (gh_fields h))" by (simp add: wf_globals_def)
  have "(\<forall>y<?b. Key (gh_fields h ! y) < k) \<and>
      (\<forall>y. ?b \<le> y \<and> y < length (gh_fields h) \<longrightarrow> k \<le> Key (gh_fields h ! y))"
    by (rule bsearch_partition [OF srt]) auto
  then have below: "\<forall>y<?b. Key (gh_fields h ! y) < k"
    and above: "\<forall>y. ?b \<le> y \<and> y < length (gh_fields h) \<longrightarrow> k \<le> Key (gh_fields h ! y)"
    by (rule conjunct1, rule conjunct2)
  have "?b \<le> x" using below x by (meson leI order_less_irrefl)
  then have "Key (gh_fields h ! ?b) \<le> k"
    using sorted_nth_mono [OF srt, of ?b x] x by simp
  moreover have "k \<le> Key (gh_fields h ! ?b)" using above \<open>?b \<le> x\<close> x by simp
  ultimately show "snd (lookup h k)" using \<open>?b \<le> x\<close> x by (simp add: lookup_def Let_def)
qed

text \<open>The global field of a key, without the search.\<close>

definition global_of :: "attr list \<Rightarrow> bytes \<Rightarrow> attr option" where
  "global_of fs k = find (\<lambda>g. Key g = k) fs"

lemma global_of_unique:
  assumes "distinct (map Key fs)" "g \<in> set fs"
  shows "global_of fs (Key g) = Some g"
  using assms by (induction fs) (auto simp: global_of_def)

lemma global_of_None: "global_of fs k = None \<longleftrightarrow> k \<notin> Key ` set fs"
  by (auto simp: global_of_def find_None_iff)

lemma lookup_global:
  assumes "wf_globals h"
  shows "lookup h k = (fst (lookup h k), global_of (gh_fields h) k \<noteq> None)"
    and "snd (lookup h k) \<Longrightarrow> global_of (gh_fields h) k = Some (gh_fields h ! fst (lookup h k))"
proof -
  show "lookup h k = (fst (lookup h k), global_of (gh_fields h) k \<noteq> None)"
    using lookup_iff [OF assms, of k] global_of_None [of "gh_fields h" k]
    by (cases "lookup h k") auto
next
  assume s: "snd (lookup h k)"
  then have "lookup h k = (fst (lookup h k), True)" by (cases "lookup h k") simp
  from lookup_found [OF assms this]
  show "global_of (gh_fields h) k = Some (gh_fields h ! fst (lookup h k))"
    using assms global_of_unique [of "gh_fields h" "gh_fields h ! fst (lookup h k)"]
    by (auto simp: wf_globals_def)
qed

lemma partition_point:
  "b \<le> length fs \<Longrightarrow> \<forall>x<b. P (fs ! x) \<Longrightarrow> \<forall>x. b \<le> x \<and> x < length fs \<longrightarrow> \<not> P (fs ! x) \<Longrightarrow>
   length (filter P fs) = b"
proof (induction fs arbitrary: b)
  case Nil
  then show ?case by simp
next
  case (Cons f fs)
  show ?case
  proof (cases b)
    case 0
    with Cons.prems(3) have "\<forall>x<length (f # fs). \<not> P ((f # fs) ! x)" by simp
    then have "filter P (f # fs) = []" by (simp only: filter_empty_conv all_set_conv_all_nth)
    with 0 show ?thesis by simp
  next
    case (Suc c)
    with Cons.prems have "P f" "c \<le> length fs" "\<forall>x<c. P (fs ! x)"
      by auto
    moreover have "\<forall>x. c \<le> x \<and> x < length fs \<longrightarrow> \<not> P (fs ! x)"
      using Cons.prems(3) Suc by auto
    ultimately show ?thesis using Cons.IH [of c] Suc by simp
  qed
qed

text \<open>
  The binary search of \<open>lookup\<close> finds exactly the keys of the field set: the index is the
  number of fields whose key is below the one looked up, and the flag says whether the field
  at that index has the key.
\<close>

theorem global_lookup_correct:
  assumes "wf_globals h"
  shows "lookup h k =
    (length (filter (\<lambda>a. Key a < k) (gh_fields h)), k \<in> Key ` set (gh_fields h))"
proof -
  let ?b = "bsearch (gh_fields h) k 0 (length (gh_fields h))"
  from assms have srt: "sorted (map Key (gh_fields h))" by (simp add: wf_globals_def)
  have part: "(\<forall>y<?b. Key (gh_fields h ! y) < k) \<and>
      (\<forall>y. ?b \<le> y \<and> y < length (gh_fields h) \<longrightarrow> k \<le> Key (gh_fields h ! y))"
    by (rule bsearch_partition [OF srt]) auto
  have "length (filter (\<lambda>a. Key a < k) (gh_fields h)) = ?b"
    using part bsearch_bounds [of 0 "length (gh_fields h)" "gh_fields h" k]
    by (intro partition_point) (auto simp: not_less)
  moreover have "fst (lookup h k) = ?b" by (simp add: lookup_def Let_def)
  ultimately show ?thesis
    using lookup_iff [OF assms, of k] by (cases "lookup h k") simp
qed

theorem global_lookup_correct_witness:
  "lookup (NewGlobalFieldsHandler () [(''svc'', ''a''), ('''', ''x''), (''env'', ''p'')] True) ''svc'' = (1, True) \<and>
   lookup (NewGlobalFieldsHandler () [(''svc'', ''a''), ('''', ''x''), (''env'', ''p'')] True) ''host'' = (1, False)"
proof -
  have "wf_globals (NewGlobalFieldsHandler () [(''svc'', ''a''), ('''', ''x''), (''env'', ''p'')] True)"
    by (rule wf_globals_new) (simp add: wf_map_def)
  from global_lookup_correct [OF this, of "''svc''"] global_lookup_correct [OF this, of "''host''"]
  show ?thesis by (simp add: new_fields String_def less_char_def)
qed

section \<open>Merging\<close>

text \<open>The keys of a line in the order in which each first appears.\<close>

definition key_order :: "bytes list \<Rightarrow> bytes list" where
  "key_order ks = rev (remdups (rev ks))"

lemma key_order_snoc:
  "key_order (ks @ [k]) = (if k \<in> set ks then key_order ks else key_order ks @ [k])"
  by (simp add: key_order_def)

lemma key_order_append_cong:
  assumes "key_order xs = key_order ys" "set xs = set ys"
  shows "key_order (xs @ zs) = key_order (ys @ zs)"
proof (induction zs rule: rev_induct)
  case Nil
  then show ?case using assms by simp
next
  case (snoc z zs)
  then show ?case
    using key_order_snoc [of "xs @ zs" z] key_order_snoc [of "ys @ zs" z] assms(2) by simp
qed

lemma key_order_repeat: "k \<in> set xs \<Longrightarrow> key_order (xs @ k # ys) = key_order (xs @ ys)"
  using key_order_append_cong [of "xs @ [k]" xs ys] by (auto simp: key_order_snoc)

lemma key_order_append_filter:
  "distinct ys \<Longrightarrow> key_order (xs @ ys) = key_order xs @ filter (\<lambda>y. y \<notin> set xs) ys"
proof (induction ys rule: rev_induct)
  case (snoc y ys)
  then show ?case using key_order_snoc [of "xs @ ys" y] by auto
qed simp

lemma merge_missing_eq:
  "merge_missing attrs gs out = out @ filter (\<lambda>g. Key g \<notin> Key ` set attrs) gs"
  by (induction attrs gs out rule: merge_missing.induct) auto

lemma merge_attrs_keep: "\<not> gh_override h \<Longrightarrow> merge_attrs h as out = out @ as"
  by (induction as arbitrary: out) (auto split: prod.splits)

lemma merge_attrs_step:
  assumes "wf_globals h" "gh_override h"
  shows "merge_attrs h (a # as) out =
    (case global_of (gh_fields h) (Key a) of None \<Rightarrow> merge_attrs h as (out @ [a])
     | Some g \<Rightarrow> if Key a \<in> Key ` set out then merge_attrs h as out else merge_attrs h as (out @ [g]))"
proof (cases "lookup h (Key a)")
  case (Pair i b)
  show ?thesis
  proof (cases b)
    case True
    with Pair lookup_global(2) [OF assms(1), of "Key a"] assms(2) show ?thesis by simp
  next
    case False
    with Pair lookup_global(1) [OF assms(1), of "Key a"] have "global_of (gh_fields h) (Key a) = None"
      by simp
    with Pair False show ?thesis by simp
  qed
qed

lemma global_of_Some:
  assumes "global_of fs k = Some g"
  shows "k \<in> Key ` set fs" "Key g = k"
proof -
  show "Key g = k" using assms by (auto simp: global_of_def find_Some_iff)
  show "k \<in> Key ` set fs" using assms global_of_None [of fs k] by (metis option.distinct(1))
qed

lemma merge_attrs_others:
  assumes "wf_globals h" "gh_override h"
  shows "filter (\<lambda>a. Key a \<notin> Key ` set (gh_fields h)) (merge_attrs h as out) =
    filter (\<lambda>a. Key a \<notin> Key ` set (gh_fields h)) (out @ as)"
proof (induction as arbitrary: out)
  case (Cons a as)
  show ?case
  proof (cases "global_of (gh_fields h) (Key a)")
    case (Some g)
    then have "Key a \<in> Key ` set (gh_fields h)" "Key g = Key a" by (rule global_of_Some)+
    with Some Cons show ?thesis by (simp add: merge_attrs_step [OF assms] del: merge_attrs.simps)
  next
    case None
    then have "Key a \<notin> Key ` set (gh_fields h)" by (simp add: global_of_None)
    with None Cons show ?thesis by (simp add: merge_attrs_step [OF assms] del: merge_attrs.simps)
  qed
qed simp

lemma merge_attrs_global:
  assumes "wf_globals h" "gh_override h" "g \<in> set (gh_fields h)"
  shows "filter (\<lambda>a. Key a = Key g) (merge_attrs h as out) =
    (if Key g \<in> Key ` set out then filter (\<lambda>a. Key a = Key g) out
     else if Key g \<in> Key ` set as then [g] else [])"
proof (induction as arbitrary: out)
  case Nil
  show ?case by (simp add: filter_empty_conv) (metis image_eqI)
next
  case (Cons a as)
  note step = merge_attrs_step [OF assms(1,2), of a as out]
  show ?case
  proof (cases "Key a = Key g")
    case True
    then have "global_of (gh_fields h) (Key a) = Some g"
      using assms global_of_unique by (simp add: wf_globals_def)
    with step True have eq: "merge_attrs h (a # as) out =
        merge_attrs h as (if Key g \<in> Key ` set out then out else out @ [g])"
      by simp
    show ?thesis
    proof (cases "Key g \<in> Key ` set out")
      case seen: True
      with eq Cons [of out] show ?thesis by simp
    next
      case fresh: False
      then have "filter (\<lambda>a. Key a = Key g) out = []"
        by (simp add: filter_empty_conv) (metis image_eqI)
      with fresh eq Cons [of "out @ [g]"] True show ?thesis by simp
    qed
  next
    case False
    show ?thesis
    proof (cases "global_of (gh_fields h) (Key a)")
      case None
      with step False Cons [of "out @ [a]"] show ?thesis by (auto simp del: merge_attrs.simps)
    next
      case (Some g')
      then have "Key g' = Key a" by (rule global_of_Some)
      with Some step False Cons [of out] Cons [of "out @ [g']"] show ?thesis
        by (auto simp del: merge_attrs.simps)
    qed
  qed
qed

lemma merge_attrs_order:
  assumes "wf_globals h" "gh_override h"
  shows "key_order (map Key (merge_attrs h as out)) = key_order (map Key (out @ as)) \<and>
    Key ` set (merge_attrs h as out) = Key ` set (out @ as)"
proof (induction as arbitrary: out)
  case (Cons a as)
  note step = merge_attrs_step [OF assms, of a as out]
  show ?case
  proof (cases "global_of (gh_fields h) (Key a)")
    case None
    with step Cons [of "out @ [a]"] show ?thesis by (simp del: merge_attrs.simps)
  next
    case (Some g)
    then have "Key g = Key a" by (rule global_of_Some)
    with Some step Cons [of out] Cons [of "out @ [g]"] show ?thesis
      by (auto simp: key_order_repeat simp del: merge_attrs.simps)
  qed
qed simp

lemma merge_eq:
  "merge h as = merge_attrs h as [] @ filter (\<lambda>g. Key g \<notin> Key ` set as) (gh_fields h)"
  by (simp add: merge_def merge_missing_eq)

lemma merge_disjoint:
  assumes "wf_globals h" "Key ` set as \<inter> Key ` set (gh_fields h) = {}"
  shows "merge h as = as @ gh_fields h"
proof -
  have "merge_attrs h as out = out @ as" for out
    using assms(2)
  proof (induction as arbitrary: out)
    case (Cons a as)
    then have "\<not> snd (lookup h (Key a))" by (simp add: lookup_iff [OF assms(1)])
    with Cons show ?case by (cases "lookup h (Key a)") simp
  qed simp
  moreover have "filter (\<lambda>g. Key g \<notin> Key ` set as) (gh_fields h) = gh_fields h"
    using assms(2) by (auto simp: filter_id_conv)
  ultimately show ?thesis by (simp add: merge_eq)
qed

lemma merge_attrs_members:
  assumes "wf_globals h"
  shows "set (merge_attrs h as out) \<subseteq> set out \<union> set as \<union> set (gh_fields h)"
proof (cases "gh_override h")
  case False
  then show ?thesis by (auto simp: merge_attrs_keep)
next
  case True
  note step = merge_attrs_step [OF assms True]
  show ?thesis
  proof (induction as arbitrary: out)
    case (Cons a as)
    show ?case
    proof (cases "global_of (gh_fields h) (Key a)")
      case None
      with Cons [of "out @ [a]"] show ?thesis by (auto simp: step simp del: merge_attrs.simps)
    next
      case (Some g)
      then have "g \<in> set (gh_fields h)" by (auto simp: global_of_def find_Some_iff)
      with Some Cons [of out] Cons [of "out @ [g]"] show ?thesis
        by (auto simp: step simp del: merge_attrs.simps)
    qed
  qed simp
qed

text \<open>Whichever path \<open>Handle\<close> takes, an ungrouped handler forwards the merged attrs.\<close>

lemma handle_ungrouped:
  assumes "wf_globals h" "gh_ops h = []" "wf_record r"
  shows "r_attrs (GlobalFieldsHandler_Handle h r) = merge h (r_attrs r)"
proof (cases "gh_fields h = []")
  case True
  then have "merge_attrs h as out = out @ as" for as out
    by (induction as arbitrary: out) (simp_all add: lookup_def Let_def)
  with True show ?thesis by (simp add: GlobalFieldsHandler_Handle_def merge_eq)
next
  case False
  show ?thesis
  proof (cases "list_ex (\<lambda>a. snd (lookup h (Key a))) (r_attrs r)")
    case coll: True
    have "list_all nonempty_attr (merge h (r_attrs r))"
      using merge_attrs_members [OF assms(1), of "r_attrs r" "[]"] assms
      by (auto simp: merge_eq wf_record_def wf_globals_def list_all_iff)
    then have "filter nonempty_attr (merge h (r_attrs r)) = merge h (r_attrs r)"
      by (simp add: filter_id_conv_all)
    with coll False assms show ?thesis
      by (simp add: GlobalFieldsHandler_Handle_def Let_def NewRecord_def)
  next
    case nocoll: False
    then have "Key ` set (r_attrs r) \<inter> Key ` set (gh_fields h) = {}"
      by (auto simp: list_ex_iff lookup_iff [OF assms(1)])
    with nocoll False assms show ?thesis
      by (simp add: GlobalFieldsHandler_Handle_def merge_disjoint)
  qed
qed

lemma filter_key_unique:
  "g \<in> set fs \<Longrightarrow> distinct (map Key fs) \<Longrightarrow> filter (\<lambda>a. Key a = Key g) fs = [g]"
  by (induction fs) (auto simp: filter_empty_conv image_iff)

text \<open>
  With \<open>override\<close> set, the record forwarded to \<open>next\<close> carries every global field exactly
  once and nothing else under its key, keeps the record's other attrs as they were, and
  lists its keys in the order of first appearance in the record followed by the fields the
  record lacked, sorted: a replaced attr keeps its position, on the fast path and on the slow one.
\<close>

theorem global_override_exact:
  assumes "wf_globals h" "gh_ops h = []" "gh_override h" "wf_record r"
  shows "let out = r_attrs (GlobalFieldsHandler_Handle h r) in
    (\<forall>g \<in> set (gh_fields h). filter (\<lambda>a. Key a = Key g) out = [g]) \<and>
    filter (\<lambda>a. Key a \<notin> Key ` set (gh_fields h)) out =
      filter (\<lambda>a. Key a \<notin> Key ` set (gh_fields h)) (r_attrs r) \<and>
    key_order (map Key out) = key_order (map Key (r_attrs r @ gh_fields h))"
  unfolding Let_def
proof (intro conjI ballI)
  let ?as = "r_attrs r" and ?fs = "gh_fields h"
  define out where "out = r_attrs (GlobalFieldsHandler_Handle h r)"
  have out: "out = merge_attrs h ?as [] @ filter (\<lambda>g. Key g \<notin> Key ` set ?as) ?fs"
    using assms by (simp add: out_def handle_ungrouped merge_eq)
  have dist: "distinct (map Key ?fs)" using assms(1) by (simp add: wf_globals_def)
  note order = merge_attrs_order [OF assms(1,3), of ?as "[]"]
  show "filter (\<lambda>a. Key a \<notin> Key ` set ?fs) (r_attrs (GlobalFieldsHandler_Handle h r)) = filter (\<lambda>a. Key a \<notin> Key ` set ?fs) ?as"
    using merge_attrs_others [OF assms(1,3), of ?as "[]"] by (simp add: out [unfolded out_def] filter_empty_conv)
  show "key_order (map Key (r_attrs (GlobalFieldsHandler_Handle h r))) = key_order (map Key (?as @ ?fs))"
  proof -
    let ?missing = "filter (\<lambda>k. k \<notin> Key ` set ?as) (map Key ?fs)"
    have "map Key (filter (\<lambda>g. Key g \<notin> Key ` set ?as) ?fs) = ?missing"
      by (simp add: filter_map comp_def)
    then have "key_order (map Key out) = key_order (map Key ?as @ ?missing)"
      using key_order_append_cong [of "map Key (merge_attrs h ?as [])" "map Key ?as"] order
      by (simp add: out)
    also have "\<dots> = key_order (map Key ?as @ map Key ?fs)"
      using dist by (simp add: key_order_append_filter)
    finally show ?thesis by (simp add: out_def)
  qed
  fix g assume g: "g \<in> set ?fs"
  then have one: "filter (\<lambda>a. Key a = Key g) ?fs = [g]"
    using dist by (rule filter_key_unique)
  have "filter (\<lambda>a. Key a = Key g) out = [g]"
  proof (cases "Key g \<in> Key ` set ?as")
    case True
    then have "filter (\<lambda>a. Key a = Key g) (filter (\<lambda>g. Key g \<notin> Key ` set ?as) ?fs) = []"
      by (auto simp: filter_empty_conv)
    with True show ?thesis
      using merge_attrs_global [OF assms(1,3) g, of ?as "[]"] by (simp add: out)
  next
    case False
    then have "filter (\<lambda>a. Key a = Key g) (filter (\<lambda>g. Key g \<notin> Key ` set ?as) ?fs) =
        filter (\<lambda>a. Key a = Key g) ?fs"
      by (simp, intro filter_cong) (auto, metis image_eqI)
    with False one show ?thesis
      using merge_attrs_global [OF assms(1,3) g, of ?as "[]"] by (simp add: out)
  qed
  then show "filter (\<lambda>a. Key a = Key g) (r_attrs (GlobalFieldsHandler_Handle h r)) = [g]"
    by (simp add: out_def)
qed

theorem global_override_exact_witness:
  "let h = NewGlobalFieldsHandler () [(''zone'', ''eu''), (''env'', ''prod'')] True;
       out = r_attrs (GlobalFieldsHandler_Handle h
               (fresh_record (NewRecord 0 0 ''m'' 0) [String ''a'' ''1'', String ''env'' ''x'', String ''env'' ''y'']))
   in filter (\<lambda>a. Key a = ''env'') out = [String ''env'' ''prod''] \<and>
      filter (\<lambda>a. Key a = ''zone'') out = [String ''zone'' ''eu''] \<and>
      key_order (map Key out) = [''a'', ''env'', ''zone'']"
proof -
  let ?m = "[(''zone'', ''eu''), (''env'', ''prod'')]"
  let ?h = "NewGlobalFieldsHandler () ?m True"
  have f: "gh_fields ?h = [String ''env'' ''prod'', String ''zone'' ''eu'']"
    by (simp add: new_fields String_def less_char_def)
  have "wf_globals ?h" "gh_ops ?h = []" "gh_override ?h"
    by (simp_all add: wf_globals_new wf_map_def)
  from global_override_exact [OF this, of
      "fresh_record (NewRecord 0 0 ''m'' 0) [String ''a'' ''1'', String ''env'' ''x'', String ''env'' ''y'']"]
  show ?thesis by (simp add: f Let_def) (simp add: String_def key_order_def)
qed

text \<open>
  Without \<open>override\<close> the record's own attrs are forwarded as they are, in their order and
  with their repeats, followed by the global fields whose keys the record does not carry.
\<close>

theorem global_yields_to_record:
  assumes "wf_globals h" "gh_ops h = []" "\<not> gh_override h" "wf_record r"
  shows "r_attrs (GlobalFieldsHandler_Handle h r) =
    r_attrs r @ filter (\<lambda>g. Key g \<notin> Key ` set (r_attrs r)) (gh_fields h)"
  using assms by (simp add: handle_ungrouped merge_eq merge_attrs_keep)

text \<open>
  The witness is also the case the comments of the file leave out: a record that repeats a
  key keeps both attrs, so the forwarded record carries a global key twice.
\<close>

theorem global_yields_to_record_witness:
  "map Key (r_attrs (GlobalFieldsHandler_Handle (NewGlobalFieldsHandler () [(''env'', ''prod'')] False)
     (fresh_record (NewRecord 0 0 ''m'' 0) [String ''env'' ''x'', String ''env'' ''y'']))) = [''env'', ''env'']"
proof -
  let ?h = "NewGlobalFieldsHandler () [(''env'', ''prod'')] False"
  have "wf_globals ?h" "gh_ops ?h = []" "\<not> gh_override ?h"
    by (simp_all add: wf_globals_new wf_map_def)
  from global_yields_to_record [OF this, of
      "fresh_record (NewRecord 0 0 ''m'' 0) [String ''env'' ''x'', String ''env'' ''y'']"]
  show ?thesis by (simp add: new_fields String_def)
qed

section \<open>Groups\<close>

lemma group_attrs_fold: "group_attrs rops as = fold nest_step rops as"
  by (induction rops as rule: group_attrs.induct) auto

lemma handle_grouped_attrs:
  assumes "wf_globals h" "gh_ops h \<noteq> []" "gh_fields h \<noteq> []"
  shows "r_attrs (GlobalFieldsHandler_Handle h r) =
    gh_fields h @ filter nonempty_attr (nest (gh_ops h) (r_attrs r))"
  using assms
  by (simp add: GlobalFieldsHandler_Handle_def handleGrouped_def Let_def group_attrs_fold nest_loop
      NewRecord_def)

abbreviation valid_attr :: "attr \<Rightarrow> bool" where
  "valid_attr a \<equiv> Key a \<noteq> []"

text \<open>Once a group is open, further derivations are held and \<open>next\<close> stays as it is.\<close>

lemma derive_grouped:
  assumes "gh_fields h \<noteq> []" "gh_ops h \<noteq> []" "named_groups ops"
    and "h' = derive (GlobalFieldsHandler_WithAttrs wa) (GlobalFieldsHandler_WithGroup wg) h ops"
  shows "gh_next h' = gh_next h \<and> gh_fields h' = gh_fields h \<and> gh_override h' = gh_override h \<and>
    gh_ops h' \<noteq> [] \<and> (\<forall>xs. nest (gh_ops h') xs = nest (gh_ops h) (nest (kept valid_attr ops) xs))"
  using assms
proof (induction ops arbitrary: h h')
  case (Cons op ops)
  show ?case
  proof (cases op)
    case (HeldAttrs as)
    let ?h1 = "GlobalFieldsHandler_WithAttrs wa h as"
    have h1: "gh_next ?h1 = gh_next h" "gh_fields ?h1 = gh_fields h" "gh_override ?h1 = gh_override h"
      "gh_ops ?h1 \<noteq> []" "nest (gh_ops ?h1) xs = nest (gh_ops h) (filter valid_attr as @ xs)" for xs
      using Cons.prems by (auto simp: GlobalFieldsHandler_WithAttrs_def Let_def)
    have "gh_fields ?h1 \<noteq> []" "named_groups ops" using Cons.prems h1 HeldAttrs by simp_all
    from Cons.IH [OF this(1) h1(4) this(2) refl] h1 Cons.prems(4) HeldAttrs show ?thesis
      by (simp only: derive_simps kept_simps nest.simps simp_thms)
  next
    case (HeldGroup g)
    let ?h1 = "GlobalFieldsHandler_WithGroup wg h g"
    have h1: "gh_next ?h1 = gh_next h" "gh_fields ?h1 = gh_fields h" "gh_override ?h1 = gh_override h"
      "gh_ops ?h1 \<noteq> []" "nest (gh_ops ?h1) xs = nest (gh_ops h) (close_group g xs)" for xs
      using Cons.prems HeldGroup by (auto simp: GlobalFieldsHandler_WithGroup_def)
    have "gh_fields ?h1 \<noteq> []" "named_groups ops" using Cons.prems h1 HeldGroup by simp_all
    from Cons.IH [OF this(1) h1(4) this(2) refl] h1 Cons.prems(4) HeldGroup show ?thesis
      by (simp only: derive_simps kept_simps nest.simps simp_thms)
  qed
qed simp

context slog_next
begin

lemma global_grouped_line:
  assumes "wf_globals h" "gh_ops h = []" "gh_fields h \<noteq> []" "g \<noteq> []" "named_groups ops"
    and "h' = derive (GlobalFieldsHandler_WithAttrs n_with_attrs)
      (GlobalFieldsHandler_WithGroup n_with_group) h (HeldAttrs xs # HeldGroup g # ops)"
  shows "line (gh_next h') (r_attrs (GlobalFieldsHandler_Handle h' r)) =
    line (gh_next h) (filter valid_attr xs @ gh_fields h @
      filter nonempty_attr (close_group g (nest (kept valid_attr ops) (r_attrs r))))"
proof -
  let ?h1 = "GlobalFieldsHandler_WithAttrs n_with_attrs h xs"
  let ?h2 = "GlobalFieldsHandler_WithGroup n_with_group ?h1 g"
  have h1: "gh_ops ?h1 = []" "gh_fields ?h1 = gh_fields h" "wf_globals ?h1"
    "line (gh_next ?h1) ys = line (gh_next h) (filter valid_attr xs @ ys)" for ys
    using assms by (auto simp: GlobalFieldsHandler_WithAttrs_def Let_def line_with_attrs wf_globals_def)
  then have h2: "gh_ops ?h2 = [HeldGroup g]" "gh_fields ?h2 = gh_fields h" "wf_globals ?h2"
    "gh_next ?h2 = gh_next ?h1"
    using assms by (auto simp: GlobalFieldsHandler_WithGroup_def wf_globals_def)
  have eq: "h' = derive (GlobalFieldsHandler_WithAttrs n_with_attrs)
      (GlobalFieldsHandler_WithGroup n_with_group) ?h2 ops"
    using assms by simp
  have d: "gh_next h' = gh_next ?h2 \<and> gh_fields h' = gh_fields ?h2 \<and> gh_override h' = gh_override ?h2 \<and>
    gh_ops h' \<noteq> [] \<and> (\<forall>ys. nest (gh_ops h') ys = nest (gh_ops ?h2) (nest (kept valid_attr ops) ys))"
    using h2 assms by (intro derive_grouped [OF _ _ _ eq]) auto
  then have "wf_globals h'" using h2 by (simp add: wf_globals_def)
  with d h2 assms h1 show ?thesis by (simp add: handle_grouped_attrs)
qed

end

text \<open>
  Global fields stay outside the groups: a handler derived with attrs, a named group and
  any further \<open>With\<close> calls shows, through any next handler that follows slog's contract, the
  attrs first, then all global fields in sorted order at the top level, then one group
  that holds everything else.
\<close>

theorem global_fields_stay_outside_groups:
  assumes "slog_next wa wg line" "wf_globals h" "gh_ops h = []" "gh_fields h \<noteq> []"
    and "g \<noteq> []" "named_groups ops"
  shows "let h' = derive (GlobalFieldsHandler_WithAttrs wa) (GlobalFieldsHandler_WithGroup wg) h
                    (HeldAttrs xs # HeldGroup g # ops)
    in line (gh_next h') (r_attrs (GlobalFieldsHandler_Handle h' r)) =
       line (gh_next h) (filter valid_attr xs @ gh_fields h @
         filter nonempty_attr (close_group g (nest (kept valid_attr ops) (r_attrs r))))"
  unfolding Let_def by (rule slog_next.global_grouped_line [OF assms refl])

theorem global_fields_stay_outside_groups_witness:
  "let h' = derive (GlobalFieldsHandler_WithAttrs TestHandler_WithAttrs)
              (GlobalFieldsHandler_WithGroup TestHandler_WithGroup)
              (NewGlobalFieldsHandler NewTestHandler [(''env'', ''prod'')] True)
              [HeldAttrs [String ''a'' ''1''], HeldGroup ''g'', HeldAttrs [String ''b'' ''2'']]
   in TestHandler_line (gh_next h')
        (r_attrs (GlobalFieldsHandler_Handle h' (fresh_record (NewRecord 0 0 ''m'' 0) [String ''c'' ''3'']))) =
      [String ''a'' ''1'', String ''env'' ''prod'', Attr ''g'' (Group [String ''b'' ''2'', String ''c'' ''3''])]"
proof -
  let ?h = "NewGlobalFieldsHandler NewTestHandler [(''env'', ''prod'')] True"
  have "wf_globals ?h" "gh_ops ?h = []" "gh_fields ?h \<noteq> []" "''g'' \<noteq> []"
    "named_groups [HeldAttrs [String ''b'' ''2'']]"
    by (simp_all add: wf_globals_new wf_map_def new_fields String_def)
  from global_fields_stay_outside_groups [OF test_next.slog_next_axioms this,
      of "[String ''a'' ''1'']" "fresh_record (NewRecord 0 0 ''m'' 0) [String ''c'' ''3'']"]
  show ?thesis
    by (simp add: Let_def TestHandler_line_def NewTestHandler_def new_fields String_def
        close_group_def GroupValue_def)
qed

section \<open>Determinism\<close>

text \<open>
  The handler built from a Go map does not depend on the order in which the map is ranged
  over: two visits of the same entries give the same handler, with every non-empty key once.
\<close>

theorem globals_order_irrelevant:
  assumes "wf_map m" "mset m = mset m'"
  shows "NewGlobalFieldsHandler n m ov = NewGlobalFieldsHandler n m' ov \<and>
    mset (gh_fields (NewGlobalFieldsHandler n m ov)) =
      mset (map (\<lambda>(k, v). String k v) (filter (\<lambda>(k, v). k \<noteq> []) m))"
proof -
  let ?as = "\<lambda>m. map (\<lambda>(k, v). String k v) (filter (\<lambda>(k, v). k \<noteq> []) m)"
  have "distinct (map Key (?as m))"
    unfolding keys_of_strings using assms(1) by (simp add: wf_map_def distinct_map_filter)
  then have inj: "inj_on Key (set (?as m))"
    using distinct_map [of Key "?as m"] by blast
  have "mset (?as m) = mset (?as m')"
    using assms(2) by (simp only: mset_map mset_filter)
  then have "sort_key Key (?as m) = sort_key Key (?as m')"
    using inj by (intro sort_key_inj_key_eq) (auto)
  then have eq: "gh_fields (NewGlobalFieldsHandler n m ov) = gh_fields (NewGlobalFieldsHandler n m' ov)"
    by (simp only: new_fields)
  have "NewGlobalFieldsHandler n m ov = NewGlobalFieldsHandler n m' ov"
    by (rule global_fields_handler.equality) (simp_all add: eq)
  moreover have "mset (gh_fields (NewGlobalFieldsHandler n m ov)) = mset (?as m)"
    by (simp only: new_fields mset_sort)
  ultimately show ?thesis by (rule conjI)
qed

theorem globals_order_irrelevant_witness:
  "NewGlobalFieldsHandler () [(''b'', ''1''), (''a'', ''2'')] True =
   NewGlobalFieldsHandler () [(''a'', ''2''), (''b'', ''1'')] True"
  using globals_order_irrelevant [of "[(''b'', ''1''), (''a'', ''2'')]" "[(''a'', ''2''), (''b'', ''1'')]"
      "()" True]
  by (simp add: wf_map_def)

text \<open>
  A group named like a global field puts that key on the line twice, although the
  handler's comment says it never produces a duplicate key: the grouped path makes no check.
\<close>

theorem global_group_duplicates_key:
  "map Key (r_attrs (GlobalFieldsHandler_Handle
     (GlobalFieldsHandler_WithGroup wg (NewGlobalFieldsHandler n [(''env'', ''prod'')] True) ''env'')
     (fresh_record r [String ''a'' ''1'']))) = [''env'', ''env'']"
  by (simp add: GlobalFieldsHandler_Handle_def GlobalFieldsHandler_WithGroup_def handleGrouped_def
      new_fields String_def GroupValue_def NewRecord_def)

end
