(* ===== verification/KeyEviction.thy ===== *)
theory KeyEviction
  imports Prelude
begin

text \<open>
  What the two bounded key maps of the program share: the sampler's \<open>samplingState\<close>
  (\<open>handler/sampling_handler.go\<close>) and the rate limiter's \<open>rateState\<close> (\<open>rate.go\<close>) reclaim
  entries by the same three loops before they insert a key: drop what is dead, drop what is
  older than a cutoff taken from the sorted timestamps, drop arbitrary entries down to a target.

  A \<open>range\<close> loop over a Go map visits its keys in an order the language leaves open. Only
  the last loop depends on it: its order is the argument \<open>perm\<close>, which rearranges the keys.

  An index out of range is a panic, written as \<open>None\<close>.
\<close>

section \<open>Time\<close>

text \<open>\<open>Time.Sub\<close> saturates at the range of a 64-bit \<open>Duration\<close>.\<close>

definition maxDuration :: duration where "maxDuration = 2 ^ 63 - 1"
definition minDuration :: duration where "minDuration = - (2 ^ 63)"

definition time_Sub :: "time \<Rightarrow> time \<Rightarrow> duration" where
  "time_Sub t u = max minDuration (min maxDuration (t - u))"

lemma time_Sub_less: "minDuration < d \<Longrightarrow> d \<le> maxDuration \<Longrightarrow> time_Sub t u < d \<longleftrightarrow> t - u < d"
  by (auto simp: time_Sub_def max_def min_def)

lemma time_Sub_0: "time_Sub t t = 0"
  by (simp add: time_Sub_def maxDuration_def minDuration_def)

section \<open>The loops\<close>

text \<open>\<open>xs[i]\<close>, with the bounds check.\<close>

definition index :: "'a list \<Rightarrow> int \<Rightarrow> 'a option" where
  "index xs i = (if 0 \<le> i \<and> i < int (length xs) then Some (xs ! nat i) else None)"

definition drop_dead :: "('e \<Rightarrow> bool) \<Rightarrow> ('k \<times> 'e) list \<Rightarrow> ('k \<times> 'e) list" where
  "drop_dead dead m = filter (\<lambda>(k, e). \<not> dead e) m"

definition drop_before :: "('e \<Rightarrow> time) \<Rightarrow> time \<Rightarrow> ('k \<times> 'e) list \<Rightarrow> ('k \<times> 'e) list" where
  "drop_before stamp cutoff m = filter (\<lambda>(k, e). \<not> stamp e < cutoff) m"

fun drop_extra :: "int \<Rightarrow> 'k list \<Rightarrow> ('k \<times> 'e) list \<Rightarrow> ('k \<times> 'e) list" where
  "drop_extra target [] m = m"
| "drop_extra target (k # ks) m =
     (if int (length m) \<le> target then m else drop_extra target ks (AList.delete k m))"

definition cutoff_of :: "('e \<Rightarrow> time) \<Rightarrow> int \<Rightarrow> ('k \<times> 'e) list \<Rightarrow> time option" where
  "cutoff_of stamp target m =
     (let evictBuf = sort (map (\<lambda>(k, e). stamp e) m)
      in index evictBuf (int (length evictBuf) - target))"

definition drop_oldest ::
  "('k list \<Rightarrow> 'k list) \<Rightarrow> ('e \<Rightarrow> time) \<Rightarrow> int \<Rightarrow> ('k \<times> 'e) list \<Rightarrow> ('k \<times> 'e) list option" where
  "drop_oldest perm stamp target m =
     (case cutoff_of stamp target m of
        None \<Rightarrow> None
      | Some cutoff \<Rightarrow>
          (let m = drop_before stamp cutoff m
           in Some (drop_extra target (perm (keys m)) m)))"

section \<open>What the loops leave\<close>

definition reorders :: "('k list \<Rightarrow> 'k list) \<Rightarrow> bool" where
  "reorders perm \<longleftrightarrow> (\<forall>ks. mset (perm ks) = mset ks)"

lemma reorders_id [simp]: "reorders (\<lambda>ks. ks)"
  by (simp add: reorders_def)

lemma reorders_set: "reorders perm \<Longrightarrow> set (perm ks) = set ks"
  unfolding reorders_def by (metis set_mset_mset)

lemma reorders_distinct: "reorders perm \<Longrightarrow> distinct ks \<Longrightarrow> distinct (perm ks)"
  unfolding reorders_def by (metis mset_eq_imp_distinct_iff)

lemma drop_dead_sub: "set (drop_dead dead m) \<subseteq> set m" "wf_map m \<Longrightarrow> wf_map (drop_dead dead m)"
    "length (drop_dead dead m) \<le> length m"
  by (auto simp: drop_dead_def)

lemma drop_before_sub: "set (drop_before st c m) \<subseteq> set m" "wf_map m \<Longrightarrow> wf_map (drop_before st c m)"
  by (auto simp: drop_before_def)

lemma delete_sub: "set (AList.delete k m) \<subseteq> set m"
  by (auto simp: AList.delete_eq)

lemma drop_extra_sub: "set (drop_extra t ks m) \<subseteq> set m" "wf_map m \<Longrightarrow> wf_map (drop_extra t ks m)"
proof (induction ks arbitrary: m)
  case (Cons k ks)
  case 1
  have "set (drop_extra t ks (AList.delete k m)) \<subseteq> set m"
    using Cons.IH(1) delete_sub by (rule subset_trans)
  then show ?case by simp
next
  case (Cons k ks)
  case 2
  then show ?case using Cons.IH(2) [OF wf_map_delete [OF 2]] by simp
qed simp_all

lemma drop_extra_length:
  assumes "wf_map m" "distinct ks" "set ks \<subseteq> set (keys m)"
    and "0 \<le> t" "t \<le> int (length m)" "int (length m) - t \<le> int (length ks)"
  shows "int (length (drop_extra t ks m)) = t"
  using assms
proof (induction t ks m rule: drop_extra.induct)
  case (2 t k ks m)
  show ?case
  proof (cases "int (length m) \<le> t")
    case False
    have "k \<in> set (keys m)" using "2.prems" by simp
    from length_delete_wf [OF "2.prems"(1) this]
    have len: "int (length (AList.delete k m)) = int (length m) - 1" by simp
    have "wf_map (AList.delete k m)" "distinct ks" "set ks \<subseteq> set (keys (AList.delete k m))"
      using "2.prems" unfolding set_keys_delete by auto
    from "2.IH" [OF False this "2.prems"(4)] len False "2.prems" show ?thesis by simp
  qed (use "2.prems" in simp)
qed simp

lemma sorted_above_cutoff:
  assumes "sorted xs" "i < length xs"
  shows "length (filter (\<lambda>x. \<not> x < xs ! i) xs) \<ge> length xs - i"
proof -
  have "filter (\<lambda>x. \<not> x < xs ! i) (drop i xs) = drop i xs"
    using assms by (auto simp: filter_id_conv in_set_conv_nth not_less sorted_nth_mono)
  then have "length (filter (\<lambda>x. \<not> x < xs ! i) (drop i xs)) = length xs - i" by simp
  moreover have "filter (\<lambda>x. \<not> x < xs ! i) xs =
      filter (\<lambda>x. \<not> x < xs ! i) (take i xs) @ filter (\<lambda>x. \<not> x < xs ! i) (drop i xs)"
    by (metis append_take_drop_id filter_append)
  ultimately show ?thesis by simp
qed

lemma sorted_distinct_above_cutoff:
  assumes "sorted xs" "distinct xs" "i < length xs"
  shows "length (filter (\<lambda>x. \<not> x < xs ! i) xs) = length xs - i"
proof -
  have "xs ! j < xs ! i" if "j < i" for j
    using sorted_wrt_nth_less [of "(<)" xs j i] assms that by (simp add: strict_sorted_iff)
  then have "filter (\<lambda>x. \<not> x < xs ! i) (take i xs) = []"
    by (auto simp: filter_empty_conv in_set_conv_nth)
  moreover have "filter (\<lambda>x. \<not> x < xs ! i) (drop i xs) = drop i xs"
    using assms by (auto simp: filter_id_conv in_set_conv_nth not_less sorted_nth_mono)
  moreover have "filter (\<lambda>x. \<not> x < xs ! i) xs =
      filter (\<lambda>x. \<not> x < xs ! i) (take i xs) @ filter (\<lambda>x. \<not> x < xs ! i) (drop i xs)"
    by (metis append_take_drop_id filter_append)
  ultimately show ?thesis by simp
qed

lemma length_filter_sort: "length (filter P (sort xs)) = length (filter P xs)"
  by (metis mset_filter mset_sort size_mset)

lemma drop_before_stamps:
  "map (\<lambda>(k, e). stamp e) (drop_before stamp c m) = filter (\<lambda>t. \<not> t < c) (map (\<lambda>(k, e). stamp e) m)"
  by (induction m) (auto simp: drop_before_def)

lemma cutoff_exists:
  assumes "0 < target" "target \<le> int (length m)"
  obtains c where "cutoff_of stamp target m = Some c"
    and "target \<le> int (length (drop_before stamp c m))"
    and "distinct (map (\<lambda>(k, e). stamp e) m) \<Longrightarrow> int (length (drop_before stamp c m)) = target"
proof -
  let ?st = "map (\<lambda>(k, e). stamp e) m" and ?i = "nat (int (length m) - target)"
  let ?c = "sort ?st ! ?i"
  have i: "?i < length (sort ?st)" "length (sort ?st) - ?i = nat target" using assms by auto
  have len: "length (drop_before stamp ?c m) = length (filter (\<lambda>t. \<not> t < ?c) (sort ?st))"
    by (metis drop_before_stamps length_map length_filter_sort)
  show thesis
  proof (rule that)
    show "cutoff_of stamp target m = Some ?c"
      using assms by (simp add: cutoff_of_def index_def Let_def)
    show "target \<le> int (length (drop_before stamp ?c m))"
      using sorted_above_cutoff [OF _ i(1)] i(2) by (simp add: len)
    show "int (length (drop_before stamp ?c m)) = target" if "distinct ?st"
      using sorted_distinct_above_cutoff [OF _ _ i(1)] i(2) that assms by (simp add: len)
  qed
qed

text \<open>A forced pass does not panic and leaves exactly \<open>target\<close> of the entries.\<close>

lemma drop_oldest_spec:
  assumes "reorders perm" "wf_map m" "0 < target" "target \<le> int (length m)"
  obtains m' where "drop_oldest perm stamp target m = Some m'" "int (length m') = target"
    "set m' \<subseteq> set m" "wf_map m'"
    "distinct (map (\<lambda>(k, e). stamp e) m) \<Longrightarrow> \<exists>c. m' = drop_before stamp c m"
proof -
  from cutoff_exists [OF assms(3,4), of stamp] obtain c where c: "cutoff_of stamp target m = Some c"
    and len: "target \<le> int (length (drop_before stamp c m))"
    and exact: "distinct (map (\<lambda>(k, e). stamp e) m) \<Longrightarrow> int (length (drop_before stamp c m)) = target"
    by blast
  let ?m = "drop_before stamp c m"
  let ?r = "drop_extra target (perm (keys ?m)) ?m"
  have wf: "wf_map ?m" using assms(2) by (rule drop_before_sub)
  have ks: "distinct (perm (keys ?m))" "set (perm (keys ?m)) = set (keys ?m)"
    using wf assms(1) by (auto simp: reorders_set reorders_distinct wf_map_def)
  have lk: "length (perm (keys ?m)) = length ?m"
    using assms(1) unfolding reorders_def by (metis length_map size_mset)
  show thesis
  proof (rule that)
    show "drop_oldest perm stamp target m = Some ?r" by (simp add: drop_oldest_def c Let_def)
    show "int (length ?r) = target"
      using wf ks len assms(3) lk by (intro drop_extra_length) auto
    show "set ?r \<subseteq> set m" using drop_extra_sub(1) drop_before_sub(1) by (rule subset_trans)
    show "wf_map ?r" using wf by (rule drop_extra_sub)
    show "\<exists>c. ?r = drop_before stamp c m" if "distinct (map (\<lambda>(k, e). stamp e) m)"
      using exact [OF that] by (cases "perm (keys ?m)") auto
  qed
qed

text \<open>A map of which entries have been removed.\<close>

definition forgets :: "('k \<times> 'v) list \<Rightarrow> ('k \<times> 'v) list \<Rightarrow> bool" where
  "forgets m m' \<longleftrightarrow> (\<forall>k. map_of m' k \<in> {None, map_of m k})"

lemma forgets_refl [simp]: "forgets m m"
  by (simp add: forgets_def)

lemma forgets_subset: "wf_map m \<Longrightarrow> wf_map m' \<Longrightarrow> set m' \<subseteq> set m \<Longrightarrow> forgets m m'"
  by (auto simp: forgets_def wf_map_def map_of_eq_Some_iff dest!: map_of_SomeD)
     (metis map_of_eq_Some_iff not_None_eq subsetD)

lemma forgets_keys:
  assumes "forgets m m'"
  shows "set (keys m') \<subseteq> set (keys m)"
proof
  fix k assume "k \<in> set (keys m')"
  then have "map_of m' k \<noteq> None" using map_of_None_iff [of m' k] by simp
  then have "map_of m k \<noteq> None" using assms unfolding forgets_def by (metis insertE singletonD)
  then show "k \<in> set (keys m)" using map_of_None_iff [of m k] by (metis (no_types))
qed

lemma set_keys_update: "set (keys (AList.update k v m)) = insert k (set (keys m))"
  by (auto simp: keys_update simp del: set_map)

section \<open>Interface: a bounded map that makes room before it inserts\<close>

text \<open>
  What the caller of \<open>evictLocked\<close> relies on: the pass does not panic, leaves a free slot,
  only removes entries, and counts them. \<open>'p\<close> is what the pass reads besides the state (the
  clock, the range order), of which \<open>legal\<close> says what can occur.
\<close>

locale bounded_map =
  fixes entries :: "'s \<Rightarrow> ('k \<times> 'e) list"
    and cap :: "'s \<Rightarrow> int"
    and reclaimed :: "'s \<Rightarrow> u64"
    and legal :: "'p \<Rightarrow> bool"
    and evict :: "'p \<Rightarrow> 's \<Rightarrow> 's option"
  assumes evict_spec:
    "legal p \<Longrightarrow> wf_map (entries s) \<Longrightarrow> int (length (entries s)) \<le> cap s \<Longrightarrow> 0 < cap s \<Longrightarrow>
     \<exists>s'. evict p s = Some s' \<and> int (length (entries s')) < cap s \<and> set (entries s') \<subseteq> set (entries s) \<and>
       wf_map (entries s') \<and> cap s' = cap s \<and>
       reclaimed s' = reclaimed s + of_nat (length (entries s) - length (entries s'))"
begin

definition bounded :: "'s \<Rightarrow> bool" where
  "bounded s \<longleftrightarrow> wf_map (entries s) \<and> int (length (entries s)) \<le> cap s \<and> 0 < cap s"

lemma evict_then_insert:
  assumes "legal p" "bounded s"
  obtains s' where "evict p s = Some s'" "cap s' = cap s" "bounded s'"
    "int (length (entries s')) < cap s" "set (entries s') \<subseteq> set (entries s)"
    "reclaimed s' = reclaimed s + of_nat (length (entries s) - length (entries s'))"
proof -
  from assms evict_spec [of p s] obtain s' where s': "evict p s = Some s'"
    "int (length (entries s')) < cap s" "set (entries s') \<subseteq> set (entries s)" "wf_map (entries s')"
    "cap s' = cap s" "reclaimed s' = reclaimed s + of_nat (length (entries s) - length (entries s'))"
    by (auto simp: bounded_def)
  with assms(2) show thesis by (intro that [of s']) (auto simp: bounded_def)
qed

lemma bounded_overwrite:
  "bounded s \<Longrightarrow> k \<in> set (keys (entries s)) \<Longrightarrow>
   entries s' = AList.update k e (entries s) \<Longrightarrow> cap s' = cap s \<Longrightarrow> bounded s'"
  by (simp add: bounded_def length_update wf_map_update)

lemma bounded_insert:
  "bounded s \<Longrightarrow> int (length (entries s)) < cap s \<Longrightarrow>
   entries s' = AList.update k e (entries s) \<Longrightarrow> cap s' = cap s \<Longrightarrow> bounded s'"
  by (auto simp: bounded_def length_update wf_map_update)

lemma bounded_same: "bounded s \<Longrightarrow> entries s' = entries s \<Longrightarrow> cap s' = cap s \<Longrightarrow> bounded s'"
  by (simp add: bounded_def)

text \<open>Room is never short while the keys in use fit the bound.\<close>

lemma room:
  assumes "bounded s" "finite K" "int (card K) \<le> cap s" "set (keys (entries s)) \<subseteq> K" "k \<in> K"
    and "k \<notin> set (keys (entries s))"
  shows "int (length (entries s)) < cap s"
proof -
  have "length (entries s) = card (set (keys (entries s)))"
    using assms(1) distinct_card [of "keys (entries s)"] by (simp add: bounded_def wf_map_def)
  also have "\<dots> < card K" using assms by (intro psubset_card_mono) auto
  finally show ?thesis using assms(3) by simp
qed

lemma evict_keys:
  assumes "legal p" "bounded s" "evict p s = Some s'"
  shows "set (keys (entries s')) \<subseteq> set (keys (entries s))"
proof -
  from evict_then_insert [OF assms(1,2)] assms(3) have "set (entries s') \<subseteq> set (entries s)"
    by (metis option.inject)
  then show ?thesis by auto
qed

end

section \<open>Renaming keys\<close>

text \<open>Nothing above looks into a key, so a map whose keys are renamed one to one behaves alike.\<close>

definition rekey :: "('k \<Rightarrow> 'l) \<Rightarrow> ('k \<times> 'e) list \<Rightarrow> ('l \<times> 'e) list" where
  "rekey f m = map (\<lambda>(k, e). (f k, e)) m"

lemma rekey_simps [simp]:
  "rekey f [] = []" "rekey f ((k, e) # m) = (f k, e) # rekey f m"
  "length (rekey f m) = length m" "keys (rekey f m) = map f (keys m)"
  by (simp_all add: rekey_def comp_def split_def)

lemma rekey_map_of: "inj f \<Longrightarrow> map_of (rekey f m) (f k) = map_of m k"
  by (induction m) (auto simp: inj_eq)

lemma rekey_update: "inj f \<Longrightarrow> AList.update (f k) e (rekey f m) = rekey f (AList.update k e m)"
  by (induction m) (auto simp: inj_eq)

lemma rekey_delete: "inj f \<Longrightarrow> AList.delete (f k) (rekey f m) = rekey f (AList.delete k m)"
  by (induction m) (auto simp: inj_eq)

lemma rekey_drop_dead: "drop_dead dead (rekey f m) = rekey f (drop_dead dead m)"
  by (induction m) (auto simp: drop_dead_def)

lemma rekey_drop_before: "drop_before stamp c (rekey f m) = rekey f (drop_before stamp c m)"
  by (induction m) (auto simp: drop_before_def)

lemma rekey_drop_extra:
  "inj f \<Longrightarrow> drop_extra t (map f ks) (rekey f m) = rekey f (drop_extra t ks m)"
  by (induction t ks m rule: drop_extra.induct) (auto simp: rekey_delete)

lemma rekey_cutoff: "cutoff_of stamp t (rekey f m) = cutoff_of stamp t m"
proof -
  have "map (\<lambda>(k, e). stamp e) (rekey f m) = map (\<lambda>(k, e). stamp e) m"
    by (induction m) auto
  then show ?thesis by (simp add: cutoff_of_def)
qed

lemma rekey_drop_oldest:
  assumes "inj f" "\<And>ks. perm' (map f ks) = map f (perm ks)"
  shows "drop_oldest perm' stamp t (rekey f m) = map_option (rekey f) (drop_oldest perm stamp t m)"
proof -
  have "perm' (map (f \<circ> fst) m) = map f (perm (keys m))" for m :: "('a \<times> 'c) list"
    using assms(2) [of "keys m"] by simp
  then show ?thesis
    by (simp add: drop_oldest_def rekey_cutoff rekey_drop_before rekey_drop_extra assms(1) Let_def
        split: option.split)
qed

end
