(* ===== verification/SamplingHandler.thy ===== *)
theory SamplingHandler
  imports Complex_Main HeldOps KeyEviction
begin

text \<open>
  \<open>handler/sampling_handler.go\<close>: sampling of records per key, with a bounded set of keys.

  The state is shared by all handlers derived from one, so it is a value of its own that
  \<open>Handle\<close> takes and returns; the handler holds the configuration. The clock, the random
  source and the order of a map range are inputs of each call. A decision reads and writes the
  state under one mutex, so it is one step. \<open>evictBuf\<close> is scratch space and left out.
\<close>

section \<open>Configuration\<close>

text \<open>A \<open>float64\<close>, as far as comparisons go.\<close>

datatype float64 = NaN | NegInf | Finite rat | PosInf

fun float_less :: "float64 \<Rightarrow> float64 \<Rightarrow> bool" where
  "float_less NaN y = False"
| "float_less x NaN = False"
| "float_less (Finite x) (Finite y) = (x < y)"
| "float_less NegInf y = (y \<noteq> NegInf)"
| "float_less x PosInf = (x \<noteq> PosInf)"
| "float_less PosInf y = False"
| "float_less x NegInf = False"

fun float_eq :: "float64 \<Rightarrow> float64 \<Rightarrow> bool" where
  "float_eq NaN y = False"
| "float_eq x y = (x = y)"

definition float_le :: "float64 \<Rightarrow> float64 \<Rightarrow> bool" where
  "float_le x y = (float_less x y \<or> float_eq x y)"

definition DefaultSamplingMaxKeys :: int where
  "DefaultSamplingMaxKeys = 4096"

definition DefaultSamplingKey :: "slog_record \<Rightarrow> bytes" where
  "DefaultSamplingKey r = level_string (r_level r) @ [CHR 0x00] @ r_message r"

record sampling_config =
  sc_Interval :: duration
  sc_MinLevel :: int
  sc_Probability :: float64
  sc_KeyFunc :: "(slog_record \<Rightarrow> bytes) option"
  sc_MaxKeys :: int

datatype sampling_error =
    IntervalNegative duration
  | ProbabilityRange float64
  | MaxKeysNegative int

definition SamplingConfig_Validate :: "sampling_config \<Rightarrow> sampling_error list" where
  "SamplingConfig_Validate c =
     (let errs = [];
          errs = (if sc_Interval c < 0 then errs @ [IntervalNegative (sc_Interval c)] else errs);
          errs = (if float_less (sc_Probability c) (Finite 0) \<or> float_less (Finite 1) (sc_Probability c)
                  then errs @ [ProbabilityRange (sc_Probability c)] else errs);
          errs = (if sc_MaxKeys c < 0 then errs @ [MaxKeysNegative (sc_MaxKeys c)] else errs)
      in errs)"

section \<open>State and handler\<close>

record sampling_key =
  k_level :: int
  k_text :: bytes

record sampling_state =
  ss_last :: "(sampling_key \<times> time) list"
  ss_maxKeys :: int
  ss_suppressed :: u64
  ss_evicted :: u64

record 'h sampling_handler =
  sh_next :: 'h
  sh_interval :: duration
  sh_minLevel :: int
  sh_probability :: float64
  sh_keyFunc :: "(slog_record \<Rightarrow> bytes) option"

definition newSamplingHandler ::
  "'h \<Rightarrow> sampling_config \<Rightarrow> 'h sampling_handler \<times> sampling_state \<times> sampling_error list" where
  "newSamplingHandler n cfg =
     (let err = SamplingConfig_Validate cfg;
          interval = (if sc_Interval cfg < 0 then 0 else sc_Interval cfg);
          probability = (if float_le (sc_Probability cfg) (Finite 0) \<or> float_less (Finite 1) (sc_Probability cfg)
                         then Finite 1 else sc_Probability cfg);
          maxKeys = (if sc_MaxKeys cfg \<le> 0 then DefaultSamplingMaxKeys else sc_MaxKeys cfg)
      in (\<lparr>sh_next = n, sh_interval = interval, sh_minLevel = sc_MinLevel cfg,
           sh_probability = probability, sh_keyFunc = sc_KeyFunc cfg\<rparr>,
          \<lparr>ss_last = [], ss_maxKeys = maxKeys, ss_suppressed = 0, ss_evicted = 0\<rparr>,
          err))"

definition NewSamplingHandler :: "'h \<Rightarrow> sampling_config \<Rightarrow> 'h sampling_handler \<times> sampling_state" where
  "NewSamplingHandler n cfg = (let (h, s, _) = newSamplingHandler n cfg in (h, s))"

lemma NewSamplingHandler_sel [simp]:
  "fst (NewSamplingHandler n cfg) = fst (newSamplingHandler n cfg)"
  "snd (NewSamplingHandler n cfg) = fst (snd (newSamplingHandler n cfg))"
  by (simp_all add: NewSamplingHandler_def split: prod.split)

definition NewSamplingHandlerWithError ::
  "'h \<Rightarrow> sampling_config \<Rightarrow> 'h sampling_handler \<times> sampling_state \<times> sampling_error list" where
  "NewSamplingHandlerWithError n cfg = newSamplingHandler n cfg"

section \<open>Eviction\<close>

definition evictionTarget :: "int \<Rightarrow> int" where
  "evictionTarget maxKeys = maxKeys - max 1 (maxKeys div 4)"

definition sampling_evictLocked ::
  "(sampling_key list \<Rightarrow> sampling_key list) \<Rightarrow> time \<Rightarrow> duration \<Rightarrow> sampling_state \<Rightarrow> sampling_state option" where
  "sampling_evictLocked perm now interval s =
     (if int (length (ss_last s)) < ss_maxKeys s then Some s
      else (let before = length (ss_last s);
                m = drop_dead (\<lambda>t. time_Sub now t \<ge> interval) (ss_last s)
            in if int (length m) < ss_maxKeys s
               then Some (s\<lparr>ss_last := m, ss_evicted := ss_evicted s + of_nat (before - length m)\<rparr>)
               else (let target = evictionTarget (ss_maxKeys s)
                     in if target = 0
                        then Some (s\<lparr>ss_last := [], ss_evicted := ss_evicted s + of_nat before\<rparr>)
                        else (case drop_oldest perm (\<lambda>t. t) target m of
                                None \<Rightarrow> None
                              | Some m \<Rightarrow>
                                  Some (s\<lparr>ss_last := m,
                                          ss_evicted := ss_evicted s + of_nat (before - length m)\<rparr>)))))"

section \<open>Handle\<close>

definition sampling_key_of :: "'h sampling_handler \<Rightarrow> slog_record \<Rightarrow> sampling_key" where
  "sampling_key_of h r =
     (case sh_keyFunc h of
        None \<Rightarrow> \<lparr>k_level = r_level r, k_text = r_message r\<rparr>
      | Some f \<Rightarrow> \<lparr>k_level = 0, k_text = f r\<rparr>)"

text \<open>What one call reads from outside: the clock, the random source, the range order.\<close>

record sampling_env =
  e_now :: time
  e_rand :: rat
  e_perm :: "sampling_key list \<Rightarrow> sampling_key list"

definition sampling_allow ::
  "'h sampling_handler \<Rightarrow> sampling_env \<Rightarrow> sampling_state \<Rightarrow> slog_record \<Rightarrow> (bool \<times> sampling_state) option" where
  "sampling_allow h e s r =
     (if float_less (sh_probability h) (Finite 1) \<and> float_le (sh_probability h) (Finite (e_rand e))
      then Some (False, s\<lparr>ss_suppressed := ss_suppressed s + 1\<rparr>)
      else if sh_interval h \<le> 0 then Some (True, s)
      else (let key = sampling_key_of h r; now = e_now e
            in case map_of (ss_last s) key of
                 Some seen \<Rightarrow>
                   (let elapsed = time_Sub now seen;
                        elapsed = (if elapsed < 0 then 0 else elapsed)
                    in if elapsed < sh_interval h
                       then Some (False, s\<lparr>ss_suppressed := ss_suppressed s + 1\<rparr>)
                       else Some (True, s\<lparr>ss_last := AList.update key now (ss_last s)\<rparr>))
               | None \<Rightarrow>
                   (case sampling_evictLocked (e_perm e) now (sh_interval h) s of
                      None \<Rightarrow> None
                    | Some s \<Rightarrow> Some (True, s\<lparr>ss_last := AList.update key now (ss_last s)\<rparr>))))"

text \<open>The result says which handler and record the call forwards to, if any.\<close>

definition SamplingHandler_Handle ::
  "'h sampling_handler \<Rightarrow> sampling_env \<Rightarrow> sampling_state \<Rightarrow> slog_record \<Rightarrow>
   (sampling_state \<times> ('h \<times> slog_record) option) option" where
  "SamplingHandler_Handle h e s r =
     (if r_level r < sh_minLevel h then Some (s, Some (sh_next h, r))
      else (case sampling_allow h e s r of
              None \<Rightarrow> None
            | Some (allowed, s) \<Rightarrow>
                if \<not> allowed then Some (s, None) else Some (s, Some (sh_next h, r))))"

definition Suppressed :: "sampling_state \<Rightarrow> u64" where "Suppressed s = ss_suppressed s"
definition Evicted :: "sampling_state \<Rightarrow> u64" where "Evicted s = ss_evicted s"
definition TrackedKeys :: "sampling_state \<Rightarrow> nat" where "TrackedKeys s = length (ss_last s)"

definition SamplingHandler_WithAttrs ::
  "('h \<Rightarrow> attr list \<Rightarrow> 'h) \<Rightarrow> 'h sampling_handler \<Rightarrow> attr list \<Rightarrow> 'h sampling_handler" where
  "SamplingHandler_WithAttrs wa h attrs = h\<lparr>sh_next := wa (sh_next h) attrs\<rparr>"

definition SamplingHandler_WithGroup ::
  "('h \<Rightarrow> bytes \<Rightarrow> 'h) \<Rightarrow> 'h sampling_handler \<Rightarrow> bytes \<Rightarrow> 'h sampling_handler" where
  "SamplingHandler_WithGroup wg h name = h\<lparr>sh_next := wg (sh_next h) name\<rparr>"

text \<open>
  A history: each call goes to some handler derived from the first one, in the order in
  which the calls take the sampler's lock.
\<close>

type_synonym sampling_call = "held_op list \<times> sampling_env \<times> slog_record"

fun sampling_run ::
  "('h \<Rightarrow> attr list \<Rightarrow> 'h) \<Rightarrow> ('h \<Rightarrow> bytes \<Rightarrow> 'h) \<Rightarrow> 'h sampling_handler \<Rightarrow> sampling_state \<Rightarrow>
   sampling_call list \<Rightarrow> (sampling_state \<times> ('h \<times> slog_record) option list) option" where
  "sampling_run wa wg h s [] = Some (s, [])"
| "sampling_run wa wg h s ((ops, e, r) # cs) =
     (case SamplingHandler_Handle
             (derive (SamplingHandler_WithAttrs wa) (SamplingHandler_WithGroup wg) h ops) e s r of
        None \<Rightarrow> None
      | Some (s', out) \<Rightarrow>
          (case sampling_run wa wg h s' cs of
             None \<Rightarrow> None
           | Some (s'', outs) \<Rightarrow> Some (s'', out # outs)))"

section \<open>The bound\<close>

lemma evictionTarget_bounds: "0 < m \<Longrightarrow> 0 \<le> evictionTarget m \<and> evictionTarget m < m"
  by (simp add: evictionTarget_def max_def) presburger

lemma sampling_evict_spec:
  assumes "reorders perm" "wf_map (ss_last s)" "int (length (ss_last s)) \<le> ss_maxKeys s" "0 < ss_maxKeys s"
  shows "\<exists>s'. sampling_evictLocked perm now interval s = Some s' \<and>
    int (length (ss_last s')) < ss_maxKeys s \<and> set (ss_last s') \<subseteq> set (ss_last s) \<and>
    wf_map (ss_last s') \<and> ss_maxKeys s' = ss_maxKeys s \<and>
    ss_evicted s' = ss_evicted s + of_nat (length (ss_last s) - length (ss_last s'))"
proof -
  let ?m = "drop_dead (\<lambda>t. time_Sub now t \<ge> interval) (ss_last s)"
  let ?t = "evictionTarget (ss_maxKeys s)"
  note t = evictionTarget_bounds [OF assms(4)]
  note dead = drop_dead_sub [where dead = "\<lambda>t. time_Sub now t \<ge> interval" and m = "ss_last s"]
  consider "int (length (ss_last s)) < ss_maxKeys s" | "\<not> int (length (ss_last s)) < ss_maxKeys s"
      "int (length ?m) < ss_maxKeys s"
    | "\<not> int (length (ss_last s)) < ss_maxKeys s" "\<not> int (length ?m) < ss_maxKeys s" "?t = 0"
    | "\<not> int (length (ss_last s)) < ss_maxKeys s" "\<not> int (length ?m) < ss_maxKeys s" "0 < ?t"
    using t by linarith
  then show ?thesis
  proof cases
    case 4
    have "?t \<le> int (length ?m)" using 4 t by linarith
    from drop_oldest_spec [OF assms(1) dead(2) [OF assms(2)] 4(3) this, of "\<lambda>t. t"]
    obtain m' where m': "drop_oldest perm (\<lambda>t. t) ?t ?m = Some m'" "int (length m') = ?t"
      "set m' \<subseteq> set ?m" "wf_map m'"
      by blast
    then have "set m' \<subseteq> set (ss_last s)" using dead(1) by blast
    with 4 m' t show ?thesis by (simp add: sampling_evictLocked_def Let_def)
  qed (use assms dead in \<open>simp_all add: sampling_evictLocked_def Let_def\<close>)
qed


fun sampling_legal :: "(sampling_key list \<Rightarrow> sampling_key list) \<times> time \<times> duration \<Rightarrow> bool" where
  "sampling_legal (perm, now, interval) = reorders perm"

interpretation sampling_map: bounded_map ss_last ss_maxKeys ss_evicted sampling_legal
  "\<lambda>(perm, now, interval). sampling_evictLocked perm now interval"
  by unfold_locales (clarsimp simp: sampling_evict_spec)

lemma sampling_evict:
  assumes "reorders perm" "sampling_map.bounded s"
  obtains s' where "sampling_evictLocked perm now interval s = Some s'"
    "ss_maxKeys s' = ss_maxKeys s" "sampling_map.bounded s'"
    "int (length (ss_last s')) < ss_maxKeys s" "set (ss_last s') \<subseteq> set (ss_last s)"
    "ss_suppressed s' = ss_suppressed s"
    "ss_evicted s' = ss_evicted s + of_nat (length (ss_last s) - length (ss_last s'))"
proof -
  have legal: "sampling_legal (perm, now, interval)" using assms(1) by simp
  from sampling_map.evict_then_insert [OF legal assms(2)] obtain s' where
    s': "sampling_evictLocked perm now interval s = Some s'"
    "ss_maxKeys s' = ss_maxKeys s" "sampling_map.bounded s'"
    "int (length (ss_last s')) < ss_maxKeys s" "set (ss_last s') \<subseteq> set (ss_last s)"
    "ss_evicted s' = ss_evicted s + of_nat (length (ss_last s) - length (ss_last s'))"
    by auto
  have "ss_suppressed s' = ss_suppressed s"
    using s'(1) by (auto simp: sampling_evictLocked_def Let_def split: if_splits option.splits)
  with s' show thesis by (intro that)
qed

text \<open>The gate that needs no state, and one decision on every branch.\<close>

definition gated :: "'h sampling_handler \<Rightarrow> sampling_env \<Rightarrow> bool" where
  "gated h e \<longleftrightarrow> float_less (sh_probability h) (Finite 1) \<and> float_le (sh_probability h) (Finite (e_rand e))"

definition sampling_admits :: "'h sampling_handler \<Rightarrow> sampling_env \<Rightarrow> sampling_state \<Rightarrow> slog_record \<Rightarrow> bool" where
  "sampling_admits h e s r \<longleftrightarrow> \<not> gated h e \<and> (sh_interval h \<le> 0 \<or>
     (case map_of (ss_last s) (sampling_key_of h r) of
        None \<Rightarrow> True
      | Some t \<Rightarrow> sh_interval h \<le> max 0 (time_Sub (e_now e) t)))"

lemma sampling_allow_cases:
  assumes "sampling_map.bounded s" "reorders (e_perm e)"
  shows "\<exists>s'. sampling_allow h e s r = Some (sampling_admits h e s r, s') \<and>
    sampling_map.bounded s' \<and> ss_maxKeys s' = ss_maxKeys s \<and>
    ss_suppressed s' = ss_suppressed s + (if sampling_admits h e s r then 0 else 1) \<and>
    (if sampling_admits h e s r \<and> 0 < sh_interval h
     then \<exists>m. forgets (ss_last s) m \<and> (sampling_key_of h r \<in> set (keys (ss_last s)) \<longrightarrow> m = ss_last s) \<and>
            (int (length (ss_last s)) < ss_maxKeys s \<longrightarrow> m = ss_last s) \<and>
            ss_last s' = AList.update (sampling_key_of h r) (e_now e) m
     else ss_last s' = ss_last s)"
proof -
  let ?k = "sampling_key_of h r" and ?n = "e_now e"
  let ?sup = "s\<lparr>ss_suppressed := ss_suppressed s + 1\<rparr>"
  have sup: "sampling_map.bounded ?sup"
    by (rule sampling_map.bounded_same [OF assms(1)]) simp_all
  consider (gated) "gated h e" | (off) "\<not> gated h e" "sh_interval h \<le> 0"
    | (fresh) "\<not> gated h e" "0 < sh_interval h" "map_of (ss_last s) ?k = None"
    | (hit) t where "\<not> gated h e" "0 < sh_interval h" "map_of (ss_last s) ?k = Some t"
    by (metis not_None_eq not_le)
  then show ?thesis
  proof cases
    case gated
    then show ?thesis using sup by (simp add: sampling_allow_def gated_def sampling_admits_def)
  next
    case off
    then show ?thesis using assms(1) by (simp add: sampling_allow_def gated_def sampling_admits_def)
  next
    case fresh
    then have adm: "sampling_admits h e s r" by (simp add: sampling_admits_def)
    from sampling_evict [OF assms(2,1), of ?n "sh_interval h"] obtain s' where
      s': "sampling_evictLocked (e_perm e) ?n (sh_interval h) s = Some s'"
        "ss_maxKeys s' = ss_maxKeys s" "sampling_map.bounded s'" "int (length (ss_last s')) < ss_maxKeys s'"
        "set (ss_last s') \<subseteq> set (ss_last s)" "ss_suppressed s' = ss_suppressed s"
      by (metis (no_types, lifting))
    have f: "forgets (ss_last s) (ss_last s')"
      using s'(3,5) assms(1) by (intro forgets_subset) (auto simp: sampling_map.bounded_def)
    have "int (length (ss_last s)) < ss_maxKeys s \<longrightarrow> ss_last s' = ss_last s"
      using s'(1) by (auto simp: sampling_evictLocked_def)
    moreover have "sampling_map.bounded (s'\<lparr>ss_last := AList.update ?k ?n (ss_last s')\<rparr>)"
      by (rule sampling_map.bounded_insert [OF s'(3,4)]) simp_all
    moreover have "?k \<notin> set (keys (ss_last s))" using fresh(3) by (simp add: map_of_None_iff)
    ultimately show ?thesis using s' f fresh adm
      by (simp add: sampling_allow_def gated_def Let_def) blast
  next
    case hit
    then have k: "?k \<in> set (keys (ss_last s))" using map_of_None_iff [of "ss_last s" ?k] by auto
    show ?thesis
    proof (cases "sh_interval h \<le> max 0 (time_Sub ?n t)")
      case True
      have "sampling_map.bounded (s\<lparr>ss_last := AList.update ?k ?n (ss_last s)\<rparr>)"
        by (rule sampling_map.bounded_overwrite [OF assms(1) k]) simp_all
      moreover have "sampling_admits h e s r" using True hit by (simp add: sampling_admits_def)
      moreover have "sampling_allow h e s r =
          Some (True, s\<lparr>ss_last := AList.update ?k ?n (ss_last s)\<rparr>)"
        using True hit by (simp add: sampling_allow_def gated_def Let_def max_def split: if_splits)
      ultimately show ?thesis using hit by (auto intro: exI [of _ "ss_last s"])
    next
      case False
      then have "\<not> sampling_admits h e s r" using hit by (simp add: sampling_admits_def)
      moreover have "sampling_allow h e s r = Some (False, ?sup)"
        using False hit by (simp add: sampling_allow_def gated_def Let_def max_def split: if_splits)
      ultimately show ?thesis using sup by simp
    qed
  qed
qed

section \<open>Histories\<close>

lemma sampling_derive:
  "derive (SamplingHandler_WithAttrs wa) (SamplingHandler_WithGroup wg) h ops =
   h\<lparr>sh_next := derive wa wg (sh_next h) ops\<rparr>"
proof (induction ops arbitrary: h)
  case (Cons op ops)
  then show ?case
    by (cases op) (simp_all add: SamplingHandler_WithAttrs_def SamplingHandler_WithGroup_def)
qed simp

lemma sampling_key_alike [simp]: "sampling_key_of (h\<lparr>sh_next := n\<rparr>) r = sampling_key_of h r"
  by (simp add: sampling_key_of_def)

lemma sampling_decides_alike [simp]:
  "sampling_admits (h\<lparr>sh_next := n\<rparr>) e s r = sampling_admits h e s r"
  "sampling_allow (h\<lparr>sh_next := n\<rparr>) e s r = sampling_allow h e s r"
  by (simp_all add: sampling_admits_def gated_def sampling_allow_def cong: option.case_cong)

text \<open>What a call forwards, and whether it does.\<close>

definition forwards :: "'h sampling_handler \<Rightarrow> sampling_env \<Rightarrow> sampling_state \<Rightarrow> slog_record \<Rightarrow> bool" where
  "forwards h e s r \<longleftrightarrow> r_level r < sh_minLevel h \<or> sampling_admits h e s r"

definition keyed :: "'h sampling_handler \<Rightarrow> sampling_call \<Rightarrow> bool" where
  "keyed h c \<longleftrightarrow> sh_minLevel h \<le> r_level (snd (snd c))"

definition call_key :: "'h sampling_handler \<Rightarrow> sampling_call \<Rightarrow> sampling_key" where
  "call_key h c = sampling_key_of h (snd (snd c))"

definition legal_calls :: "sampling_call list \<Rightarrow> bool" where
  "legal_calls cs \<longleftrightarrow> list_all (\<lambda>(ops, e, r). reorders (e_perm e)) cs"

lemma legal_calls_Cons [simp]:
  "legal_calls ((ops, e, r) # cs) \<longleftrightarrow> reorders (e_perm e) \<and> legal_calls cs"
  by (simp add: legal_calls_def)

lemma sampling_handle_cases:
  assumes "sampling_map.bounded s" "reorders (e_perm e)"
  shows "\<exists>s'. SamplingHandler_Handle h e s r =
      Some (s', if forwards h e s r then Some (sh_next h, r) else None) \<and>
    sampling_map.bounded s' \<and> ss_maxKeys s' = ss_maxKeys s \<and>
    ss_suppressed s' = ss_suppressed s + (if forwards h e s r then 0 else 1) \<and>
    (if sh_minLevel h \<le> r_level r \<and> forwards h e s r \<and> 0 < sh_interval h
     then \<exists>m. forgets (ss_last s) m \<and> (sampling_key_of h r \<in> set (keys (ss_last s)) \<longrightarrow> m = ss_last s) \<and>
            (int (length (ss_last s)) < ss_maxKeys s \<longrightarrow> m = ss_last s) \<and>
            ss_last s' = AList.update (sampling_key_of h r) (e_now e) m
     else ss_last s' = ss_last s)"
proof (cases "r_level r < sh_minLevel h")
  case True
  with assms show ?thesis by (simp add: SamplingHandler_Handle_def forwards_def)
next
  case False
  from sampling_allow_cases [OF assms, of h r] False show ?thesis
    by (auto simp: SamplingHandler_Handle_def forwards_def)
qed

lemma sampling_run_bounded:
  assumes "sampling_map.bounded s" "legal_calls cs"
  shows "\<exists>s' outs. sampling_run wa wg h s cs = Some (s', outs) \<and> sampling_map.bounded s' \<and>
    ss_maxKeys s' = ss_maxKeys s \<and> length outs = length cs \<and>
    ss_suppressed s' = ss_suppressed s + of_nat (length (filter (\<lambda>out. out = None) outs)) \<and>
    list_all2 (\<lambda>(ops, e, r) out. out \<in> {None, Some (derive wa wg (sh_next h) ops, r)}) cs outs"
  using assms
proof (induction cs arbitrary: s)
  case (Cons c cs)
  obtain ops e r where c: "c = (ops, e, r)" by (cases c)
  let ?h = "derive (SamplingHandler_WithAttrs wa) (SamplingHandler_WithGroup wg) h ops"
  let ?out = "if forwards ?h e s r then Some (sh_next ?h, r) else None"
  from Cons.prems have "reorders (e_perm e)" "legal_calls cs" by (simp_all add: c)
  from sampling_handle_cases [OF Cons.prems(1) this(1), of ?h r] obtain s1 where
    s1: "SamplingHandler_Handle ?h e s r = Some (s1, ?out)" "sampling_map.bounded s1"
      "ss_maxKeys s1 = ss_maxKeys s"
      "ss_suppressed s1 = ss_suppressed s + (if forwards ?h e s r then 0 else 1)"
    by blast
  from Cons.IH [OF s1(2) \<open>legal_calls cs\<close>] s1 show ?case
    by (auto simp: c sampling_derive)
qed simp

lemma sampling_new_bounded:
  assumes "newSamplingHandler n cfg = (h, s, errs)"
  shows "sampling_map.bounded s" "ss_last s = []" "ss_suppressed s = 0"
    "ss_maxKeys s = (if sc_MaxKeys cfg \<le> 0 then DefaultSamplingMaxKeys else sc_MaxKeys cfg)"
    "sh_minLevel h = sc_MinLevel cfg" "sh_interval h = max 0 (sc_Interval cfg)"
    "sh_keyFunc h = sc_KeyFunc cfg" "sh_next h = n"
  using assms
  by (auto simp: newSamplingHandler_def Let_def sampling_map.bounded_def DefaultSamplingMaxKeys_def)

text \<open>
  C38. The sampler never panics and never tracks more keys than its bound, whatever the
  configuration (a non-positive \<open>MaxKeys\<close> means 4096), the clock, the random source, the
  order of the map ranges and the history of calls on handlers derived from it.
\<close>

theorem sampling_bounded:
  assumes "newSamplingHandler n cfg = (h, s, errs)" "legal_calls cs"
  shows "\<exists>s' outs. sampling_run wa wg h s cs = Some (s', outs) \<and>
    int (TrackedKeys s') \<le> (if sc_MaxKeys cfg \<le> 0 then 4096 else sc_MaxKeys cfg)"
proof -
  note new = sampling_new_bounded [OF assms(1)]
  from sampling_run_bounded [OF new(1) assms(2), of wa wg h] new(4) show ?thesis
    by (auto simp: sampling_map.bounded_def TrackedKeys_def DefaultSamplingMaxKeys_def)
qed

definition sampling_example :: sampling_config where
  "sampling_example = \<lparr>sc_Interval = 10, sc_MinLevel = 0, sc_Probability = Finite 0,
     sc_KeyFunc = None, sc_MaxKeys = 2\<rparr>"

abbreviation example_call :: "time \<Rightarrow> bytes \<Rightarrow> sampling_call" where
  "example_call t m \<equiv> ([], \<lparr>e_now = t, e_rand = 0, e_perm = (\<lambda>ks. ks)\<rparr>, NewRecord t 4 m 0)"

lemmas sampling_eval = sampling_example_def newSamplingHandler_def SamplingConfig_Validate_def
  SamplingHandler_Handle_def sampling_allow_def sampling_key_of_def sampling_evictLocked_def
  NewRecord_def float_le_def Let_def time_Sub_def maxDuration_def minDuration_def

theorem sampling_bounded_witness:
  "\<exists>s' outs. sampling_run TestHandler_WithAttrs TestHandler_WithGroup
       (fst (newSamplingHandler NewTestHandler sampling_example))
       (fst (snd (newSamplingHandler NewTestHandler sampling_example)))
       [example_call 1 ''a'', example_call 2 ''b'', example_call 3 ''c''] = Some (s', outs) \<and>
     int (TrackedKeys s') \<le> 2"
proof -
  have legal: "legal_calls [example_call 1 ''a'', example_call 2 ''b'', example_call 3 ''c'']"
    by (simp add: legal_calls_def)
  obtain h s errs where new: "newSamplingHandler NewTestHandler sampling_example = (h, s, errs)"
    by (metis surj_pair)
  from sampling_bounded [OF new legal, of TestHandler_WithAttrs TestHandler_WithGroup]
  show ?thesis by (simp add: new) (simp add: sampling_example_def)
qed

text \<open>
  C37. Nothing is lost uncounted: every call yields one outcome, what is forwarded is the
  call's own record to the handler it was made on, and \<open>Suppressed\<close> is the number of calls that
  forwarded nothing (modulo its 64 bits).
\<close>

theorem sampling_counts_every_drop:
  assumes "newSamplingHandler n cfg = (h, s, errs)" "legal_calls cs"
    and "sampling_run wa wg h s cs = Some (s', outs)"
  shows "Suppressed s' = of_nat (length (filter (\<lambda>out. out = None) outs)) \<and>
    list_all2 (\<lambda>(ops, e, r) out. out \<in> {None, Some (derive wa wg n ops, r)}) cs outs"
proof -
  note new = sampling_new_bounded [OF assms(1)]
  from sampling_run_bounded [OF new(1) assms(2), of wa wg h] assms(3) new show ?thesis
    by (auto simp: Suppressed_def)
qed

theorem sampling_counts_every_drop_witness:
  "\<exists>s' outs. sampling_run TestHandler_WithAttrs TestHandler_WithGroup
       (fst (newSamplingHandler NewTestHandler sampling_example))
       (fst (snd (newSamplingHandler NewTestHandler sampling_example)))
       [example_call 1 ''a'', example_call 2 ''a''] = Some (s', outs) \<and>
     outs = [Some (NewTestHandler, NewRecord 1 4 ''a'' 0), None] \<and> Suppressed s' = 1"
proof -
  let ?cs = "[example_call 1 ''a'', example_call 2 ''a'']"
  have legal: "legal_calls ?cs" by (simp add: legal_calls_def)
  obtain h s errs where new: "newSamplingHandler NewTestHandler sampling_example = (h, s, errs)"
    by (metis surj_pair)
  obtain s' where run: "sampling_run TestHandler_WithAttrs TestHandler_WithGroup h s ?cs =
      Some (s', [Some (NewTestHandler, NewRecord 1 4 ''a'' 0), None])"
    using new by (auto simp: sampling_eval)
  from sampling_counts_every_drop [OF new legal run] show ?thesis using run by (simp add: new)
qed

section \<open>Spacing\<close>

text \<open>The key and time of each sampled call that was forwarded.\<close>

definition emissions ::
  "'h sampling_handler \<Rightarrow> sampling_call list \<Rightarrow> 'o option list \<Rightarrow> (sampling_key \<times> time) list" where
  "emissions h cs outs =
     map (\<lambda>(c, out). (call_key h c, e_now (fst (snd c))))
       (filter (\<lambda>(c, out). keyed h c \<and> out \<noteq> None) (zip cs outs))"

definition spaced :: "duration \<Rightarrow> (sampling_key \<times> time) list \<Rightarrow> bool" where
  "spaced d ems \<longleftrightarrow> sorted_wrt (\<lambda>(k, t) (k', t'). k = k' \<longrightarrow> d \<le> t' - t) ems"

lemma sampling_run_spaced:
  assumes "sampling_map.bounded s" "legal_calls cs" "0 < sh_interval h" "sh_interval h \<le> maxDuration"
    and "finite K" "int (card K) \<le> ss_maxKeys s" "call_key h ` set cs \<subseteq> K" "set (keys (ss_last s)) \<subseteq> K"
    and "sampling_run wa wg h s cs = Some (s', outs)"
  shows "spaced (sh_interval h) (emissions h cs outs) \<and>
    (\<forall>(k, t) \<in> set (emissions h cs outs). \<forall>t0. map_of (ss_last s) k = Some t0 \<longrightarrow> sh_interval h \<le> t - t0)"
  using assms
proof (induction cs arbitrary: s outs)
  case Nil
  then show ?case by (auto simp: emissions_def spaced_def)
next
  case (Cons c cs)
  obtain ops e r where c: "c = (ops, e, r)" by (cases c)
  let ?h = "derive (SamplingHandler_WithAttrs wa) (SamplingHandler_WithGroup wg) h ops"
  let ?k = "sampling_key_of h r" and ?n = "e_now e"
  have alike: "forwards ?h e s r = forwards h e s r" "sampling_key_of ?h r = ?k"
    "sh_minLevel ?h = sh_minLevel h" "sh_interval ?h = sh_interval h"
    by (simp_all add: sampling_derive forwards_def)
  from Cons.prems have legal: "reorders (e_perm e)" "legal_calls cs" by (simp_all add: c)
  from sampling_handle_cases [OF Cons.prems(1) legal(1), of ?h r, unfolded alike] obtain s1 where
    s1: "SamplingHandler_Handle ?h e s r = Some (s1, if forwards h e s r then Some (sh_next ?h, r) else None)"
      "sampling_map.bounded s1" "ss_maxKeys s1 = ss_maxKeys s"
    and last: "if sh_minLevel h \<le> r_level r \<and> forwards h e s r \<and> 0 < sh_interval h
     then \<exists>m. forgets (ss_last s) m \<and> (?k \<in> set (keys (ss_last s)) \<longrightarrow> m = ss_last s) \<and>
            (int (length (ss_last s)) < ss_maxKeys s \<longrightarrow> m = ss_last s) \<and>
            ss_last s1 = AList.update ?k ?n m
     else ss_last s1 = ss_last s"
    by blast
  from Cons.prems(9) s1(1) obtain outs' where
    run: "sampling_run wa wg h s1 cs = Some (s', outs')"
    and outs: "outs = (if forwards h e s r then Some (sh_next ?h, r) else None) # outs'"
    by (auto simp: c split: option.splits)
  have kK: "?k \<in> K" "call_key h ` set cs \<subseteq> K" using Cons.prems(7) by (auto simp: c call_key_def)
  have cardK: "int (card K) \<le> ss_maxKeys s1" using Cons.prems(6) s1(3) by simp
  note IH = Cons.IH [OF s1(2) legal(2) Cons.prems(3-5) cardK kK(2) _ run]
  show ?case
  proof (cases "sh_minLevel h \<le> r_level r \<and> forwards h e s r")
    case False
    then have "ss_last s1 = ss_last s" "emissions h (c # cs) outs = emissions h cs outs'"
      using last by (auto simp: outs emissions_def keyed_def c split: if_splits)
    with IH Cons.prems(8) show ?thesis by simp
  next
    case True
    then have adm: "sampling_admits h e s r" by (auto simp: forwards_def)
    have room: "int (length (ss_last s)) < ss_maxKeys s" if "?k \<notin> set (keys (ss_last s))"
      using sampling_map.room [OF Cons.prems(1,5,6,8) kK(1) that] .
    have upd: "ss_last s1 = AList.update ?k ?n (ss_last s)"
      using last True Cons.prems(3) room by auto
    then have "set (keys (ss_last s1)) \<subseteq> K" using kK(1) Cons.prems(8) by (simp add: keys_update)
    note later = IH [OF this]
    have ems: "emissions h (c # cs) outs = (?k, ?n) # emissions h cs outs'"
      using True by (simp add: outs emissions_def keyed_def call_key_def c)
    have first: "sh_interval h \<le> ?n - t0" if "map_of (ss_last s) ?k = Some t0" for t0
    proof -
      have "sh_interval h \<le> max 0 (time_Sub ?n t0)"
        using adm that Cons.prems(3) by (simp add: sampling_admits_def)
      then show ?thesis
        using Cons.prems(3,4) time_Sub_less [of "sh_interval h" ?n t0]
        by (auto simp: max_def minDuration_def not_less split: if_splits)
    qed
    show ?thesis
      unfolding ems using later first Cons.prems(3)
      by (fastforce simp: spaced_def upd map_of_update split: if_splits)
  qed
qed

text \<open>
  C11. The purpose of the sampler: as long as no more keys are in use than it tracks, two
  forwarded records of one key are at least the interval apart, in the order in which they
  were decided and whatever the clock does (it may stand still or go backwards).
\<close>

theorem sampling_spaces_emissions:
  assumes "newSamplingHandler n cfg = (h, s, errs)" "legal_calls cs"
    and "0 < sc_Interval cfg" "sc_Interval cfg \<le> maxDuration"
    and "int (card (call_key h ` set cs)) \<le> ss_maxKeys s"
    and "sampling_run wa wg h s cs = Some (s', outs)"
  shows "spaced (sc_Interval cfg) (emissions h cs outs)"
proof -
  note new = sampling_new_bounded [OF assms(1)]
  have "sh_interval h = sc_Interval cfg" using new(6) assms(3) by simp
  with sampling_run_spaced [OF new(1) assms(2) _ _ _ assms(5) _ _ assms(6)] new(2) assms(3,4)
  show ?thesis by simp
qed

theorem sampling_spaces_emissions_witness:
  "let (h, s, errs) = newSamplingHandler () sampling_example;
       cs = [example_call 1 ''a'', example_call 5 ''a'', example_call 11 ''a'', example_call 3 ''a'']
   in \<exists>s' outs. sampling_run (\<lambda>h _. h) (\<lambda>h _. h) h s cs = Some (s', outs) \<and>
     map snd (emissions h cs outs) = [1, 11] \<and> spaced 10 (emissions h cs outs)"
proof -
  let ?cs = "[example_call 1 ''a'', example_call 5 ''a'', example_call 11 ''a'', example_call 3 ''a'']"
  have legal: "legal_calls ?cs" by (simp add: legal_calls_def)
  obtain h s errs where new: "newSamplingHandler () sampling_example = (h, s, errs)"
    by (metis surj_pair)
  obtain s' outs where run: "sampling_run (\<lambda>h _. h) (\<lambda>h _. h) h s ?cs = Some (s', outs)"
    and ems: "map snd (emissions h ?cs outs) = [1, 11]"
    using new by (auto simp: sampling_eval emissions_def keyed_def)
  have "int (card (call_key h ` set ?cs)) \<le> ss_maxKeys s"
    using new by (auto simp: sampling_eval call_key_def)
  from sampling_spaces_emissions [OF new legal _ _ this run] ems run new show ?thesis
    by (simp add: sampling_example_def maxDuration_def)
qed

section \<open>Never silent by mistake\<close>

text \<open>
  A misconfigured sampler fails toward emitting: with a non-positive interval and a
  probability that is unset, negative, above one, infinite or not a number, every call forwards
  its record and no key is tracked.
\<close>

theorem sampling_misconfigured_emits:
  assumes "sc_Interval cfg \<le> 0" "\<nexists>p. sc_Probability cfg = Finite p \<and> 0 < p \<and> p < 1"
    and "newSamplingHandler n cfg = (h, s, errs)"
  shows "sampling_run wa wg h s cs =
    Some (s, map (\<lambda>(ops, e, r). Some (derive wa wg n ops, r)) cs)"
proof -
  have "\<not> float_less (sh_probability h) (Finite 1)"
    using assms(2,3)
    by (cases "sc_Probability cfg")
       (auto simp: newSamplingHandler_def Let_def float_le_def not_less split: if_splits)
  moreover have "sh_interval h \<le> 0" "sh_next h = n"
    using sampling_new_bounded [OF assms(3)] assms(1) by simp_all
  ultimately have step: "SamplingHandler_Handle
      (derive (SamplingHandler_WithAttrs wa) (SamplingHandler_WithGroup wg) h ops) e s r =
      Some (s, Some (derive wa wg n ops, r))" for ops e r
    by (simp add: sampling_derive SamplingHandler_Handle_def) (simp add: sampling_allow_def)
  show ?thesis by (induction cs) (auto simp: step)
qed

theorem sampling_misconfigured_emits_witness:
  "let (h, s, errs) = newSamplingHandler () \<lparr>sc_Interval = -1, sc_MinLevel = 0,
         sc_Probability = NaN, sc_KeyFunc = None, sc_MaxKeys = 0\<rparr>
   in errs = [IntervalNegative (-1)] \<and>
      sampling_run (\<lambda>h _. h) (\<lambda>h _. h) h s [example_call 1 ''a'', example_call 1 ''a''] =
      Some (s, [Some ((), NewRecord 1 4 ''a'' 0), Some ((), NewRecord 1 4 ''a'' 0)])"
proof -
  let ?cfg = "\<lparr>sc_Interval = -1, sc_MinLevel = 0, sc_Probability = NaN, sc_KeyFunc = None, sc_MaxKeys = 0\<rparr>"
  obtain h s errs where new: "newSamplingHandler () ?cfg = (h, s, errs)"
    by (metis surj_pair)
  have "sc_Interval ?cfg \<le> 0" "\<nexists>p. sc_Probability ?cfg = Finite p \<and> 0 < p \<and> p < 1" by simp_all
  from sampling_misconfigured_emits [OF this new, of "\<lambda>h _. h" "\<lambda>h _. h"
      "[example_call 1 ''a'', example_call 1 ''a'']"]
  show ?thesis using new
    by (auto simp: newSamplingHandler_def SamplingConfig_Validate_def Let_def)
qed

text \<open>The keys a run leaves in the map were there before or belong to its calls.\<close>

lemma sampling_step_keys:
  assumes "sampling_map.bounded s" "reorders (e_perm e)"
    and "SamplingHandler_Handle h e s r = Some (s', out)"
  shows "set (keys (ss_last s')) \<subseteq> insert (sampling_key_of h r) (set (keys (ss_last s)))"
proof -
  from sampling_handle_cases [OF assms(1,2), of h r] assms(3) obtain m where
    "forgets (ss_last s) m"
    "ss_last s' = ss_last s \<or> ss_last s' = AList.update (sampling_key_of h r) (e_now e) m"
    by (metis (no_types, lifting) forgets_refl option.inject prod.inject)
  then show ?thesis using forgets_keys [of "ss_last s" m] by (auto simp: set_keys_update simp del: set_map)
qed

lemma sampling_run_append:
  "sampling_run wa wg h s (cs @ ds) =
     (case sampling_run wa wg h s cs of
        None \<Rightarrow> None
      | Some (s', outs) \<Rightarrow>
          (case sampling_run wa wg h s' ds of
             None \<Rightarrow> None
           | Some (s'', outs') \<Rightarrow> Some (s'', outs @ outs')))"
  by (induction cs arbitrary: s) (auto split: option.splits)

lemma sampling_run_keys:
  assumes "sampling_map.bounded s" "legal_calls cs" "sampling_run wa wg h s cs = Some (s', outs)"
  shows "set (keys (ss_last s')) \<subseteq> set (keys (ss_last s)) \<union> call_key h ` set cs \<and>
    sampling_map.bounded s' \<and> length outs = length cs"
  using assms
proof (induction cs arbitrary: s outs)
  case (Cons c cs)
  obtain ops e r where c: "c = (ops, e, r)" by (cases c)
  let ?h = "derive (SamplingHandler_WithAttrs wa) (SamplingHandler_WithGroup wg) h ops"
  from Cons.prems(3) obtain s1 out outs' where
    step: "SamplingHandler_Handle ?h e s r = Some (s1, out)"
    and run: "sampling_run wa wg h s1 cs = Some (s', outs')" and outs: "outs = out # outs'"
    by (auto simp: c split: option.splits)
  have legal: "reorders (e_perm e)" "legal_calls cs" using Cons.prems(2) by (simp_all add: c)
  have b: "sampling_map.bounded s1"
    using sampling_handle_cases [OF Cons.prems(1) legal(1), of ?h r] step by auto
  have "sampling_key_of ?h r = call_key h c" by (simp add: sampling_derive call_key_def c)
  with sampling_step_keys [OF Cons.prems(1) legal(1) step]
  have "set (keys (ss_last s1)) \<subseteq> insert (call_key h c) (set (keys (ss_last s)))" by simp
  with Cons.IH [OF b legal(2) run] outs show ?case by (auto simp del: set_map)
qed simp

text \<open>
  One event cannot silence another: with no probability gate, a call whose key no earlier
  call used is forwarded, however many other keys were suppressed or evicted before it.
\<close>

theorem sampling_distinct_events_independent:
  assumes "newSamplingHandler n cfg = (h, s, errs)" "legal_calls (cs @ [c])"
    and "\<nexists>p. sc_Probability cfg = Finite p \<and> 0 < p \<and> p < 1" "call_key h c \<notin> call_key h ` set cs"
  shows "\<exists>s' outs n'. sampling_run wa wg h s (cs @ [c]) = Some (s', outs @ [Some (n', snd (snd c))])"
proof -
  note new = sampling_new_bounded [OF assms(1)]
  obtain ops e r where c: "c = (ops, e, r)" by (cases c)
  let ?h = "derive (SamplingHandler_WithAttrs wa) (SamplingHandler_WithGroup wg) h ops"
  have legal: "legal_calls cs" "reorders (e_perm e)" using assms(2) by (simp_all add: legal_calls_def c)
  from sampling_run_bounded [OF new(1) legal(1), of wa wg h] obtain s1 outs where
    run: "sampling_run wa wg h s cs = Some (s1, outs)" by blast
  from sampling_run_keys [OF new(1) legal(1) run] new(2) assms(4)
  have b: "sampling_map.bounded s1" and k: "map_of (ss_last s1) (sampling_key_of h r) = None"
    by (auto simp: map_of_None_iff call_key_def c)
  have "\<not> float_less (sh_probability h) (Finite 1)"
    using assms(1,3)
    by (cases "sc_Probability cfg")
       (auto simp: newSamplingHandler_def Let_def float_le_def not_less split: if_splits)
  then have "forwards ?h e s1 r"
    using k by (simp add: sampling_derive forwards_def sampling_admits_def gated_def)
  with sampling_handle_cases [OF b legal(2), of ?h r] obtain s2 where
    "SamplingHandler_Handle ?h e s1 r = Some (s2, Some (sh_next ?h, r))" by auto
  then show ?thesis by (auto simp: sampling_run_append run c)
qed

theorem sampling_distinct_events_independent_witness:
  "let (h, s, errs) = newSamplingHandler () sampling_example
   in \<exists>s' outs. sampling_run (\<lambda>h _. h) (\<lambda>h _. h) h s
        ([example_call 1 ''db timeout'', example_call 2 ''db timeout''] @ [example_call 2 ''cache down'']) =
      Some (s', outs @ [Some ((), NewRecord 2 4 ''cache down'' 0)])"
proof -
  obtain h s errs where new: "newSamplingHandler () sampling_example = (h, s, errs)"
    by (metis surj_pair)
  let ?cs = "[example_call 1 ''db timeout'', example_call 2 ''db timeout'']"
  let ?c = "example_call 2 ''cache down''"
  have "legal_calls (?cs @ [?c])" by (simp add: legal_calls_def)
  moreover have "\<nexists>p. sc_Probability sampling_example = Finite p \<and> 0 < p \<and> p < 1"
    by (simp add: sampling_example_def)
  moreover have "call_key h ?c \<notin> call_key h ` set ?cs"
    using new by (auto simp: call_key_def sampling_key_of_def newSamplingHandler_def Let_def
        sampling_example_def NewRecord_def)
  ultimately show ?thesis
    using sampling_distinct_events_independent [OF new, of ?cs ?c "\<lambda>h _. h" "\<lambda>h _. h"] new
    by simp
qed

section \<open>The default key\<close>

text \<open>The key that \<open>DefaultSamplingKey\<close> gives a record, from the one the nil \<open>KeyFunc\<close> gives it.\<close>

definition default_text :: "sampling_key \<Rightarrow> sampling_key" where
  "default_text k = \<lparr>k_level = 0, k_text = level_string (k_level k) @ [CHR 0x00] @ k_text k\<rparr>"

lemma split_at_nul:
  "c \<notin> set xs \<Longrightarrow> c \<notin> set ys \<Longrightarrow> xs @ c # us = ys @ c # vs \<Longrightarrow> xs = ys \<and> us = vs"
proof (induction xs arbitrary: ys)
  case Nil
  then show ?case by (cases ys) auto
next
  case (Cons x xs)
  then show ?case by (cases ys) auto
qed

lemma default_text_inj: "inj default_text"
proof (rule injI)
  fix k k' :: sampling_key
  assume "default_text k = default_text k'"
  then have "level_string (k_level k) @ CHR 0x00 # k_text k = level_string (k_level k') @ CHR 0x00 # k_text k'"
    by (simp add: default_text_def)
  from split_at_nul [OF level_string_no_nul level_string_no_nul this]
  show "k = k'" by (auto dest: level_string_inj)
qed

definition sampling_sim :: "sampling_state \<Rightarrow> sampling_state \<Rightarrow> bool" where
  "sampling_sim s s' \<longleftrightarrow> s' = s\<lparr>ss_last := rekey default_text (ss_last s)\<rparr>"

text \<open>Two environments that differ in the range order only, and visit corresponding keys.\<close>

definition env_sim :: "sampling_env \<Rightarrow> sampling_env \<Rightarrow> bool" where
  "env_sim e e' \<longleftrightarrow> e_now e' = e_now e \<and> e_rand e' = e_rand e \<and>
     (\<forall>ks. e_perm e' (map default_text ks) = map default_text (e_perm e ks))"

lemma sampling_evict_sim:
  assumes "sampling_sim s s'" "\<And>ks. perm' (map default_text ks) = map default_text (perm ks)"
  shows "rel_option sampling_sim (sampling_evictLocked perm now d s) (sampling_evictLocked perm' now d s')"
proof -
  from assms(1) have s': "ss_last s' = rekey default_text (ss_last s)" "ss_maxKeys s' = ss_maxKeys s"
    "ss_evicted s' = ss_evicted s" "ss_suppressed s' = ss_suppressed s"
    by (simp_all add: sampling_sim_def)
  note old = rekey_drop_oldest [where perm' = perm', OF default_text_inj assms(2)]
  show ?thesis
    by (auto simp: sampling_evictLocked_def s' rekey_drop_dead old Let_def sampling_sim_def
        split: option.split)
qed

lemma sampling_allow_sim:
  assumes "sampling_sim s s'" "env_sim e e'" "sh_keyFunc h = None"
  shows "rel_option (rel_prod (=) sampling_sim) (sampling_allow h e s r)
    (sampling_allow (h\<lparr>sh_keyFunc := Some DefaultSamplingKey\<rparr>) e' s' r)"
proof -
  have key: "sampling_key_of (h\<lparr>sh_keyFunc := Some DefaultSamplingKey\<rparr>) r =
      default_text (sampling_key_of h r)"
    by (simp add: sampling_key_of_def assms(3) default_text_def DefaultSamplingKey_def)
  from assms(1) have s': "s' = s\<lparr>ss_last := rekey default_text (ss_last s)\<rparr>" by (simp add: sampling_sim_def)
  from assms(2) have e': "e_now e' = e_now e" "e_rand e' = e_rand e"
    "\<And>ks. e_perm e' (map default_text ks) = map default_text (e_perm e ks)"
    by (simp_all add: env_sim_def)
  note ev = sampling_evict_sim [where perm = "e_perm e" and perm' = "e_perm e'", OF assms(1) e'(3)]
  show ?thesis
    using ev [of "e_now e" "sh_interval h"]
    by (cases "sampling_evictLocked (e_perm e) (e_now e) (sh_interval h) s";
        cases "sampling_evictLocked (e_perm e') (e_now e) (sh_interval h) s'")
       (auto simp: sampling_allow_def key e' rekey_map_of default_text_inj rekey_update Let_def
        sampling_sim_def s' split: option.split cong: option.case_cong)
qed

lemma sampling_handle_sim:
  assumes "sampling_sim s s'" "env_sim e e'" "sh_keyFunc h = None"
  shows "rel_option (rel_prod sampling_sim (=)) (SamplingHandler_Handle h e s r)
    (SamplingHandler_Handle (h\<lparr>sh_keyFunc := Some DefaultSamplingKey\<rparr>) e' s' r)"
  using sampling_allow_sim [OF assms, of r] assms(1)
  by (auto simp: SamplingHandler_Handle_def option_rel_Some1 split: option.splits)

text \<open>
  The allocation-free key is equivalent to \<open>DefaultSamplingKey\<close>, as the comments promise: with
  either one, the same history of calls has the same outcomes, call by call, and leaves the same
  counters and the same number of tracked keys.
\<close>

theorem sampling_nil_key_is_default_key:
  assumes "newSamplingHandler n cfg = (h, s, errs)" "sc_KeyFunc cfg = None"
    and "newSamplingHandler n (cfg\<lparr>sc_KeyFunc := Some DefaultSamplingKey\<rparr>) = (h', s', errs')"
    and "list_all2 (\<lambda>(ops, e, r) (ops', e', r'). ops' = ops \<and> r' = r \<and> env_sim e e') cs cs'"
  shows "map_option (\<lambda>(t, outs). (outs, Suppressed t, Evicted t, TrackedKeys t))
      (sampling_run wa wg h s cs) =
    map_option (\<lambda>(t, outs). (outs, Suppressed t, Evicted t, TrackedKeys t))
      (sampling_run wa wg h' s' cs')"
proof -
  have h': "h' = h\<lparr>sh_keyFunc := Some DefaultSamplingKey\<rparr>" "sh_keyFunc h = None" "sampling_sim s s'"
    using assms(1-3)
    by (auto simp: newSamplingHandler_def Let_def sampling_sim_def)
  have "rel_option (rel_prod sampling_sim (=)) (sampling_run wa wg h s cs)
      (sampling_run wa wg (h\<lparr>sh_keyFunc := Some DefaultSamplingKey\<rparr>) s' cs')"
    using assms(4) h'(3)
  proof (induction cs cs' arbitrary: s s' rule: list_all2_induct)
    case (Cons c cs c' cs')
    obtain ops e r e' where c: "c = (ops, e, r)" "c' = (ops, e', r)" "env_sim e e'"
      using Cons(1) by (cases c; cases c') auto
    let ?h = "derive (SamplingHandler_WithAttrs wa) (SamplingHandler_WithGroup wg) h ops"
    have k: "sh_keyFunc ?h = None" by (simp add: sampling_derive h'(2))
    have d: "derive (SamplingHandler_WithAttrs wa) (SamplingHandler_WithGroup wg)
        (h\<lparr>sh_keyFunc := Some DefaultSamplingKey\<rparr>) ops = ?h\<lparr>sh_keyFunc := Some DefaultSamplingKey\<rparr>"
      by (simp add: sampling_derive)
    note step = sampling_handle_sim [OF Cons.prems c(3) k, of r]
    show ?case
    proof (cases "SamplingHandler_Handle ?h e s r")
      case None
      with step show ?thesis by (simp add: c d)
    next
      case (Some p)
      obtain t out where p: "p = (t, out)" by (cases p)
      with step Some obtain t' where t': "SamplingHandler_Handle (?h\<lparr>sh_keyFunc := Some DefaultSamplingKey\<rparr>) e' s' r =
          Some (t', out)" "sampling_sim t t'"
        by (auto simp: option_rel_Some1)
      from Cons.IH [OF t'(2)] show ?thesis
        by (auto simp: c d Some p t'(1) option_rel_Some1 split: option.splits)
    qed
  qed simp
  then show ?thesis
    unfolding h'(1)
    by (auto simp: rel_option_iff Suppressed_def Evicted_def TrackedKeys_def sampling_sim_def
        split: option.splits)
qed

theorem sampling_nil_key_is_default_key_witness:
  "let (h, s, errs) = newSamplingHandler () sampling_example;
       (h', s', errs') = newSamplingHandler () (sampling_example\<lparr>sc_KeyFunc := Some DefaultSamplingKey\<rparr>);
       cs = [example_call 1 ''a'', example_call 2 ''a'', example_call 3 ''b'', example_call 4 ''c'']
   in map_option (\<lambda>(t, outs). (outs, Suppressed t, Evicted t, TrackedKeys t)) (sampling_run (\<lambda>h _. h) (\<lambda>h _. h) h s cs) =
      map_option (\<lambda>(t, outs). (outs, Suppressed t, Evicted t, TrackedKeys t)) (sampling_run (\<lambda>h _. h) (\<lambda>h _. h) h' s' cs)"
proof -
  let ?cs = "[example_call 1 ''a'', example_call 2 ''a'', example_call 3 ''b'', example_call 4 ''c'']"
  obtain h s errs where new: "newSamplingHandler () sampling_example = (h, s, errs)"
    by (metis surj_pair)
  obtain h' s' errs' where new':
    "newSamplingHandler () (sampling_example\<lparr>sc_KeyFunc := Some DefaultSamplingKey\<rparr>) = (h', s', errs')"
    by (metis surj_pair)
  have "list_all2 (\<lambda>(ops, e, r) (ops', e', r'). ops' = ops \<and> r' = r \<and> env_sim e e') ?cs ?cs"
    by (simp add: env_sim_def)
  moreover have "sc_KeyFunc sampling_example = None" by (simp add: sampling_example_def)
  ultimately show ?thesis
    using sampling_nil_key_is_default_key [OF new _ new', of ?cs ?cs "\<lambda>h _. h" "\<lambda>h _. h"] new new'
    by simp
qed

section \<open>What a forced eviction drops\<close>

text \<open>
  When the map is full and every key can still suppress, the pass keeps exactly
  \<open>evictionTarget\<close> keys (three quarters, at least one slot free), and with distinct timestamps these are
  the newest: every dropped key is older than every kept one.
\<close>

theorem sampling_evicts_the_oldest:
  assumes "reorders perm" "wf_map (ss_last s)" "int (length (ss_last s)) = ss_maxKeys s" "1 < ss_maxKeys s"
    and "\<forall>t \<in> snd ` set (ss_last s). time_Sub now t < interval" "distinct (map snd (ss_last s))"
  shows "\<exists>s'. sampling_evictLocked perm now interval s = Some s' \<and>
    int (TrackedKeys s') = ss_maxKeys s - max 1 (ss_maxKeys s div 4) \<and>
    (\<forall>(k, t) \<in> set (ss_last s'). \<forall>(k', t') \<in> set (ss_last s) - set (ss_last s'). t' < t)"
proof -
  let ?t = "evictionTarget (ss_maxKeys s)"
  have alive: "drop_dead (\<lambda>t. time_Sub now t \<ge> interval) (ss_last s) = ss_last s"
    using assms(5) by (auto simp: drop_dead_def filter_id_conv not_le)
  have t: "0 < ?t" "?t \<le> int (length (ss_last s))"
    using assms(3,4) by (auto simp: evictionTarget_def max_def) 
  have "distinct (map (\<lambda>(k, e). e) (ss_last s))" using assms(6) by (simp add: split_def)
  with drop_oldest_spec [OF assms(1,2) t, of "\<lambda>t. t"] obtain m c where
    m: "drop_oldest perm (\<lambda>t. t) ?t (ss_last s) = Some m" "int (length m) = ?t"
      "m = drop_before (\<lambda>t. t) c (ss_last s)"
    by metis
  have "t' < t" if "(k, t) \<in> set m" "(k', t') \<in> set (ss_last s) - set m" for k t k' t'
    using that by (auto simp: m(3) drop_before_def)
  moreover have "sampling_evictLocked perm now interval s =
      Some (s\<lparr>ss_last := m, ss_evicted := ss_evicted s + of_nat (length (ss_last s) - length m)\<rparr>)"
    using assms(3) t m(1) by (simp add: sampling_evictLocked_def alive Let_def)
  ultimately show ?thesis
    using m(2) by (auto simp: TrackedKeys_def evictionTarget_def)
qed

theorem sampling_evicts_the_oldest_witness:
  "let s = \<lparr>ss_last = map (\<lambda>t. (\<lparr>k_level = t, k_text = []\<rparr>, t)) [4, 1, 3, 2], ss_maxKeys = 4,
            ss_suppressed = 0, ss_evicted = 0\<rparr>
   in \<exists>s'. sampling_evictLocked rev 5 10 s = Some s' \<and> TrackedKeys s' = 3 \<and>
        (\<forall>(k, t) \<in> set (ss_last s'). \<forall>(k', t') \<in> set (ss_last s) - set (ss_last s'). t' < t)"
proof -
  let ?s = "\<lparr>ss_last = map (\<lambda>t. (\<lparr>k_level = t, k_text = []\<rparr>, t)) [4, 1, 3, 2], ss_maxKeys = 4,
            ss_suppressed = 0, ss_evicted = 0\<rparr> :: sampling_state"
  have "reorders rev" "wf_map (ss_last ?s)" "int (length (ss_last ?s)) = ss_maxKeys ?s" "1 < ss_maxKeys ?s"
    "\<forall>t \<in> snd ` set (ss_last ?s). time_Sub 5 t < 10" "distinct (map snd (ss_last ?s))"
    by (simp_all add: reorders_def wf_map_def time_Sub_def maxDuration_def minDuration_def)
  from sampling_evicts_the_oldest [OF this] obtain s' where
    "sampling_evictLocked rev 5 10 ?s = Some s'" "int (TrackedKeys s') = ss_maxKeys ?s - max 1 (ss_maxKeys ?s div 4)"
    "\<forall>(k, t) \<in> set (ss_last s'). \<forall>(k', t') \<in> set (ss_last ?s) - set (ss_last s'). t' < t"
    by blast
  moreover from this(2) have "TrackedKeys s' = 3" by simp
  ultimately show ?thesis unfolding Let_def by blast
qed

lemma sampling_alive_example: "time_Sub 6 t < 10 \<longleftrightarrow> 6 - t < 10" 
  by (rule time_Sub_less) (simp_all add: minDuration_def maxDuration_def)

text \<open>
  With equal timestamps at the cutoff the pass can drop the newest key instead: four keys,
  three of them of the same instant, and the only newer one is gone.
\<close>

theorem sampling_tie_drops_the_newest:
  "let key = (\<lambda>m. \<lparr>k_level = 0, k_text = m\<rparr>);
       s = \<lparr>ss_last = [(key ''new'', 5), (key ''a'', 2), (key ''b'', 2), (key ''c'', 2)],
            ss_maxKeys = 4, ss_suppressed = 0, ss_evicted = 0\<rparr>
   in map_option ss_last (sampling_evictLocked (\<lambda>ks. ks) 6 10 s) =
      Some [(key ''a'', 2), (key ''b'', 2), (key ''c'', 2)]"
proof -
  have d: "drop_dead (\<lambda>t. time_Sub 6 t \<ge> 10) (map (\<lambda>(m, t). (\<lparr>k_level = 0, k_text = m\<rparr>, t)) [(''new'', 5), (''a'', 2), (''b'', 2), (''c'', 2)]) =
     map (\<lambda>(m, t). (\<lparr>k_level = 0, k_text = m\<rparr>, t)) [(''new'', 5), (''a'', 2), (''b'', 2), (''c'', 2)]"
    by (simp add: drop_dead_def sampling_alive_example linorder_not_le)
  have o: "drop_oldest (\<lambda>ks. ks) (\<lambda>t. t) 3 (map (\<lambda>(m, t). (\<lparr>k_level = 0, k_text = m\<rparr>, t)) [(''new'', 5), (''a'', 2), (''b'', 2), (''c'', 2)]) =
     Some (map (\<lambda>(m, t). (\<lparr>k_level = 0, k_text = m\<rparr>, t)) [(''a'', 2), (''b'', 2), (''c'', 2)])"
    by (simp add: drop_oldest_def cutoff_of_def index_def drop_before_def)
  show ?thesis
    using d o by (simp add: sampling_evictLocked_def evictionTarget_def)
qed

text \<open>
  \<open>Validate\<close> accepts a probability that is not a number, although it is not in [0,1]; the handler
  then emits everything.
\<close>

theorem sampling_nan_accepted:
  "SamplingConfig_Validate \<lparr>sc_Interval = 0, sc_MinLevel = 0, sc_Probability = NaN, sc_KeyFunc = None, sc_MaxKeys = 0\<rparr> = []"
  by (simp add: SamplingConfig_Validate_def)

end
