(* ===== verification/BufferedHandler.thy ===== *)
theory BufferedHandler
  imports HeldOps "HOL-Library.Sublist"
begin

text \<open>
  \<open>handler/buffered_handler.go\<close>: the bounded queue with one worker goroutine, \<open>Handle\<close>, \<open>Flush\<close> and
  \<open>Shutdown\<close> called concurrently by any number of goroutines.

  The model is an interleaving of micro-steps. A step is one access to shared memory: acquiring or
  releasing the read or write lock of \<open>core.mu\<close>, a channel operation, an atomic counter, the
  critical section of \<open>errMu\<close>; a state check made under a lock is one step with the release it leads
  to. Which ready branch a \<open>select\<close> takes, when a context or timer fires, what the wrapped
  handler returns, and which goroutine moves next are choices, so every schedule is covered. The write lock is
  taken when nobody holds the lock and the read lock when no writer does; Go's preference for waiting
  writers only removes schedules.

  Fields marked ghost are not in the code: they remember the history that the properties speak of. Each
  \<open>Handle\<close> call and each barrier has a number of its own. A panic (closing a closed channel) is recorded.
\<close>

section \<open>Data\<close>

datatype buffer_error = ErrBufferFull | ErrShutdown | CtxErr | Downstream bytes

type_synonym result = "buffer_error option"

datatype lifecycle_state = StateRunning | StateShuttingDown | StateStopped

fun lifecycle_code :: "lifecycle_state \<Rightarrow> nat" where
  "lifecycle_code StateRunning = 0"
| "lifecycle_code StateShuttingDown = 1"
| "lifecycle_code StateStopped = 2"

lemma lifecycle_code_inj: "lifecycle_code s = lifecycle_code s' \<Longrightarrow> s = s'"
  by (cases s; cases s') auto

instantiation lifecycle_state :: linorder
begin

definition less_eq_lifecycle_state :: "lifecycle_state \<Rightarrow> lifecycle_state \<Rightarrow> bool" where
  "less_eq_lifecycle_state s s' \<longleftrightarrow> lifecycle_code s \<le> lifecycle_code s'"

definition less_lifecycle_state :: "lifecycle_state \<Rightarrow> lifecycle_state \<Rightarrow> bool" where
  "less_lifecycle_state s s' \<longleftrightarrow> lifecycle_code s < lifecycle_code s'"

instance
  by standard
     (auto simp: less_eq_lifecycle_state_def less_lifecycle_state_def intro: lifecycle_code_inj)

end

datatype 'n buffered_item =
    RecordItem (item_id: nat) (item_ctx: nat) (item_record: slog_record) (item_next: 'n)
  | Barrier (item_id: nat)

fun is_record :: "'n buffered_item \<Rightarrow> bool" where
  "is_record (RecordItem i ctx r n) = True"
| "is_record (Barrier b) = False"

record 'n buffered_core =
  bc_queue :: "'n buffered_item list"
  bc_size :: nat
  bc_shutdownCh :: bool
  bc_workerDone :: bool
  bc_state :: lifecycle_state
  bc_readers :: "nat set"
  bc_writer :: bool
  bc_dropped :: u64
  bc_rejected :: u64
  bc_handlerErrors :: u64
  bc_firstErr :: "buffer_error option"
  bc_closed :: "nat set"
  bc_panicked :: bool
  gh_fresh :: nat
  gh_sent :: "'n buffered_item list"
  gh_done :: "'n buffered_item list"
  gh_before :: "nat \<Rightarrow> 'n buffered_item list"
  gh_outcomes :: "('n buffered_item \<times> result) list"
  gh_errors :: "buffer_error list"
  gh_taken :: "buffer_error list"

definition NewBufferedCore :: "int \<Rightarrow> 'n buffered_core" where
  "NewBufferedCore n =
     (let k = (if n < 1 then 1 else n)
      in \<lparr>bc_queue = [], bc_size = nat k, bc_shutdownCh = False, bc_workerDone = False,
          bc_state = StateRunning, bc_readers = {}, bc_writer = False, bc_dropped = 0,
          bc_rejected = 0, bc_handlerErrors = 0, bc_firstErr = None, bc_closed = {},
          bc_panicked = False, gh_fresh = 0, gh_sent = [], gh_done = [], gh_before = (\<lambda>_. []),
          gh_outcomes = [], gh_errors = [], gh_taken = []\<rparr>)"

text \<open>The handler proper is a view: a core and the handler its records go to.\<close>

record 'n buffered_handler =
  bh_next :: 'n

definition BufferedHandler_WithAttrs ::
  "('n \<Rightarrow> attr list \<Rightarrow> 'n) \<Rightarrow> 'n buffered_handler \<Rightarrow> attr list \<Rightarrow> 'n buffered_handler" where
  "BufferedHandler_WithAttrs wa h attrs =
     (if attrs = [] then \<lparr>bh_next = bh_next h\<rparr> else \<lparr>bh_next = wa (bh_next h) attrs\<rparr>)"

definition BufferedHandler_WithGroup ::
  "('n \<Rightarrow> bytes \<Rightarrow> 'n) \<Rightarrow> 'n buffered_handler \<Rightarrow> bytes \<Rightarrow> 'n buffered_handler" where
  "BufferedHandler_WithGroup wg h name =
     (if name = [] then \<lparr>bh_next = bh_next h\<rparr> else \<lparr>bh_next = wg (bh_next h) name\<rparr>)"

section \<open>Shared operations\<close>

definition RLock :: "nat \<Rightarrow> 'n buffered_core \<Rightarrow> 'n buffered_core option" where
  "RLock t c = (if bc_writer c then None else Some (c\<lparr>bc_readers := insert t (bc_readers c)\<rparr>))"

definition RUnlock :: "nat \<Rightarrow> 'n buffered_core \<Rightarrow> 'n buffered_core" where
  "RUnlock t c = c\<lparr>bc_readers := bc_readers c - {t}\<rparr>"

definition Lock :: "'n buffered_core \<Rightarrow> 'n buffered_core option" where
  "Lock c = (if bc_writer c \<or> bc_readers c \<noteq> {} then None else Some (c\<lparr>bc_writer := True\<rparr>))"

definition Unlock :: "'n buffered_core \<Rightarrow> 'n buffered_core" where
  "Unlock c = c\<lparr>bc_writer := False\<rparr>"

text \<open>A send on the buffered channel is possible while the queue has room.\<close>

definition send :: "'n buffered_item \<Rightarrow> 'n buffered_core \<Rightarrow> 'n buffered_core option" where
  "send item c =
     (if length (bc_queue c) < bc_size c
      then Some (c\<lparr>bc_queue := bc_queue c @ [item], gh_sent := gh_sent c @ [item]\<rparr>)
      else None)"

definition close_barrier :: "nat \<Rightarrow> 'n buffered_core \<Rightarrow> 'n buffered_core" where
  "close_barrier b c =
     (if b \<in> bc_closed c then c\<lparr>bc_panicked := True\<rparr>
      else c\<lparr>bc_closed := insert b (bc_closed c)\<rparr>)"

definition recordErr :: "buffer_error \<Rightarrow> 'n buffered_core \<Rightarrow> 'n buffered_core" where
  "recordErr err c =
     (let c = (if bc_firstErr c = None then c\<lparr>bc_firstErr := Some err\<rparr> else c)
      in c\<lparr>gh_errors := gh_errors c @ [err]\<rparr>)"

definition takeErr :: "'n buffered_core \<Rightarrow> result \<times> 'n buffered_core" where
  "takeErr c =
     (let err = bc_firstErr c
      in (err, c\<lparr>bc_firstErr := None,
                 gh_taken := gh_taken c @ (case err of None \<Rightarrow> [] | Some e \<Rightarrow> [e])\<rparr>))"

section \<open>Goroutines that call the handler\<close>

datatype choice = Proceed | CtxDone | WorkerDoneCh | TimerFired

text \<open>
  Where a caller is: in \<open>Handle\<close> (before the lock, with it, past the state check, after the send, after the
  release), in \<open>Flush\<close> with its barrier, in \<open>Shutdown\<close>, or returned.
\<close>

datatype 'n client =
    Idle
  | HandleStart "'n buffered_item"
  | HandleLocked "'n buffered_item"
  | HandleSend "'n buffered_item"
  | HandleSent "'n buffered_item"
  | HandleReject "'n buffered_item"
  | HandleDrop "'n buffered_item"
  | FlushTry nat
  | FlushLocked nat
  | FlushSelect nat
  | FlushSent nat
  | FlushRecheck nat
  | FlushAwait nat
  | FlushLate nat
  | FlushTake nat
  | ShutdownStart
  | ShutdownLocked
  | ShutdownClose
  | ShutdownAwait
  | ShutdownTake
  | Returned result

datatype 'n call = CallHandle nat slog_record "'n buffered_handler" | CallFlush | CallShutdown

fun start_call :: "'n call \<Rightarrow> 'n buffered_core \<Rightarrow> 'n buffered_core \<times> 'n client" where
  "start_call (CallHandle ctx r h) c =
     (c\<lparr>gh_fresh := Suc (gh_fresh c)\<rparr>, HandleStart (RecordItem (gh_fresh c) ctx r (bh_next h)))"
| "start_call CallFlush c =
     (c\<lparr>gh_fresh := Suc (gh_fresh c), gh_before := (gh_before c)(gh_fresh c := gh_sent c)\<rparr>,
      FlushTry (gh_fresh c))"
| "start_call CallShutdown c = (c, ShutdownStart)"

definition return_handle :: "'n buffered_item \<Rightarrow> result \<Rightarrow> 'n buffered_core \<Rightarrow> 'n buffered_core \<times> 'n client" where
  "return_handle item res c = (c\<lparr>gh_outcomes := gh_outcomes c @ [(item, res)]\<rparr>, Returned res)"

fun handle_step :: "nat \<Rightarrow> 'n buffered_core \<Rightarrow> 'n client \<Rightarrow> ('n buffered_core \<times> 'n client) option" where
  "handle_step t c (HandleStart item) =
     (case RLock t c of None \<Rightarrow> None | Some c \<Rightarrow> Some (c, HandleLocked item))"
| "handle_step t c (HandleLocked item) =
     (if bc_state c \<noteq> StateRunning then Some (RUnlock t c, HandleReject item)
      else Some (c, HandleSend item))"
| "handle_step t c (HandleSend item) =
     (case send item c of
        Some c \<Rightarrow> Some (c, HandleSent item)
      | None \<Rightarrow> Some (RUnlock t c, HandleDrop item))"
| "handle_step t c (HandleSent item) = Some (return_handle item None (RUnlock t c))"
| "handle_step t c (HandleReject item) =
     Some (return_handle item (Some ErrShutdown) (c\<lparr>bc_rejected := bc_rejected c + 1\<rparr>))"
| "handle_step t c (HandleDrop item) =
     Some (return_handle item (Some ErrBufferFull) (c\<lparr>bc_dropped := bc_dropped c + 1\<rparr>))"
| "handle_step t c _ = None"

fun flush_step :: "nat \<Rightarrow> choice \<Rightarrow> 'n buffered_core \<Rightarrow> 'n client \<Rightarrow> ('n buffered_core \<times> 'n client) option" where
  "flush_step t ch c (FlushTry b) =
     (case RLock t c of None \<Rightarrow> None | Some c \<Rightarrow> Some (c, FlushLocked b))"
| "flush_step t ch c (FlushLocked b) =
     (if bc_state c \<noteq> StateRunning then Some (RUnlock t c, Returned (Some ErrShutdown))
      else Some (c, FlushSelect b))"
| "flush_step t ch c (FlushSelect b) =
     (case ch of
        Proceed \<Rightarrow> (case send (Barrier b) c of Some c \<Rightarrow> Some (c, FlushSent b) | None \<Rightarrow> None)
      | CtxDone \<Rightarrow> Some (RUnlock t c, Returned (Some CtxErr))
      | WorkerDoneCh \<Rightarrow> if bc_workerDone c then Some (RUnlock t c, Returned (Some ErrShutdown)) else None
      | TimerFired \<Rightarrow> Some (RUnlock t c, FlushRecheck b))"
| "flush_step t ch c (FlushSent b) = Some (RUnlock t c, FlushAwait b)"
| "flush_step t ch c (FlushRecheck b) =
     (case ch of
        CtxDone \<Rightarrow> Some (c, Returned (Some CtxErr))
      | WorkerDoneCh \<Rightarrow> if bc_workerDone c then Some (c, Returned (Some ErrShutdown)) else None
      | _ \<Rightarrow> if bc_workerDone c then None else Some (c, FlushTry b))"
| "flush_step t ch c (FlushAwait b) =
     (case ch of
        Proceed \<Rightarrow> if b \<in> bc_closed c then Some (c, FlushTake b) else None
      | CtxDone \<Rightarrow> Some (c, Returned (Some CtxErr))
      | WorkerDoneCh \<Rightarrow> if bc_workerDone c then Some (c, FlushLate b) else None
      | TimerFired \<Rightarrow> None)"
| "flush_step t ch c (FlushLate b) =
     (if b \<in> bc_closed c then Some (c, FlushTake b) else Some (c, Returned (Some ErrShutdown)))"
| "flush_step t ch c (FlushTake b) = (let (err, c) = takeErr c in Some (c, Returned err))"
| "flush_step t ch c _ = None"

fun shutdown_step :: "choice \<Rightarrow> 'n buffered_core \<Rightarrow> 'n client \<Rightarrow> ('n buffered_core \<times> 'n client) option" where
  "shutdown_step ch c ShutdownStart =
     (case Lock c of None \<Rightarrow> None | Some c \<Rightarrow> Some (c, ShutdownLocked))"
| "shutdown_step ch c ShutdownLocked =
     (let c = (if bc_state c = StateRunning then c\<lparr>bc_state := StateShuttingDown\<rparr> else c)
      in Some (Unlock c, ShutdownClose))"
| "shutdown_step ch c ShutdownClose = Some (c\<lparr>bc_shutdownCh := True\<rparr>, ShutdownAwait)"
| "shutdown_step ch c ShutdownAwait =
     (case ch of
        CtxDone \<Rightarrow> Some (c, Returned (Some CtxErr))
      | WorkerDoneCh \<Rightarrow> if bc_workerDone c then Some (c, ShutdownTake) else None
      | _ \<Rightarrow> None)"
| "shutdown_step ch c ShutdownTake = (let (err, c) = takeErr c in Some (c, Returned err))"
| "shutdown_step ch c _ = None"

section \<open>The worker\<close>

datatype worker_choice = Receive | SeeShutdown | HandlerReturns result

datatype 'n worker =
    WorkerSelect
  | WorkerProcess bool "'n buffered_item"
  | WorkerCount bool buffer_error
  | WorkerRecord bool buffer_error
  | WorkerDrain
  | WorkerExit
  | WorkerExitLocked
  | WorkerClose
  | WorkerGone

definition resume :: "bool \<Rightarrow> 'n worker" where
  "resume draining = (if draining then WorkerDrain else WorkerSelect)"

fun worker_step :: "worker_choice \<Rightarrow> 'n buffered_core \<Rightarrow> 'n worker \<Rightarrow> ('n buffered_core \<times> 'n worker) option" where
  "worker_step ch c WorkerSelect =
     (case ch of
        Receive \<Rightarrow>
          (case bc_queue c of
             [] \<Rightarrow> None
           | item # q \<Rightarrow> Some (c\<lparr>bc_queue := q\<rparr>, WorkerProcess False item))
      | SeeShutdown \<Rightarrow> if bc_shutdownCh c then Some (c, WorkerDrain) else None
      | HandlerReturns res \<Rightarrow> None)"
| "worker_step ch c WorkerDrain =
     (case bc_queue c of
        [] \<Rightarrow> Some (c, WorkerExit)
      | item # q \<Rightarrow> Some (c\<lparr>bc_queue := q\<rparr>, WorkerProcess True item))"
| "worker_step ch c (WorkerProcess draining (Barrier b)) =
     Some ((close_barrier b c)\<lparr>gh_done := gh_done c @ [Barrier b]\<rparr>, resume draining)"
| "worker_step ch c (WorkerProcess draining (RecordItem i ctx r n)) =
     (case ch of
        HandlerReturns res \<Rightarrow>
          (let c = c\<lparr>gh_done := gh_done c @ [RecordItem i ctx r n]\<rparr>
           in case res of None \<Rightarrow> Some (c, resume draining) | Some err \<Rightarrow> Some (c, WorkerCount draining err))
      | _ \<Rightarrow> None)"
| "worker_step ch c (WorkerCount draining err) =
     Some (c\<lparr>bc_handlerErrors := bc_handlerErrors c + 1\<rparr>, WorkerRecord draining err)"
| "worker_step ch c (WorkerRecord draining err) = Some (recordErr err c, resume draining)"
| "worker_step ch c WorkerExit =
     (case Lock c of None \<Rightarrow> None | Some c \<Rightarrow> Some (c, WorkerExitLocked))"
| "worker_step ch c WorkerExitLocked =
     Some (Unlock (c\<lparr>bc_state := StateStopped\<rparr>), WorkerClose)"
| "worker_step ch c WorkerClose =
     Some ((if bc_workerDone c then c\<lparr>bc_panicked := True\<rparr> else c\<lparr>bc_workerDone := True\<rparr>), WorkerGone)"
| "worker_step ch c WorkerGone = None"

section \<open>The system\<close>

record 'n buffered_sys =
  sy_core :: "'n buffered_core"
  sy_clients :: "nat \<Rightarrow> 'n client"
  sy_worker :: "'n worker"

definition NewBufferedHandler :: "int \<Rightarrow> 'n buffered_sys" where
  "NewBufferedHandler n =
     \<lparr>sy_core = NewBufferedCore n, sy_clients = (\<lambda>_. Idle), sy_worker = WorkerSelect\<rparr>"

fun at_rest :: "'n client \<Rightarrow> bool" where
  "at_rest Idle = True"
| "at_rest (Returned res) = True"
| "at_rest _ = False"

inductive buffered_step :: "'n buffered_sys \<Rightarrow> 'n buffered_sys \<Rightarrow> bool" where
  start: "at_rest (sy_clients s t) \<Longrightarrow> start_call call (sy_core s) = (c, pc) \<Longrightarrow>
    buffered_step s (s\<lparr>sy_core := c, sy_clients := (sy_clients s)(t := pc)\<rparr>)"
| handle: "handle_step t (sy_core s) (sy_clients s t) = Some (c, pc) \<Longrightarrow>
    buffered_step s (s\<lparr>sy_core := c, sy_clients := (sy_clients s)(t := pc)\<rparr>)"
| flush: "flush_step t ch (sy_core s) (sy_clients s t) = Some (c, pc) \<Longrightarrow>
    buffered_step s (s\<lparr>sy_core := c, sy_clients := (sy_clients s)(t := pc)\<rparr>)"
| shutdown: "shutdown_step ch (sy_core s) (sy_clients s t) = Some (c, pc) \<Longrightarrow>
    buffered_step s (s\<lparr>sy_core := c, sy_clients := (sy_clients s)(t := pc)\<rparr>)"
| worker: "worker_step wch (sy_core s) (sy_worker s) = Some (c, w) \<Longrightarrow>
    buffered_step s (s\<lparr>sy_core := c, sy_worker := w\<rparr>)"

inductive buffered_reach :: "int \<Rightarrow> 'n buffered_sys \<Rightarrow> bool" for n where
  init: "buffered_reach n (NewBufferedHandler n)"
| step: "buffered_reach n s \<Longrightarrow> buffered_step s s' \<Longrightarrow> buffered_reach n s'"

definition Dropped :: "'n buffered_sys \<Rightarrow> u64" where "Dropped s = bc_dropped (sy_core s)"
definition Rejected :: "'n buffered_sys \<Rightarrow> u64" where "Rejected s = bc_rejected (sy_core s)"
definition Queued :: "'n buffered_sys \<Rightarrow> nat" where "Queued s = length (bc_queue (sy_core s))"
definition HandlerErrors :: "'n buffered_sys \<Rightarrow> u64" where "HandlerErrors s = bc_handlerErrors (sy_core s)"

inductive_cases buffered_stepE: "buffered_step s s'"

inductive_simps buffered_reach_simps: "buffered_reach n s"

fun_cases handle_stepE: "handle_step t c pc = Some x"
fun_cases flush_stepE: "flush_step t ch c pc = Some x"
fun_cases shutdown_stepE: "shutdown_step ch c pc = Some x"
fun_cases worker_stepE: "worker_step wch c w = Some x"

lemmas buffered_step_defs = RLock_def RUnlock_def Lock_def Unlock_def send_def close_barrier_def
  recordErr_def takeErr_def return_handle_def resume_def Let_def

section \<open>The lock\<close>

fun holds_read :: "'n client \<Rightarrow> bool" where
  "holds_read (HandleLocked item) = True"
| "holds_read (HandleSend item) = True"
| "holds_read (HandleSent item) = True"
| "holds_read (FlushLocked b) = True"
| "holds_read (FlushSelect b) = True"
| "holds_read (FlushSent b) = True"
| "holds_read _ = False"

fun holds_write :: "'n client \<Rightarrow> bool" where
  "holds_write ShutdownLocked = True"
| "holds_write _ = False"

text \<open>
  The threads that hold the lock: a caller is numbered, \<open>None\<close> is the worker. The lock's fields say who
  they are, and a writer is alone.
\<close>

definition writers :: "'n buffered_sys \<Rightarrow> nat option set" where
  "writers s = {Some t | t. holds_write (sy_clients s t)} \<union> (if sy_worker s = WorkerExitLocked then {None} else {})"

definition lock_inv :: "'n buffered_sys \<Rightarrow> bool" where
  "lock_inv s \<longleftrightarrow> bc_readers (sy_core s) = {t. holds_read (sy_clients s t)} \<and>
     (if bc_writer (sy_core s) then bc_readers (sy_core s) = {} \<and> (\<exists>w. writers s = {w}) else writers s = {})"

text \<open>A step of a caller, whichever method it is in, and what a step does to the lock.\<close>

definition caller_step ::
  "nat \<Rightarrow> 'n buffered_core \<Rightarrow> 'n client \<Rightarrow> 'n buffered_core \<Rightarrow> 'n client \<Rightarrow> bool" where
  "caller_step t c pc c' pc' \<longleftrightarrow>
     (at_rest pc \<and> (\<exists>call. start_call call c = (c', pc'))) \<or> handle_step t c pc = Some (c', pc') \<or>
     (\<exists>ch. flush_step t ch c pc = Some (c', pc')) \<or> (\<exists>ch. shutdown_step ch c pc = Some (c', pc'))"

lemma buffered_step_cases:
  assumes "buffered_step s s'"
  obtains (caller) t c' pc' where
      "caller_step t (sy_core s) (sy_clients s t) c' pc'"
      "s' = s\<lparr>sy_core := c', sy_clients := (sy_clients s)(t := pc')\<rparr>"
  | (worker) wch c' w' where
      "worker_step wch (sy_core s) (sy_worker s) = Some (c', w')"
      "s' = s\<lparr>sy_core := c', sy_worker := w'\<rparr>"
  using assms
proof cases
  case (start t call c pc)
  show thesis by (rule caller [of t c pc]) (use start in \<open>auto simp: caller_step_def\<close>)
next
  case (handle t c pc)
  show thesis by (rule caller [of t c pc]) (use handle in \<open>auto simp: caller_step_def\<close>)
next
  case (flush t ch c pc)
  show thesis by (rule caller [of t c pc]) (use flush in \<open>auto simp: caller_step_def\<close>)
next
  case (shutdown ch t c pc)
  show thesis by (rule caller [of t c pc]) (use shutdown in \<open>auto simp: caller_step_def\<close>)
next
  case (worker wch c w)
  then show thesis by (intro that(2)) auto
qed

datatype lock_op = NoLock | AcquireRead | ReleaseRead | AcquireWrite | ReleaseWrite

definition locks :: "lock_op \<Rightarrow> nat \<Rightarrow> 'n buffered_core \<Rightarrow> 'n buffered_core \<Rightarrow> bool" where
  "locks lop t c c' \<longleftrightarrow> (case lop of
       NoLock \<Rightarrow> bc_readers c' = bc_readers c \<and> bc_writer c' = bc_writer c
     | AcquireRead \<Rightarrow> \<not> bc_writer c \<and> bc_readers c' = insert t (bc_readers c) \<and> \<not> bc_writer c'
     | ReleaseRead \<Rightarrow> bc_readers c' = bc_readers c - {t} \<and> bc_writer c' = bc_writer c
     | AcquireWrite \<Rightarrow> \<not> bc_writer c \<and> bc_readers c = {} \<and> bc_readers c' = {} \<and> bc_writer c'
     | ReleaseWrite \<Rightarrow> bc_readers c' = bc_readers c \<and> \<not> bc_writer c')"

definition lock_step :: "bool \<Rightarrow> bool \<Rightarrow> bool \<Rightarrow> bool \<Rightarrow> lock_op" where
  "lock_step r w r' w' =
     (if r = r' \<and> w = w' then NoLock else if r' \<and> \<not> r then AcquireRead else if r \<and> \<not> r' then ReleaseRead
      else if w' then AcquireWrite else ReleaseWrite)"

definition lock_ok :: "nat \<Rightarrow> 'n buffered_core \<Rightarrow> 'n client \<Rightarrow> 'n buffered_core \<Rightarrow> 'n client \<Rightarrow> bool" where
  "lock_ok t c pc c' pc' \<longleftrightarrow>
     locks (lock_step (holds_read pc) (holds_write pc) (holds_read pc') (holds_write pc')) t c c' \<and>
     \<not> (holds_read pc \<and> holds_write pc') \<and> \<not> (holds_write pc \<and> holds_read pc')"

lemma handle_step_lock:
  "handle_step t c pc = Some (c', pc') \<Longrightarrow>
   lock_ok t c pc c' pc'"
  by (erule handle_stepE) (auto simp: lock_ok_def locks_def lock_step_def buffered_step_defs split: if_splits option.splits)

lemma flush_step_lock:
  "flush_step t ch c pc = Some (c', pc') \<Longrightarrow>
   lock_ok t c pc c' pc'"
  by (erule flush_stepE) (auto simp: lock_ok_def locks_def lock_step_def buffered_step_defs split: if_splits option.splits choice.splits)

lemma shutdown_step_lock:
  "shutdown_step ch c pc = Some (c', pc') \<Longrightarrow>
   lock_ok t c pc c' pc'"
  by (erule shutdown_stepE) (auto simp: lock_ok_def locks_def lock_step_def buffered_step_defs split: if_splits option.splits choice.splits)

lemma start_call_lock:
  "at_rest pc \<Longrightarrow> start_call call c = (c', pc') \<Longrightarrow>
   lock_ok t c pc c' pc'"
  by (cases pc; cases call) (auto simp: lock_ok_def locks_def lock_step_def)

lemma caller_step_lock:
  "caller_step t c pc c' pc' \<Longrightarrow>
   lock_ok t c pc c' pc'"
  unfolding caller_step_def
  using start_call_lock handle_step_lock flush_step_lock shutdown_step_lock by metis

lemma not_both: "\<not> (holds_read pc \<and> holds_write pc)"
  by (cases pc) auto

lemma worker_step_lock:
  "worker_step wch c w = Some (c', w') \<Longrightarrow>
   locks (lock_step False (w = WorkerExitLocked) False (w' = WorkerExitLocked)) t c c'"
  by (erule worker_stepE)
     (auto simp: locks_def lock_step_def buffered_step_defs
       split: if_splits option.splits list.splits worker_choice.splits)

lemma lock_inv_init: "lock_inv (NewBufferedHandler n)"
  by (simp add: lock_inv_def NewBufferedHandler_def NewBufferedCore_def writers_def Let_def)

lemma lock_inv_caller:
  assumes "lock_inv s" "caller_step t (sy_core s) (sy_clients s t) c' pc'"
  shows "lock_inv (s\<lparr>sy_core := c', sy_clients := (sy_clients s)(t := pc')\<rparr>)"
proof -
  let ?pc = "sy_clients s t" and ?s' = "s\<lparr>sy_core := c', sy_clients := (sy_clients s)(t := pc')\<rparr>"
  note l = caller_step_lock [OF assms(2)]
  have w: "writers ?s' = (if holds_write pc' then insert (Some t) (writers s) else writers s - {Some t})"
    by (auto simp: writers_def)
  have me: "Some t \<in> writers s \<longleftrightarrow> holds_write ?pc" by (auto simp: writers_def)
  show ?thesis
    using assms(1) l w me not_both [of ?pc] not_both [of pc']
    by (auto simp: lock_inv_def lock_ok_def locks_def lock_step_def split: if_splits)
qed

lemma lock_inv_worker:
  assumes "lock_inv s" "worker_step wch (sy_core s) (sy_worker s) = Some (c', w')"
  shows "lock_inv (s\<lparr>sy_core := c', sy_worker := w'\<rparr>)"
proof -
  let ?s' = "s\<lparr>sy_core := c', sy_worker := w'\<rparr>"
  note l = worker_step_lock [OF assms(2), of 0]
  have w: "writers ?s' = (if w' = WorkerExitLocked then insert None (writers s) else writers s - {None})"
    by (auto simp: writers_def)
  have me: "None \<in> writers s \<longleftrightarrow> sy_worker s = WorkerExitLocked" by (auto simp: writers_def)
  show ?thesis
    using assms(1) l w me by (auto simp: lock_inv_def locks_def lock_step_def split: if_splits)
qed

lemma lock_inv_reach: "buffered_reach n s \<Longrightarrow> lock_inv s"
proof (induction rule: buffered_reach.induct)
  case init
  show ?case by (rule lock_inv_init)
next
  case (step s s')
  from step(2) show ?case
    by (cases rule: buffered_step_cases) (use step(3) lock_inv_caller lock_inv_worker in blast)+
qed

section \<open>Phases and the queue\<close>

fun sends :: "'n client \<Rightarrow> bool" where
  "sends (HandleSend item) = True"
| "sends (FlushSelect b) = True"
| "sends _ = False"

fun has_shut :: "'n client \<Rightarrow> bool" where
  "has_shut ShutdownClose = True"
| "has_shut ShutdownAwait = True"
| "has_shut ShutdownTake = True"
| "has_shut _ = False"

fun finished :: "'n worker \<Rightarrow> bool" where
  "finished WorkerExit = True"
| "finished WorkerExitLocked = True"
| "finished WorkerClose = True"
| "finished WorkerGone = True"
| "finished _ = False"

fun draining :: "'n worker \<Rightarrow> bool" where
  "draining WorkerSelect = False"
| "draining (WorkerProcess d item) = d"
| "draining (WorkerCount d err) = d"
| "draining (WorkerRecord d err) = d"
| "draining _ = True"

fun in_hand :: "'n worker \<Rightarrow> 'n buffered_item list" where
  "in_hand (WorkerProcess d item) = [item]"
| "in_hand _ = []"

text \<open>What a step of a caller can do to the fields the worker depends on.\<close>

definition caller_effect :: "'n buffered_core \<Rightarrow> 'n client \<Rightarrow> 'n buffered_core \<Rightarrow> 'n client \<Rightarrow> bool" where
  "caller_effect c pc c' pc' \<longleftrightarrow>
     bc_size c' = bc_size c \<and> bc_workerDone c' = bc_workerDone c \<and> gh_done c' = gh_done c \<and>
     bc_closed c' = bc_closed c \<and> bc_panicked c' = bc_panicked c \<and>
     bc_handlerErrors c' = bc_handlerErrors c \<and> gh_errors c' = gh_errors c \<and>
     (bc_queue c' = bc_queue c \<and> gh_sent c' = gh_sent c \<or>
      (\<exists>i. sends pc \<and> length (bc_queue c) < bc_size c \<and> bc_queue c' = bc_queue c @ [i] \<and> gh_sent c' = gh_sent c @ [i])) \<and>
     (bc_state c' = bc_state c \<or> holds_write pc \<and> bc_state c = StateRunning \<and> bc_state c' = StateShuttingDown) \<and>
     (bc_shutdownCh c' = bc_shutdownCh c \<or> has_shut pc \<and> bc_shutdownCh c') \<and>
     (has_shut pc' \<longrightarrow> has_shut pc \<or> bc_state c' \<noteq> StateRunning) \<and> (has_shut pc \<longrightarrow> bc_state c' = bc_state c) \<and>
     (sends pc' \<longrightarrow> holds_read pc \<and> bc_state c' = bc_state c \<and> bc_state c = StateRunning)"

lemma start_call_effect: "at_rest pc \<Longrightarrow> start_call call c = (c', pc') \<Longrightarrow> caller_effect c pc c' pc'"
  by (cases pc; cases call) (auto simp: caller_effect_def)

lemma handle_step_effect: "handle_step t c pc = Some (c', pc') \<Longrightarrow> caller_effect c pc c' pc'"
  by (erule handle_stepE) (auto simp: caller_effect_def buffered_step_defs split: if_splits option.splits)

lemma flush_step_effect: "flush_step t ch c pc = Some (c', pc') \<Longrightarrow> caller_effect c pc c' pc'"
  by (erule flush_stepE) (auto simp: caller_effect_def buffered_step_defs split: if_splits option.splits choice.splits)

lemma shutdown_step_effect: "shutdown_step ch c pc = Some (c', pc') \<Longrightarrow> caller_effect c pc c' pc'"
  by (erule shutdown_stepE) (auto simp: caller_effect_def buffered_step_defs split: if_splits option.splits choice.splits)

lemma caller_step_effect: "caller_step t c pc c' pc' \<Longrightarrow> caller_effect c pc c' pc'"
  unfolding caller_step_def
  using start_call_effect handle_step_effect flush_step_effect shutdown_step_effect by metis

lemma sends_holds: "sends pc \<Longrightarrow> holds_read pc"
  by (cases pc) auto

definition phase_inv :: "'n buffered_sys \<Rightarrow> bool" where
  "phase_inv s \<longleftrightarrow>
     (let c = sy_core s; w = sy_worker s in
      (\<forall>t. sends (sy_clients s t) \<longrightarrow> bc_state c = StateRunning) \<and>
      (\<forall>t. has_shut (sy_clients s t) \<longrightarrow> bc_state c \<noteq> StateRunning) \<and>
      (bc_shutdownCh c \<longrightarrow> bc_state c \<noteq> StateRunning) \<and> (draining w \<longrightarrow> bc_shutdownCh c) \<and>
      (finished w \<longrightarrow> bc_queue c = []) \<and> (bc_workerDone c \<longleftrightarrow> w = WorkerGone) \<and>
      (bc_state c = StateStopped \<longleftrightarrow> w = WorkerClose \<or> w = WorkerGone))"

definition queue_inv :: "'n buffered_sys \<Rightarrow> bool" where
  "queue_inv s \<longleftrightarrow>
     gh_sent (sy_core s) = gh_done (sy_core s) @ in_hand (sy_worker s) @ bc_queue (sy_core s) \<and>
     length (bc_queue (sy_core s)) \<le> bc_size (sy_core s)"

lemma finished_draining: "finished w \<Longrightarrow> draining w"
  by (cases w) auto

lemma phase_inv_caller:
  assumes "phase_inv s" "lock_inv s" "caller_step t (sy_core s) (sy_clients s t) c' pc'"
  shows "phase_inv (s\<lparr>sy_core := c', sy_clients := (sy_clients s)(t := pc')\<rparr>)"
proof -
  note e = caller_step_effect [OF assms(3)]
  have alone: "holds_write (sy_clients s t) \<Longrightarrow> \<not> sends (sy_clients s u)" for u
  proof
    assume "holds_write (sy_clients s t)" "sends (sy_clients s u)"
    then have "u \<in> bc_readers (sy_core s)" "Some t \<in> writers s"
      using assms(2) sends_holds by (auto simp: lock_inv_def writers_def)
    with assms(2) show False by (auto simp: lock_inv_def split: if_splits)
  qed
  let ?c = "sy_core s" and ?pc = "sy_clients s t" and ?w = "sy_worker s"
  from assms(1) have
    i1: "\<And>u. sends (sy_clients s u) \<Longrightarrow> bc_state ?c = StateRunning" and
    i2: "\<And>u. has_shut (sy_clients s u) \<Longrightarrow> bc_state ?c \<noteq> StateRunning" and
    i3: "bc_shutdownCh ?c \<Longrightarrow> bc_state ?c \<noteq> StateRunning" and i4: "draining ?w \<Longrightarrow> bc_shutdownCh ?c" and
    i5: "finished ?w \<Longrightarrow> bc_queue ?c = []" and i6: "bc_workerDone ?c \<longleftrightarrow> ?w = WorkerGone" and
    i7: "bc_state ?c = StateStopped \<longleftrightarrow> ?w = WorkerClose \<or> ?w = WorkerGone"
    unfolding phase_inv_def Let_def by blast+
  from e have
    e1: "bc_workerDone c' = bc_workerDone ?c" and
    e2: "bc_queue c' = bc_queue ?c \<or> sends ?pc" and
    e3: "bc_state c' = bc_state ?c \<or> holds_write ?pc \<and> bc_state ?c = StateRunning \<and> bc_state c' = StateShuttingDown" and
    e4: "bc_shutdownCh c' = bc_shutdownCh ?c \<or> has_shut ?pc \<and> bc_shutdownCh c'" and
    e5: "has_shut pc' \<Longrightarrow> has_shut ?pc \<or> bc_state c' \<noteq> StateRunning" and
    e6: "has_shut ?pc \<Longrightarrow> bc_state c' = bc_state ?c" and
    e7: "sends pc' \<Longrightarrow> bc_state c' = bc_state ?c \<and> bc_state ?c = StateRunning"
    unfolding caller_effect_def by blast+
  have g1: "sends (((sy_clients s)(t := pc')) u) \<Longrightarrow> bc_state c' = StateRunning" for u
    using i1 [of u] e3 e7 alone [of u] by (cases "u = t") auto
  have g2: "has_shut (((sy_clients s)(t := pc')) u) \<Longrightarrow> bc_state c' \<noteq> StateRunning" for u
    using i2 [of u] i2 [of t] e3 e5 by (cases "u = t") auto
  have g3: "bc_shutdownCh c' \<Longrightarrow> bc_state c' \<noteq> StateRunning"
    using i3 e4 e3 i2 [of t] by auto
  have g4: "draining ?w \<Longrightarrow> bc_shutdownCh c'" using i4 e4 by auto
  have g5: "finished ?w \<Longrightarrow> bc_queue c' = []"
    using finished_draining [of ?w] i3 i4 i5 e2 i1 [of t] by auto
  have g7: "bc_state c' = StateStopped \<longleftrightarrow> ?w = WorkerClose \<or> ?w = WorkerGone"
    using e3 i7 by auto
  show ?thesis
    unfolding phase_inv_def Let_def
    using g1 g2 g3 g4 g5 g7 i6 e1 by (simp del: fun_upd_apply)
qed

text \<open>What a step of the worker can do to them.\<close>

lemma worker_step_effect:
  assumes "worker_step wch c w = Some (c', w')"
  shows "bc_shutdownCh c' = bc_shutdownCh c \<and> bc_size c' = bc_size c \<and> gh_sent c' = gh_sent c \<and>
    bc_state c' = (if w = WorkerExitLocked then StateStopped else bc_state c) \<and>
    bc_workerDone c' = (bc_workerDone c \<or> w = WorkerClose) \<and>
    (w' = WorkerGone \<longleftrightarrow> w = WorkerClose) \<and> (w' = WorkerClose \<longleftrightarrow> w = WorkerExitLocked) \<and> w \<noteq> WorkerGone \<and>
    (draining w' \<longrightarrow> draining w \<or> bc_shutdownCh c) \<and> (finished w' \<longrightarrow> finished w \<or> bc_queue c' = []) \<and>
    (finished w \<longrightarrow> bc_queue c' = bc_queue c) \<and>
    (bc_queue c' = bc_queue c \<and> in_hand w' = in_hand w \<and> gh_done c' = gh_done c \<or>
     (\<exists>i. bc_queue c = i # bc_queue c' \<and> in_hand w = [] \<and> in_hand w' = [i] \<and> gh_done c' = gh_done c) \<or>
     (\<exists>i. bc_queue c' = bc_queue c \<and> in_hand w = [i] \<and> in_hand w' = [] \<and> gh_done c' = gh_done c @ [i]))"
  using assms
  by (elim worker_stepE)
     (auto simp: buffered_step_defs split: if_splits option.splits list.splits worker_choice.splits)

lemma phase_inv_worker:
  assumes "phase_inv s" "worker_step wch (sy_core s) (sy_worker s) = Some (c', w')"
  shows "phase_inv (s\<lparr>sy_core := c', sy_worker := w'\<rparr>)"
proof -
  note e = worker_step_effect [OF assms(2)]
  from assms(1) have i: "sy_worker s = WorkerExitLocked \<Longrightarrow> bc_state (sy_core s) \<noteq> StateRunning"
    by (auto simp: phase_inv_def Let_def)
  show ?thesis using assms(1) e i by (simp add: phase_inv_def Let_def split: if_splits) blast
qed

lemma queue_inv_caller:
  assumes "queue_inv s" "caller_step t (sy_core s) (sy_clients s t) c' pc'"
  shows "queue_inv (s\<lparr>sy_core := c', sy_clients := (sy_clients s)(t := pc')\<rparr>)"
proof -
  let ?c = "sy_core s"
  from assms(1) have q: "gh_sent ?c = gh_done ?c @ in_hand (sy_worker s) @ bc_queue ?c"
    "length (bc_queue ?c) \<le> bc_size ?c" by (simp_all add: queue_inv_def)
  from caller_step_effect [OF assms(2)] have e: "gh_done c' = gh_done ?c" "bc_size c' = bc_size ?c"
    "bc_queue c' = bc_queue ?c \<and> gh_sent c' = gh_sent ?c \<or>
     (\<exists>i. length (bc_queue ?c) < bc_size ?c \<and> bc_queue c' = bc_queue ?c @ [i] \<and> gh_sent c' = gh_sent ?c @ [i])"
    unfolding caller_effect_def by blast+
  from e(3) have "gh_sent c' = gh_done c' @ in_hand (sy_worker s) @ bc_queue c' \<and>
      length (bc_queue c') \<le> bc_size c'"
  proof (elim disjE exE)
    assume "bc_queue c' = bc_queue ?c \<and> gh_sent c' = gh_sent ?c"
    with q e(1,2) show ?thesis by simp
  next
    fix i assume "length (bc_queue ?c) < bc_size ?c \<and> bc_queue c' = bc_queue ?c @ [i] \<and> gh_sent c' = gh_sent ?c @ [i]"
    with q e(1,2) show ?thesis by simp
  qed
  then show ?thesis by (simp add: queue_inv_def)
qed

lemma queue_inv_worker:
  assumes "queue_inv s" "worker_step wch (sy_core s) (sy_worker s) = Some (c', w')"
  shows "queue_inv (s\<lparr>sy_core := c', sy_worker := w'\<rparr>)"
proof -
  let ?c = "sy_core s" and ?w = "sy_worker s"
  from assms(1) have q: "gh_sent ?c = gh_done ?c @ in_hand ?w @ bc_queue ?c"
    "length (bc_queue ?c) \<le> bc_size ?c" by (simp_all add: queue_inv_def)
  from worker_step_effect [OF assms(2)] have e: "gh_sent c' = gh_sent ?c" "bc_size c' = bc_size ?c"
    "bc_queue c' = bc_queue ?c \<and> in_hand w' = in_hand ?w \<and> gh_done c' = gh_done ?c \<or>
     (\<exists>i. bc_queue ?c = i # bc_queue c' \<and> in_hand ?w = [] \<and> in_hand w' = [i] \<and> gh_done c' = gh_done ?c) \<or>
     (\<exists>i. bc_queue c' = bc_queue ?c \<and> in_hand ?w = [i] \<and> in_hand w' = [] \<and> gh_done c' = gh_done ?c @ [i])"
    by blast+
  from e(3) have "gh_sent c' = gh_done c' @ in_hand w' @ bc_queue c' \<and> length (bc_queue c') \<le> bc_size c'"
  proof (elim disjE exE)
    assume "bc_queue c' = bc_queue ?c \<and> in_hand w' = in_hand ?w \<and> gh_done c' = gh_done ?c"
    with q e(1,2) show ?thesis by simp
  next
    fix i assume a: "bc_queue ?c = i # bc_queue c' \<and> in_hand ?w = [] \<and> in_hand w' = [i] \<and> gh_done c' = gh_done ?c"
    then have "length (bc_queue ?c) = Suc (length (bc_queue c'))" by simp
    with q(2) e(2) have "length (bc_queue c') \<le> bc_size c'" by simp
    with a q(1) e(1) show ?thesis by simp
  next
    fix i assume "bc_queue c' = bc_queue ?c \<and> in_hand ?w = [i] \<and> in_hand w' = [] \<and> gh_done c' = gh_done ?c @ [i]"
    with q e(1,2) show ?thesis by simp
  qed
  then show ?thesis by (simp add: queue_inv_def)
qed

lemma queue_phase_reach: "buffered_reach n s \<Longrightarrow> phase_inv s \<and> queue_inv s"
proof (induction rule: buffered_reach.induct)
  case init
  show ?case
    by (simp add: phase_inv_def queue_inv_def NewBufferedHandler_def NewBufferedCore_def Let_def)
next
  case (step s s')
  from step(1) have "lock_inv s" by (rule lock_inv_reach)
  with step(2,3) show ?case
    by (cases rule: buffered_step_cases)
       (use phase_inv_caller phase_inv_worker queue_inv_caller queue_inv_worker in blast)+
qed

lemma size_reach: "buffered_reach n s \<Longrightarrow> bc_size (sy_core s) = nat (max 1 n)"
proof (induction rule: buffered_reach.induct)
  case init
  show ?case by (simp add: NewBufferedHandler_def NewBufferedCore_def Let_def max_def)
next
  case (step s s')
  from step(2) show ?case
  proof (cases rule: buffered_step_cases)
    case (caller t c' pc')
    with step(3) caller_step_effect [OF caller(1)] show ?thesis by (simp add: caller_effect_def)
  next
    case (worker wch c' w')
    have "bc_size c' = bc_size (sy_core s)" using worker_step_effect [OF worker(1)] by blast
    with worker step(3) show ?thesis by simp
  qed
qed

section \<open>History\<close>

fun owns :: "'n client \<Rightarrow> nat set" where
  "owns (HandleStart item) = {item_id item}"
| "owns (HandleLocked item) = {item_id item}"
| "owns (HandleSend item) = {item_id item}"
| "owns (HandleReject item) = {item_id item}"
| "owns (HandleDrop item) = {item_id item}"
| "owns (FlushTry b) = {b}"
| "owns (FlushLocked b) = {b}"
| "owns (FlushSelect b) = {b}"
| "owns (FlushRecheck b) = {b}"
| "owns _ = {}"

text \<open>What a caller past its send, or past its barrier, knows.\<close>

fun knows :: "'n buffered_core \<Rightarrow> 'n client \<Rightarrow> bool" where
  "knows c (HandleStart item) = is_record item"
| "knows c (HandleLocked item) = is_record item"
| "knows c (HandleSend item) = is_record item"
| "knows c (HandleSent item) = (is_record item \<and> item \<in> set (gh_sent c))"
| "knows c (HandleReject item) = is_record item"
| "knows c (HandleDrop item) = is_record item"
| "knows c (FlushSent b) = (Barrier b \<in> set (gh_sent c))"
| "knows c (FlushAwait b) = (Barrier b \<in> set (gh_sent c))"
| "knows c (FlushLate b) = (Barrier b \<in> set (gh_sent c))"
| "knows c (FlushTake b) = (b \<in> bc_closed c)"
| "knows c ShutdownTake = bc_workerDone c"
| "knows c _ = True"

definition numbers_effect :: "'n buffered_core \<Rightarrow> 'n client \<Rightarrow> 'n buffered_core \<Rightarrow> 'n client \<Rightarrow> bool" where
  "numbers_effect c pc c' pc' \<longleftrightarrow>
     gh_sent c' = gh_sent c \<and> gh_fresh c' = gh_fresh c \<and> owns pc' \<subseteq> owns pc \<and> gh_before c' = gh_before c \<or>
     gh_sent c' = gh_sent c \<and> gh_fresh c' = Suc (gh_fresh c) \<and> owns pc' = {gh_fresh c} \<and>
       (gh_before c' = gh_before c \<or> gh_before c' = (gh_before c)(gh_fresh c := gh_sent c)) \<or>
     (\<exists>i. gh_sent c' = gh_sent c @ [i] \<and> gh_fresh c' = gh_fresh c \<and> owns pc = {item_id i} \<and> owns pc' = {} \<and>
       gh_before c' = gh_before c)"

lemma start_call_numbers: "at_rest pc \<Longrightarrow> start_call call c = (c', pc') \<Longrightarrow> numbers_effect c pc c' pc'"
  by (cases pc; cases call) (auto simp: numbers_effect_def)

lemma handle_step_numbers: "handle_step t c pc = Some (c', pc') \<Longrightarrow> numbers_effect c pc c' pc'"
  by (erule handle_stepE) (auto simp: numbers_effect_def buffered_step_defs split: if_splits option.splits)

lemma flush_step_numbers: "flush_step t ch c pc = Some (c', pc') \<Longrightarrow> numbers_effect c pc c' pc'"
  by (erule flush_stepE) (auto simp: numbers_effect_def buffered_step_defs split: if_splits option.splits choice.splits)

lemma shutdown_step_numbers: "shutdown_step ch c pc = Some (c', pc') \<Longrightarrow> numbers_effect c pc c' pc'"
  by (erule shutdown_stepE) (auto simp: numbers_effect_def buffered_step_defs split: if_splits option.splits choice.splits)

lemma caller_step_numbers: "caller_step t c pc c' pc' \<Longrightarrow> numbers_effect c pc c' pc'"
  unfolding caller_step_def
  using start_call_numbers handle_step_numbers flush_step_numbers shutdown_step_numbers by metis

lemma start_call_knows: "at_rest pc \<Longrightarrow> start_call call c = (c', pc') \<Longrightarrow> knows c pc \<Longrightarrow> knows c' pc'"
  by (cases pc; cases call) auto

lemma handle_step_knows: "handle_step t c pc = Some (c', pc') \<Longrightarrow> knows c pc \<Longrightarrow> knows c' pc'"
  by (erule handle_stepE) (auto simp: buffered_step_defs split: if_splits option.splits)

lemma flush_step_knows: "flush_step t ch c pc = Some (c', pc') \<Longrightarrow> knows c pc \<Longrightarrow> knows c' pc'"
  by (erule flush_stepE) (auto simp: buffered_step_defs split: if_splits option.splits choice.splits)

lemma shutdown_step_knows: "shutdown_step ch c pc = Some (c', pc') \<Longrightarrow> knows c pc \<Longrightarrow> knows c' pc'"
  by (erule shutdown_stepE) (auto simp: buffered_step_defs split: if_splits option.splits choice.splits)

lemma caller_step_knows: "caller_step t c pc c' pc' \<Longrightarrow> knows c pc \<Longrightarrow> knows c' pc'"
  unfolding caller_step_def
  using start_call_knows handle_step_knows flush_step_knows shutdown_step_knows by metis

lemma knows_mono:
  "knows c pc \<Longrightarrow> set (gh_sent c) \<subseteq> set (gh_sent c') \<Longrightarrow> bc_closed c \<subseteq> bc_closed c' \<Longrightarrow>
   (bc_workerDone c \<Longrightarrow> bc_workerDone c') \<Longrightarrow> knows c' pc"
  by (cases pc) auto

text \<open>What the worker does to the history.\<close>

lemma worker_step_history:
  assumes "worker_step wch c w = Some (c', w')"
  shows "gh_sent c' = gh_sent c \<and> gh_fresh c' = gh_fresh c \<and> gh_before c' = gh_before c \<and>
    gh_outcomes c' = gh_outcomes c \<and> bc_dropped c' = bc_dropped c \<and> bc_rejected c' = bc_rejected c \<and>
    gh_taken c' = gh_taken c \<and> bc_size c' = bc_size c \<and>
    (bc_workerDone c \<longrightarrow> bc_workerDone c') \<and>
    (gh_done c' = gh_done c \<and> bc_closed c' = bc_closed c \<and>
       (bc_panicked c' \<longrightarrow> bc_panicked c \<or> w = WorkerClose \<and> bc_workerDone c) \<or>
     (\<exists>i d. w = WorkerProcess d i \<and> gh_done c' = gh_done c @ [i] \<and>
       bc_closed c' = bc_closed c \<union> {b. i = Barrier b} \<and>
       (bc_panicked c' \<longrightarrow> bc_panicked c \<or> (\<exists>b. i = Barrier b \<and> b \<in> bc_closed c))))"
  using assms
  by (elim worker_stepE)
     (auto simp: buffered_step_defs split: if_splits option.splits list.splits worker_choice.splits)

definition numbers_inv :: "'n buffered_sys \<Rightarrow> bool" where
  "numbers_inv s \<longleftrightarrow>
     (let c = sy_core s in
      distinct (map item_id (gh_sent c)) \<and> (\<forall>i \<in> set (gh_sent c). item_id i < gh_fresh c) \<and>
      (\<forall>t. \<forall>k \<in> owns (sy_clients s t). k < gh_fresh c \<and> k \<notin> item_id ` set (gh_sent c)) \<and>
      (\<forall>t u. t \<noteq> u \<longrightarrow> owns (sy_clients s t) \<inter> owns (sy_clients s u) = {}))"

lemma numbers_inv_caller:
  assumes "numbers_inv s" "caller_step t (sy_core s) (sy_clients s t) c' pc'"
  shows "numbers_inv (s\<lparr>sy_core := c', sy_clients := (sy_clients s)(t := pc')\<rparr>)"
proof -
  let ?c = "sy_core s" and ?cl = "(sy_clients s)(t := pc')"
  from assms(1) have n: "distinct (map item_id (gh_sent ?c))" "\<And>i. i \<in> set (gh_sent ?c) \<Longrightarrow> item_id i < gh_fresh ?c"
    "\<And>u k. k \<in> owns (sy_clients s u) \<Longrightarrow> k < gh_fresh ?c \<and> k \<notin> item_id ` set (gh_sent ?c)"
    "\<And>t u. t \<noteq> u \<Longrightarrow> owns (sy_clients s t) \<inter> owns (sy_clients s u) = {}"
    unfolding numbers_inv_def Let_def by blast+
  from caller_step_numbers [OF assms(2)] consider
    (same) "gh_sent c' = gh_sent ?c" "gh_fresh c' = gh_fresh ?c" "owns pc' \<subseteq> owns (sy_clients s t)"
  | (new) "gh_sent c' = gh_sent ?c" "gh_fresh c' = Suc (gh_fresh ?c)" "owns pc' = {gh_fresh ?c}"
  | (sent) i where "gh_sent c' = gh_sent ?c @ [i]" "gh_fresh c' = gh_fresh ?c" "owns (sy_clients s t) = {item_id i}"
      "owns pc' = {}"
    unfolding numbers_effect_def by blast
  then have "distinct (map item_id (gh_sent c')) \<and> (\<forall>i \<in> set (gh_sent c'). item_id i < gh_fresh c') \<and>
      (\<forall>u. \<forall>k \<in> owns (?cl u). k < gh_fresh c' \<and> k \<notin> item_id ` set (gh_sent c')) \<and>
      (\<forall>t u. t \<noteq> u \<longrightarrow> owns (?cl t) \<inter> owns (?cl u) = {})"
  proof cases
    case same
    then have "owns (?cl u) \<subseteq> owns (sy_clients s u)" for u by simp
    with n show ?thesis unfolding same(1,2) by blast
  next
    case new
    have o: "owns (?cl u) = (if u = t then {gh_fresh ?c} else owns (sy_clients s u))" for u
      using new by simp
    have f: "gh_fresh ?c \<notin> item_id ` set (gh_sent ?c)" using n(2) by (metis imageE less_irrefl)
    have g: "gh_fresh ?c \<notin> owns (sy_clients s u)" for u using n(3) by (metis less_irrefl)
    have lt: "i \<in> set (gh_sent ?c) \<Longrightarrow> item_id i < Suc (gh_fresh ?c)" for i using n(2) [of i] by simp
    have lu: "k \<in> owns (sy_clients s u) \<Longrightarrow> k < Suc (gh_fresh ?c)" for k u using n(3) [of k u] by simp
    show ?thesis
      unfolding new(1,2)
    proof (intro conjI allI ballI impI)
      show "distinct (map item_id (gh_sent ?c))" by (rule n)
      show "item_id i < Suc (gh_fresh ?c)" if "i \<in> set (gh_sent ?c)" for i by (rule lt [OF that])
      fix u k assume "k \<in> owns (?cl u)"
      then show "k < Suc (gh_fresh ?c)" "k \<notin> item_id ` set (gh_sent ?c)"
        using f lu [of k u] n(3) [of k u] by (auto simp: o split: if_splits simp del: fun_upd_apply)
    next
      fix v u :: nat assume "v \<noteq> u"
      then show "owns (?cl v) \<inter> owns (?cl u) = {}"
        using n(4) [of v u] g [of u] g [of v] unfolding o by (auto split: if_splits)
    qed
  next
    case sent
    have o: "owns (?cl u) = (if u = t then {} else owns (sy_clients s u))" for u
      using sent by simp
    have i: "item_id i < gh_fresh ?c" "item_id i \<notin> item_id ` set (gh_sent ?c)"
      using n(3) [of "item_id i" t] sent by auto
    have u: "u \<noteq> t \<Longrightarrow> item_id i \<notin> owns (sy_clients s u)" for u
      using n(4) [of t u] sent by auto
    show ?thesis unfolding sent(1,2) o using n i u by auto
  qed
  then show ?thesis by (simp add: numbers_inv_def Let_def del: fun_upd_apply)
qed

definition history_inv :: "'n buffered_sys \<Rightarrow> bool" where
  "history_inv s \<longleftrightarrow>
     (let c = sy_core s in
      (\<forall>t. knows c (sy_clients s t)) \<and> bc_closed c = {b. Barrier b \<in> set (gh_done c)} \<and> \<not> bc_panicked c \<and>
      (\<forall>b. set (gh_before c b) \<subseteq> set (gh_sent c)) \<and>
      (\<forall>xs b ys. gh_sent c = xs @ Barrier b # ys \<longrightarrow> set (gh_before c b) \<subseteq> set xs))"

lemma history_inv_caller:
  assumes "history_inv s" "numbers_inv s" "caller_step t (sy_core s) (sy_clients s t) c' pc'"
  shows "history_inv (s\<lparr>sy_core := c', sy_clients := (sy_clients s)(t := pc')\<rparr>)"
proof -
  let ?c = "sy_core s" and ?cl = "(sy_clients s)(t := pc')"
  from assms(1) have h: "\<And>u. knows ?c (sy_clients s u)" "bc_closed ?c = {b. Barrier b \<in> set (gh_done ?c)}"
    "\<not> bc_panicked ?c" "\<And>b. set (gh_before ?c b) \<subseteq> set (gh_sent ?c)"
    "\<And>xs b ys. gh_sent ?c = xs @ Barrier b # ys \<Longrightarrow> set (gh_before ?c b) \<subseteq> set xs"
    unfolding history_inv_def Let_def by blast+
  from caller_step_effect [OF assms(3)] have e: "gh_done c' = gh_done ?c" "bc_closed c' = bc_closed ?c"
    "bc_panicked c' = bc_panicked ?c" "bc_workerDone c' = bc_workerDone ?c"
    unfolding caller_effect_def by blast+
  note n = caller_step_numbers [OF assms(3)]
  have grow: "set (gh_sent ?c) \<subseteq> set (gh_sent c')"
    using n unfolding numbers_effect_def by auto
  have k: "knows c' (?cl u)" for u
    using caller_step_knows [OF assms(3) h(1)] knows_mono [OF h(1) grow] e by simp
  have fresh: "Barrier (gh_fresh ?c) \<notin> set (gh_sent ?c)"
    using assms(2) by (fastforce simp: numbers_inv_def Let_def)
  have b: "(\<forall>b. set (gh_before c' b) \<subseteq> set (gh_sent c')) \<and>
      (\<forall>xs b ys. gh_sent c' = xs @ Barrier b # ys \<longrightarrow> set (gh_before c' b) \<subseteq> set xs)"
    using n unfolding numbers_effect_def
  proof (elim disjE conjE exE)
    assume "gh_sent c' = gh_sent ?c" "gh_before c' = gh_before ?c"
    then show ?thesis using h by simp
  next
    assume "gh_sent c' = gh_sent ?c" "gh_before c' = gh_before ?c"
    then show ?thesis using h by simp
  next
    assume "gh_sent c' = gh_sent ?c" "gh_before c' = (gh_before ?c)(gh_fresh ?c := gh_sent ?c)"
    then show ?thesis using h(4,5) fresh by auto
  next
    fix i assume s': "gh_sent c' = gh_sent ?c @ [i]" "gh_before c' = gh_before ?c"
    have "set (gh_before ?c b) \<subseteq> set xs" if "gh_sent ?c @ [i] = xs @ Barrier b # ys" for xs b ys
    proof (cases ys rule: rev_cases)
      case Nil
      with that have "xs = gh_sent ?c" by simp
      then show ?thesis using h(4) by simp
    next
      case (snoc ys' y)
      with that have "gh_sent ?c = xs @ Barrier b # ys'" by simp
      then show ?thesis by (rule h(5))
    qed
    moreover have "set (gh_before ?c b) \<subseteq> set (gh_sent ?c @ [i])" for b using h(4) [of b] by auto
    ultimately show ?thesis unfolding s' by blast
  qed
  show ?thesis
    using k h(2,3) e b by (simp add: history_inv_def Let_def del: fun_upd_apply)
qed

lemma history_inv_worker:
  assumes "history_inv s" "numbers_inv s" "phase_inv s" "queue_inv s"
    and "worker_step wch (sy_core s) (sy_worker s) = Some (c', w')"
  shows "history_inv (s\<lparr>sy_core := c', sy_worker := w'\<rparr>)"
proof -
  let ?c = "sy_core s"
  from assms(1) have h: "\<And>u. knows ?c (sy_clients s u)" "bc_closed ?c = {b. Barrier b \<in> set (gh_done ?c)}"
    "\<not> bc_panicked ?c" "\<And>b. set (gh_before ?c b) \<subseteq> set (gh_sent ?c)"
    "\<And>xs b ys. gh_sent ?c = xs @ Barrier b # ys \<Longrightarrow> set (gh_before ?c b) \<subseteq> set xs"
    unfolding history_inv_def Let_def by blast+
  note w = worker_step_history [OF assms(5)]
  have "sy_worker s = WorkerClose \<Longrightarrow> \<not> bc_workerDone ?c"
    using assms(3) by (auto simp: phase_inv_def Let_def)
  moreover have "b \<notin> bc_closed ?c" if "sy_worker s = WorkerProcess d (Barrier b)" for d b
  proof -
    have sent: "gh_sent ?c = gh_done ?c @ Barrier b # bc_queue ?c"
      using assms(4) that by (simp add: queue_inv_def)
    have "distinct (gh_sent ?c)"
      using assms(2) by (simp add: numbers_inv_def Let_def distinct_map)
    then show ?thesis unfolding sent h(2) by auto
  qed
  ultimately have d: "bc_closed c' = {b. Barrier b \<in> set (gh_done c')}" "\<not> bc_panicked c'"
    "bc_closed ?c \<subseteq> bc_closed c'"
    using w h(2,3) by auto
  have "gh_sent c' = gh_sent ?c" "gh_before c' = gh_before ?c" "bc_workerDone ?c \<Longrightarrow> bc_workerDone c'"
    using w by blast+
  note same = this
  have "knows c' (sy_clients s u)" for u
    using knows_mono [OF h(1) _ d(3)] same by simp
  with same d h(4,5) show ?thesis by (simp add: history_inv_def Let_def) blast
qed

lemma numbers_history_reach: "buffered_reach n s \<Longrightarrow> numbers_inv s \<and> history_inv s"
proof (induction rule: buffered_reach.induct)
  case init
  show ?case
    by (simp add: numbers_inv_def history_inv_def NewBufferedHandler_def NewBufferedCore_def Let_def)
next
  case (step s s')
  from step(1) have pq: "phase_inv s" "queue_inv s" using queue_phase_reach by blast+
  from step(2) show ?case
  proof (cases rule: buffered_step_cases)
    case (caller t c' pc')
    then show ?thesis using numbers_inv_caller history_inv_caller step(3) by blast
  next
    case (worker wch c' w')
    have "gh_sent c' = gh_sent (sy_core s)" "gh_fresh c' = gh_fresh (sy_core s)"
      using worker_step_history [OF worker(1)] by blast+
    then have "numbers_inv s'" using step(3) worker(2) by (simp add: numbers_inv_def Let_def)
    moreover have "history_inv s'" using history_inv_worker [OF _ _ pq worker(1)] step(3) worker(2) by simp
    ultimately show ?thesis by blast
  qed
qed

section \<open>Outcomes of Handle\<close>

definition count_outcomes :: "result \<Rightarrow> 'n buffered_core \<Rightarrow> nat" where
  "count_outcomes res c = length (filter (\<lambda>(i, r). r = res) (gh_outcomes c))"

definition outcome_effect :: "'n buffered_core \<Rightarrow> 'n client \<Rightarrow> 'n buffered_core \<Rightarrow> 'n client \<Rightarrow> bool" where
  "outcome_effect c pc c' pc' \<longleftrightarrow>
     gh_outcomes c' = gh_outcomes c \<and> bc_dropped c' = bc_dropped c \<and> bc_rejected c' = bc_rejected c \<or>
     gh_sent c' = gh_sent c \<and> gh_fresh c' = gh_fresh c \<and> owns pc' = {} \<and>
     (\<exists>i. gh_outcomes c' = gh_outcomes c @ [(i, None)] \<and> pc = HandleSent i \<and>
          bc_dropped c' = bc_dropped c \<and> bc_rejected c' = bc_rejected c \<or>
        gh_outcomes c' = gh_outcomes c @ [(i, Some ErrShutdown)] \<and> pc = HandleReject i \<and>
          bc_dropped c' = bc_dropped c \<and> bc_rejected c' = bc_rejected c + 1 \<or>
        gh_outcomes c' = gh_outcomes c @ [(i, Some ErrBufferFull)] \<and> pc = HandleDrop i \<and>
          bc_dropped c' = bc_dropped c + 1 \<and> bc_rejected c' = bc_rejected c)"

lemma start_call_outcome: "at_rest pc \<Longrightarrow> start_call call c = (c', pc') \<Longrightarrow> outcome_effect c pc c' pc'"
  by (cases pc; cases call) (auto simp: outcome_effect_def)

lemma handle_step_outcome: "handle_step t c pc = Some (c', pc') \<Longrightarrow> outcome_effect c pc c' pc'"
  by (erule handle_stepE) (auto simp: outcome_effect_def buffered_step_defs split: if_splits option.splits)

lemma flush_step_outcome: "flush_step t ch c pc = Some (c', pc') \<Longrightarrow> outcome_effect c pc c' pc'"
  by (erule flush_stepE) (auto simp: outcome_effect_def buffered_step_defs split: if_splits option.splits choice.splits)

lemma shutdown_step_outcome: "shutdown_step ch c pc = Some (c', pc') \<Longrightarrow> outcome_effect c pc c' pc'"
  by (erule shutdown_stepE) (auto simp: outcome_effect_def buffered_step_defs split: if_splits option.splits choice.splits)

lemma caller_step_outcome: "caller_step t c pc c' pc' \<Longrightarrow> outcome_effect c pc c' pc'"
  unfolding caller_step_def
  using start_call_outcome handle_step_outcome flush_step_outcome shutdown_step_outcome by metis

definition outcome_ok :: "'n buffered_sys \<Rightarrow> 'n buffered_item \<Rightarrow> result \<Rightarrow> bool" where
  "outcome_ok s i res \<longleftrightarrow> is_record i \<and>
     (if res = None then i \<in> set (gh_sent (sy_core s))
      else res \<in> {Some ErrShutdown, Some ErrBufferFull} \<and> item_id i < gh_fresh (sy_core s) \<and>
        item_id i \<notin> item_id ` set (gh_sent (sy_core s)) \<and> (\<forall>t. item_id i \<notin> owns (sy_clients s t)))"

definition outcome_inv :: "'n buffered_sys \<Rightarrow> bool" where
  "outcome_inv s \<longleftrightarrow>
     (\<forall>(i, res) \<in> set (gh_outcomes (sy_core s)). outcome_ok s i res) \<and>
     bc_dropped (sy_core s) = of_nat (count_outcomes (Some ErrBufferFull) (sy_core s)) \<and>
     bc_rejected (sy_core s) = of_nat (count_outcomes (Some ErrShutdown) (sy_core s))"

lemma outcome_inv_caller:
  assumes "outcome_inv s" "numbers_inv s" "history_inv s" "caller_step t (sy_core s) (sy_clients s t) c' pc'"
  shows "outcome_inv (s\<lparr>sy_core := c', sy_clients := (sy_clients s)(t := pc')\<rparr>)"
proof -
  let ?c = "sy_core s" and ?cl = "(sy_clients s)(t := pc')"
  let ?s' = "s\<lparr>sy_core := c', sy_clients := ?cl\<rparr>"
  note n = caller_step_numbers [OF assms(4)] and o = caller_step_outcome [OF assms(4)]
  from assms(2) have num: "\<And>u k. k \<in> owns (sy_clients s u) \<Longrightarrow> k < gh_fresh ?c \<and> k \<notin> item_id ` set (gh_sent ?c)"
    "\<And>t u. t \<noteq> u \<Longrightarrow> owns (sy_clients s t) \<inter> owns (sy_clients s u) = {}"
    unfolding numbers_inv_def Let_def by blast+
  have old: "outcome_ok ?s' i res" if "outcome_ok s i res" for i res
  proof (cases "res = None")
    case True
    with that n show ?thesis by (auto simp: outcome_ok_def numbers_effect_def)
  next
    case False
    with that have i: "is_record i" "res \<in> {Some ErrShutdown, Some ErrBufferFull}" "item_id i < gh_fresh ?c"
      "item_id i \<notin> item_id ` set (gh_sent ?c)" "\<And>t. item_id i \<notin> owns (sy_clients s t)"
      by (auto simp: outcome_ok_def)
    have "item_id i < gh_fresh c'" "item_id i \<notin> owns pc'" "item_id i \<notin> item_id ` set (gh_sent c')"
      using n i(3,4) i(5) [of t] unfolding numbers_effect_def by auto
    with i False show ?thesis by (auto simp: outcome_ok_def)
  qed
  show ?thesis
    using o unfolding outcome_effect_def
  proof (elim disjE conjE exE)
    assume "gh_outcomes c' = gh_outcomes ?c" "bc_dropped c' = bc_dropped ?c" "bc_rejected c' = bc_rejected ?c"
    then show ?thesis using assms(1) old by (auto simp: outcome_inv_def count_outcomes_def)
  next
    fix i assume a: "gh_outcomes c' = gh_outcomes ?c @ [(i, None)]" "sy_clients s t = HandleSent i"
      "bc_dropped c' = bc_dropped ?c" "bc_rejected c' = bc_rejected ?c" "gh_sent c' = gh_sent ?c"
    have "knows ?c (HandleSent i)" using assms(3) a(2) unfolding history_inv_def Let_def by metis
    then have "outcome_ok ?s' i None" using a by (simp add: outcome_ok_def)
    with a show ?thesis using assms(1) old by (auto simp: outcome_inv_def count_outcomes_def)
  next
    fix i assume a: "gh_outcomes c' = gh_outcomes ?c @ [(i, Some ErrShutdown)]" "sy_clients s t = HandleReject i"
      "bc_dropped c' = bc_dropped ?c" "bc_rejected c' = bc_rejected ?c + 1" "gh_sent c' = gh_sent ?c"
      "gh_fresh c' = gh_fresh ?c" "owns pc' = {}"
    have "knows ?c (HandleReject i)" using assms(3) a(2) unfolding history_inv_def Let_def by metis
    moreover have "item_id i \<notin> owns (?cl u)" for u using num(2) [of t u] a by auto
    ultimately have "outcome_ok ?s' i (Some ErrShutdown)"
      using a num(1) [of "item_id i" t] by (simp add: outcome_ok_def del: fun_upd_apply)
    with a show ?thesis using assms(1) old by (auto simp: outcome_inv_def count_outcomes_def)
  next
    fix i assume a: "gh_outcomes c' = gh_outcomes ?c @ [(i, Some ErrBufferFull)]" "sy_clients s t = HandleDrop i"
      "bc_dropped c' = bc_dropped ?c + 1" "bc_rejected c' = bc_rejected ?c" "gh_sent c' = gh_sent ?c"
      "gh_fresh c' = gh_fresh ?c" "owns pc' = {}"
    have "knows ?c (HandleDrop i)" using assms(3) a(2) unfolding history_inv_def Let_def by metis
    moreover have "item_id i \<notin> owns (?cl u)" for u using num(2) [of t u] a by auto
    ultimately have "outcome_ok ?s' i (Some ErrBufferFull)"
      using a num(1) [of "item_id i" t] by (simp add: outcome_ok_def del: fun_upd_apply)
    with a show ?thesis using assms(1) old by (auto simp: outcome_inv_def count_outcomes_def)
  qed
qed

lemma outcome_reach: "buffered_reach n s \<Longrightarrow> outcome_inv s"
proof (induction rule: buffered_reach.induct)
  case init
  show ?case
    by (simp add: outcome_inv_def count_outcomes_def NewBufferedHandler_def NewBufferedCore_def Let_def)
next
  case (step s s')
  from step(1) have nh: "numbers_inv s" "history_inv s" using numbers_history_reach by blast+
  from step(2) show ?case
  proof (cases rule: buffered_step_cases)
    case (caller t c' pc')
    then show ?thesis using outcome_inv_caller [OF step(3) nh] by blast
  next
    case (worker wch c' w')
    from worker_step_history [OF worker(1)]
    have "gh_outcomes c' = gh_outcomes (sy_core s)" "gh_sent c' = gh_sent (sy_core s)"
      "gh_fresh c' = gh_fresh (sy_core s)" "bc_dropped c' = bc_dropped (sy_core s)"
      "bc_rejected c' = bc_rejected (sy_core s)"
      by blast+
    moreover from this have "outcome_ok s' i res = outcome_ok s i res" for i res
      using worker(2) by (simp add: outcome_ok_def)
    ultimately show ?thesis
      using step(3) worker(2) by (simp add: outcome_inv_def count_outcomes_def)
  qed
qed

section \<open>Downstream errors\<close>

definition held_error :: "'n buffered_core \<Rightarrow> buffer_error list" where
  "held_error c = (case bc_firstErr c of None \<Rightarrow> [] | Some e \<Rightarrow> [e])"

fun counted :: "'n worker \<Rightarrow> nat" where
  "counted (WorkerRecord d err) = 1"
| "counted _ = 0"

definition error_inv :: "'n buffered_sys \<Rightarrow> bool" where
  "error_inv s \<longleftrightarrow>
     subseq (gh_taken (sy_core s) @ held_error (sy_core s)) (gh_errors (sy_core s)) \<and>
     bc_handlerErrors (sy_core s) = of_nat (length (gh_errors (sy_core s)) + counted (sy_worker s))"

definition error_effect :: "'n buffered_core \<Rightarrow> 'n buffered_core \<Rightarrow> bool" where
  "error_effect c c' \<longleftrightarrow>
     gh_taken c' = gh_taken c \<and> bc_firstErr c' = bc_firstErr c \<or>
     gh_taken c' = gh_taken c @ held_error c \<and> bc_firstErr c' = None"

lemma start_call_error: "at_rest pc \<Longrightarrow> start_call call c = (c', pc') \<Longrightarrow> error_effect c c'"
  by (cases pc; cases call) (auto simp: error_effect_def)

lemma handle_step_error: "handle_step t c pc = Some (c', pc') \<Longrightarrow> error_effect c c'"
  by (erule handle_stepE) (auto simp: error_effect_def buffered_step_defs split: if_splits option.splits)

lemma flush_step_error: "flush_step t ch c pc = Some (c', pc') \<Longrightarrow> error_effect c c'"
  by (erule flush_stepE)
     (auto simp: error_effect_def held_error_def buffered_step_defs split: if_splits option.splits choice.splits)

lemma shutdown_step_error: "shutdown_step ch c pc = Some (c', pc') \<Longrightarrow> error_effect c c'"
  by (erule shutdown_stepE)
     (auto simp: error_effect_def held_error_def buffered_step_defs split: if_splits option.splits choice.splits)

lemma caller_step_error: "caller_step t c pc c' pc' \<Longrightarrow> error_effect c c'"
  unfolding caller_step_def
  using start_call_error handle_step_error flush_step_error shutdown_step_error by metis

lemma worker_step_error:
  assumes "worker_step wch c w = Some (c', w')"
  shows "gh_taken c' = gh_taken c \<and>
    (bc_firstErr c' = bc_firstErr c \<and> gh_errors c' = gh_errors c \<and>
       bc_handlerErrors c' + of_nat (counted w) = bc_handlerErrors c + of_nat (counted w') \<or>
     (\<exists>d err. w = WorkerRecord d err \<and> counted w' = 0 \<and> gh_errors c' = gh_errors c @ [err] \<and>
       bc_handlerErrors c' = bc_handlerErrors c \<and>
       bc_firstErr c' = (if bc_firstErr c = None then Some err else bc_firstErr c)))"
  using assms
  by (elim worker_stepE)
     (auto simp: buffered_step_defs split: if_splits option.splits list.splits worker_choice.splits)

lemma error_inv_caller:
  assumes "error_inv s" "caller_step t (sy_core s) (sy_clients s t) c' pc'"
  shows "error_inv (s\<lparr>sy_core := c', sy_clients := (sy_clients s)(t := pc')\<rparr>)"
proof -
  from caller_step_effect [OF assms(2)] have "gh_errors c' = gh_errors (sy_core s)"
    "bc_handlerErrors c' = bc_handlerErrors (sy_core s)"
    unfolding caller_effect_def by blast+
  moreover have "gh_taken c' @ held_error c' = gh_taken (sy_core s) @ held_error (sy_core s)"
    using caller_step_error [OF assms(2)] unfolding error_effect_def by (auto simp: held_error_def)
  ultimately show ?thesis using assms(1) by (simp add: error_inv_def)
qed

lemma error_inv_worker:
  assumes "error_inv s" "worker_step wch (sy_core s) (sy_worker s) = Some (c', w')"
  shows "error_inv (s\<lparr>sy_core := c', sy_worker := w'\<rparr>)"
proof -
  let ?c = "sy_core s" and ?w = "sy_worker s"
  from assms(1) have i: "subseq (gh_taken ?c @ held_error ?c) (gh_errors ?c)"
    "bc_handlerErrors ?c = of_nat (length (gh_errors ?c)) + of_nat (counted ?w)"
    by (simp_all add: error_inv_def)
  from worker_step_error [OF assms(2)] have t: "gh_taken c' = gh_taken ?c" by blast
  from worker_step_error [OF assms(2)] consider
    (quiet) "bc_firstErr c' = bc_firstErr ?c" "gh_errors c' = gh_errors ?c"
      "bc_handlerErrors c' + of_nat (counted ?w) = bc_handlerErrors ?c + of_nat (counted w')"
  | (rec) d err where "?w = WorkerRecord d err" "counted w' = 0" "gh_errors c' = gh_errors ?c @ [err]"
      "bc_handlerErrors c' = bc_handlerErrors ?c"
      "bc_firstErr c' = (if bc_firstErr ?c = None then Some err else bc_firstErr ?c)"
    by blast
  then have "subseq (gh_taken c' @ held_error c') (gh_errors c') \<and>
      bc_handlerErrors c' = of_nat (length (gh_errors c')) + of_nat (counted w')"
  proof cases
    case quiet
    have "held_error c' = held_error ?c" using quiet(1) by (simp add: held_error_def)
    moreover have "bc_handlerErrors c' = of_nat (length (gh_errors ?c)) + of_nat (counted w')"
      using quiet(3) i(2) by (simp add: add.assoc add.commute add.left_commute)
    ultimately show ?thesis using i(1) t quiet(2) by simp
  next
    case rec
    have "subseq (gh_taken ?c @ held_error c') (gh_errors ?c @ [err])"
    proof (cases "bc_firstErr ?c")
      case None
      then have "held_error c' = [err]" "held_error ?c = []" using rec(5) by (simp_all add: held_error_def)
      with i(1) show ?thesis by (simp add: list_emb_append_mono)
    next
      case (Some e)
      then have "held_error c' = held_error ?c" using rec(5) by (simp add: held_error_def)
      with i(1) show ?thesis by (simp add: subseq_order.order_trans [OF _ subseq_rev_drop_many])
    qed
    then show ?thesis using rec t i(2) by simp
  qed
  then show ?thesis by (simp add: error_inv_def)
qed

lemma error_reach: "buffered_reach n s \<Longrightarrow> error_inv s"
proof (induction rule: buffered_reach.induct)
  case init
  show ?case
    by (simp add: error_inv_def held_error_def NewBufferedHandler_def NewBufferedCore_def Let_def)
next
  case (step s s')
  from step(2) show ?case
    by (cases rule: buffered_step_cases) (use step(3) error_inv_caller error_inv_worker in blast)+
qed

section \<open>Schedules\<close>

text \<open>A schedule is a list of actions; running it gives reachable states to look at.\<close>

datatype 'n buffered_action =
    Call nat "'n call"
  | InHandle nat
  | InFlush nat choice
  | InShutdown nat choice
  | Work worker_choice

definition client_to :: "nat \<Rightarrow> ('n buffered_core \<times> 'n client) option \<Rightarrow> 'n buffered_sys \<Rightarrow> 'n buffered_sys option" where
  "client_to t res s =
     (case res of None \<Rightarrow> None
      | Some (c, pc) \<Rightarrow> Some (s\<lparr>sy_core := c, sy_clients := (sy_clients s)(t := pc)\<rparr>))"

fun buffered_act :: "'n buffered_action \<Rightarrow> 'n buffered_sys \<Rightarrow> 'n buffered_sys option" where
  "buffered_act (Call t call) s =
     (if at_rest (sy_clients s t) then client_to t (Some (start_call call (sy_core s))) s else None)"
| "buffered_act (InHandle t) s = client_to t (handle_step t (sy_core s) (sy_clients s t)) s"
| "buffered_act (InFlush t ch) s = client_to t (flush_step t ch (sy_core s) (sy_clients s t)) s"
| "buffered_act (InShutdown t ch) s = client_to t (shutdown_step ch (sy_core s) (sy_clients s t)) s"
| "buffered_act (Work wch) s =
     (case worker_step wch (sy_core s) (sy_worker s) of None \<Rightarrow> None
      | Some (c, w) \<Rightarrow> Some (s\<lparr>sy_core := c, sy_worker := w\<rparr>))"

fun buffered_exec :: "'n buffered_action list \<Rightarrow> 'n buffered_sys \<Rightarrow> 'n buffered_sys option" where
  "buffered_exec [] s = Some s"
| "buffered_exec (a # as) s = (case buffered_act a s of None \<Rightarrow> None | Some s' \<Rightarrow> buffered_exec as s')"

lemma buffered_act_step: "buffered_act a s = Some s' \<Longrightarrow> buffered_step s s'"
proof (cases a)
  case (Call t call)
  assume "buffered_act a s = Some s'"
  with Call obtain c pc where "at_rest (sy_clients s t)" "start_call call (sy_core s) = (c, pc)"
    "s' = s\<lparr>sy_core := c, sy_clients := (sy_clients s)(t := pc)\<rparr>"
    by (cases "start_call call (sy_core s)") (auto simp: client_to_def split: if_splits)
  then show ?thesis by (auto intro: buffered_step.start)
qed (auto simp: client_to_def split: option.splits intro: buffered_step.intros)

lemma buffered_exec_reach:
  "buffered_exec as s = Some s' \<Longrightarrow> buffered_reach n s \<Longrightarrow> buffered_reach n s'"
proof (induction as arbitrary: s)
  case (Cons a as)
  then obtain s1 where "buffered_act a s = Some s1" "buffered_exec as s1 = Some s'"
    by (auto split: option.splits)
  with Cons show ?case by (blast intro: buffered_act_step buffered_reach.step)
qed simp

section \<open>What callers are promised\<close>

lemma buffered_invs:
  assumes "buffered_reach n s"
  shows "lock_inv s" "phase_inv s" "queue_inv s" "numbers_inv s" "history_inv s" "outcome_inv s" "error_inv s"
  using assms lock_inv_reach queue_phase_reach numbers_history_reach outcome_reach error_reach by blast+

text \<open>
  C2. Delivery is first in, first out and exactly once: at every moment of every schedule, what was accepted is
  what was delivered, then the item the worker holds, then the queue, in that order, with no item twice; the
  queue never exceeds its capacity, which is the requested size but at least one.
\<close>

theorem buffered_fifo_exactly_once:
  assumes "buffered_reach n s"
  shows "gh_sent (sy_core s) = gh_done (sy_core s) @ in_hand (sy_worker s) @ bc_queue (sy_core s) \<and>
    distinct (gh_sent (sy_core s)) \<and> int (Queued s) \<le> max 1 n"
proof -
  note i = buffered_invs [OF assms]
  have "Queued s \<le> nat (max 1 n)"
    using i(3) size_reach [OF assms] by (simp add: queue_inv_def Queued_def)
  then have "int (Queued s) \<le> max 1 n" by linarith
  moreover have "distinct (gh_sent (sy_core s))"
    using i(4) by (simp add: numbers_inv_def Let_def distinct_map)
  ultimately show ?thesis using i(3) by (simp add: queue_inv_def)
qed

abbreviation example_handle :: "unit buffered_action list" where
  "example_handle \<equiv> [Call 0 (CallHandle 7 (NewRecord 0 0 ''m'' 0) \<lparr>bh_next = ()\<rparr>), InHandle 0, InHandle 0, InHandle 0, InHandle 0]"

lemmas buffered_eval = NewBufferedHandler_def NewBufferedCore_def client_to_def buffered_step_defs NewRecord_def

theorem buffered_fifo_exactly_once_witness:
  "\<exists>s. buffered_exec (example_handle @ [Work Receive]) (NewBufferedHandler 0) = Some s \<and>
     gh_sent (sy_core s) = [RecordItem 0 7 (NewRecord 0 0 ''m'' 0) ()] \<and>
     gh_sent (sy_core s) = gh_done (sy_core s) @ in_hand (sy_worker s) @ bc_queue (sy_core s) \<and>
     distinct (gh_sent (sy_core s)) \<and> int (Queued s) \<le> 1"
proof -
  obtain s where s: "buffered_exec (example_handle @ [Work Receive]) (NewBufferedHandler 0) = Some s"
    and sent: "gh_sent (sy_core s) = [RecordItem 0 7 (NewRecord 0 0 ''m'' 0) ()]"
    by (simp add: buffered_eval)
  note f = buffered_fifo_exactly_once [OF buffered_exec_reach [OF s buffered_reach.init]]
  show ?thesis
    by (intro exI [of _ s] conjI, rule s, rule sent, rule f [THEN conjunct1],
        rule f [THEN conjunct2, THEN conjunct1]) (use f in simp)
qed

text \<open>
  C18. The lifecycle goes forward only, and once it has left \<open>running\<close> nothing is accepted: no step of any
  goroutine changes what was accepted, and a \<open>Handle\<close> that starts then returns \<open>ErrShutdown\<close> when it
  reads the state.
\<close>

theorem buffered_accepts_only_while_running:
  assumes "buffered_reach n s" "buffered_step s s'"
  shows "bc_state (sy_core s) \<le> bc_state (sy_core s') \<and>
    (bc_state (sy_core s) \<noteq> StateRunning \<longrightarrow> gh_sent (sy_core s') = gh_sent (sy_core s)) \<and>
    (bc_state (sy_core s) \<noteq> StateRunning \<longrightarrow>
       handle_step t (sy_core s) (HandleLocked item) = Some (RUnlock t (sy_core s), HandleReject item))"
proof -
  note i = buffered_invs [OF assms(1)]
  from assms(2) have "bc_state (sy_core s) \<le> bc_state (sy_core s') \<and>
    (bc_state (sy_core s) \<noteq> StateRunning \<longrightarrow> gh_sent (sy_core s') = gh_sent (sy_core s))"
  proof (cases rule: buffered_step_cases)
    case (caller u c' pc')
    have "sends (sy_clients s u) \<Longrightarrow> bc_state (sy_core s) = StateRunning"
      using i(2) by (auto simp: phase_inv_def Let_def)
    moreover from caller_step_effect [OF caller(1)] have
      "gh_sent c' = gh_sent (sy_core s) \<or> sends (sy_clients s u)"
      "bc_state c' = bc_state (sy_core s) \<or> bc_state (sy_core s) = StateRunning"
      unfolding caller_effect_def by blast+
    ultimately show ?thesis
      using caller(2) by (auto simp: less_eq_lifecycle_state_def)
  next
    case (worker wch c' w')
    have "bc_state (sy_core s) \<le> StateStopped"
      by (cases "bc_state (sy_core s)") (auto simp: less_eq_lifecycle_state_def)
    with worker worker_step_effect [OF worker(1)] show ?thesis by simp
  qed
  then show ?thesis by simp
qed

abbreviation example_shutdown :: "unit buffered_action list" where
  "example_shutdown \<equiv> [Call 1 CallShutdown, InShutdown 1 Proceed, InShutdown 1 Proceed, InShutdown 1 Proceed]"

theorem buffered_accepts_only_while_running_witness:
  "\<exists>s s'. buffered_exec (example_handle @ example_shutdown) (NewBufferedHandler 4) = Some s \<and>
     buffered_act (Work SeeShutdown) s = Some s' \<and> bc_state (sy_core s) = StateShuttingDown \<and>
     gh_sent (sy_core s') = gh_sent (sy_core s)"
proof -
  obtain s where s: "buffered_exec (example_handle @ example_shutdown) (NewBufferedHandler 4) = Some s"
    and st: "bc_state (sy_core s) = StateShuttingDown" and go: "buffered_act (Work SeeShutdown) s \<noteq> None"
    by (simp add: buffered_eval)
  from go obtain s' where s': "buffered_act (Work SeeShutdown) s = Some s'" by blast
  from buffered_accepts_only_while_running [OF buffered_exec_reach [OF s buffered_reach.init]
      buffered_act_step [OF s'], of 0 "Barrier 0"] s s' st
  show ?thesis by (auto simp del: buffered_exec.simps buffered_act.simps)
qed

text \<open>
  C19. \<open>Handle\<close> tells the truth: when it returned nil its record was accepted, when it returned an error its
  record was not and never will be, and \<open>Dropped\<close> and \<open>Rejected\<close> count the calls that returned
  \<open>ErrBufferFull\<close> and \<open>ErrShutdown\<close> (modulo their 64 bits).
\<close>

theorem buffered_handle_outcomes:
  assumes "buffered_reach n s"
  shows "(\<forall>(i, res) \<in> set (gh_outcomes (sy_core s)).
      (res = None \<longrightarrow> i \<in> set (gh_sent (sy_core s))) \<and>
      (res \<noteq> None \<longrightarrow> i \<notin> set (gh_sent (sy_core s)) \<and> (\<forall>t. item_id i \<notin> owns (sy_clients s t)))) \<and>
    Dropped s = of_nat (count_outcomes (Some ErrBufferFull) (sy_core s)) \<and>
    Rejected s = of_nat (count_outcomes (Some ErrShutdown) (sy_core s))"
  using buffered_invs(6) [OF assms]
  by (fastforce simp: outcome_inv_def outcome_ok_def Dropped_def Rejected_def)

theorem buffered_handle_outcomes_witness:
  "\<exists>s. buffered_exec (example_handle @ example_handle) (NewBufferedHandler 1) = Some s \<and>
     map snd (gh_outcomes (sy_core s)) = [None, Some ErrBufferFull] \<and> Dropped s = 1"
proof -
  obtain s where s: "buffered_exec (example_handle @ example_handle) (NewBufferedHandler 1) = Some s"
    and o: "map snd (gh_outcomes (sy_core s)) = [None, Some ErrBufferFull]"
      "count_outcomes (Some ErrBufferFull) (sy_core s) = 1"
    by (simp add: buffered_eval return_handle_def count_outcomes_def)
  from buffered_handle_outcomes [OF buffered_exec_reach [OF s buffered_reach.init]] s o
  show ?thesis by (simp del: buffered_exec.simps)
qed

lemma flush_past_barrier:
  assumes "buffered_reach n s" "sy_clients s t = FlushTake b"
  shows "set (gh_before (sy_core s) b) \<subseteq> set (gh_done (sy_core s))"
proof -
  note i = buffered_invs [OF assms(1)]
  have "knows (sy_core s) (FlushTake b)"
    using i(5) assms(2) unfolding history_inv_def Let_def by metis
  then have "Barrier b \<in> set (gh_done (sy_core s))"
    using i(5) by (simp add: history_inv_def Let_def)
  then obtain xs ys where d: "gh_done (sy_core s) = xs @ Barrier b # ys" by (auto simp: in_set_conv_decomp)
  then have "gh_sent (sy_core s) = xs @ Barrier b # (ys @ in_hand (sy_worker s) @ bc_queue (sy_core s))"
    using i(3) by (simp add: queue_inv_def)
  then have "set (gh_before (sy_core s) b) \<subseteq> set xs"
    using i(5) unfolding history_inv_def Let_def by blast
  with d show ?thesis by auto
qed

text \<open>
  A flush that completes has delivered: when a \<open>Flush\<close> call is past its barrier, about to report the
  downstream error, everything accepted before the call began has been handed to its wrapped handler and
  that handler has returned.
\<close>

theorem buffered_flush_delivers:
  assumes "buffered_reach n s" "sy_clients s t = FlushTake b"
  shows "set (gh_before (sy_core s) b) \<subseteq> set (gh_done (sy_core s))"
  by (rule flush_past_barrier [OF assms])

theorem buffered_flush_delivers_witness:
  "\<exists>s. buffered_exec (example_handle @
        [Call 2 CallFlush, InFlush 2 Proceed, InFlush 2 Proceed, InFlush 2 Proceed, InFlush 2 Proceed,
         Work Receive, Work (HandlerReturns None), Work Receive, Work Receive, InFlush 2 Proceed])
       (NewBufferedHandler 4) = Some s \<and>
     sy_clients s 2 = FlushTake 1 \<and> gh_before (sy_core s) 1 = [RecordItem 0 7 (NewRecord 0 0 ''m'' 0) ()] \<and>
     RecordItem 0 7 (NewRecord 0 0 ''m'' 0) () \<in> set (gh_done (sy_core s))"
proof -
  obtain s where s: "buffered_exec (example_handle @
        [Call 2 CallFlush, InFlush 2 Proceed, InFlush 2 Proceed, InFlush 2 Proceed, InFlush 2 Proceed,
         Work Receive, Work (HandlerReturns None), Work Receive, Work Receive, InFlush 2 Proceed])
       (NewBufferedHandler 4) = Some s"
    and c: "sy_clients s 2 = FlushTake 1" "gh_before (sy_core s) 1 = [RecordItem 0 7 (NewRecord 0 0 ''m'' 0) ()]"
    by (simp add: buffered_eval)
  from buffered_flush_delivers [OF buffered_exec_reach [OF s buffered_reach.init] c(1)] s c
  show ?thesis by (simp del: buffered_exec.simps)
qed

text \<open>
  A shutdown that completes has drained: when a \<open>Shutdown\<close> call has seen the worker exit, the buffer
  is empty, everything ever accepted has been delivered, and the state is \<open>stopped\<close>.
\<close>

theorem buffered_shutdown_drains:
  assumes "buffered_reach n s" "sy_clients s t = ShutdownTake"
  shows "Queued s = 0 \<and> gh_done (sy_core s) = gh_sent (sy_core s) \<and> bc_state (sy_core s) = StateStopped"
proof -
  note i = buffered_invs [OF assms(1)]
  have "knows (sy_core s) ShutdownTake"
    using i(5) assms(2) unfolding history_inv_def Let_def by metis
  then have "sy_worker s = WorkerGone" using i(2) by (simp add: phase_inv_def Let_def)
  with i(2,3) show ?thesis by (simp add: phase_inv_def queue_inv_def Queued_def Let_def)
qed

theorem buffered_shutdown_drains_witness:
  "\<exists>s. buffered_exec (example_handle @ example_shutdown @
        [Work SeeShutdown, Work Receive, Work (HandlerReturns None), Work Receive, Work Receive, Work Receive, Work Receive,
         InShutdown 1 WorkerDoneCh]) (NewBufferedHandler 4) = Some s \<and>
     sy_clients s 1 = ShutdownTake \<and> gh_sent (sy_core s) = [RecordItem 0 7 (NewRecord 0 0 ''m'' 0) ()] \<and>
     Queued s = 0 \<and> gh_done (sy_core s) = gh_sent (sy_core s)"
proof -
  obtain s where s: "buffered_exec (example_handle @ example_shutdown @
        [Work SeeShutdown, Work Receive, Work (HandlerReturns None), Work Receive, Work Receive, Work Receive, Work Receive,
         InShutdown 1 WorkerDoneCh]) (NewBufferedHandler 4) = Some s"
    and c: "sy_clients s 1 = ShutdownTake" "gh_sent (sy_core s) = [RecordItem 0 7 (NewRecord 0 0 ''m'' 0) ()]"
    by (simp add: buffered_eval)
  from buffered_shutdown_drains [OF buffered_exec_reach [OF s buffered_reach.init] c(1)] s c
  show ?thesis by (simp del: buffered_exec.simps)
qed

text \<open>
  Errors of wrapped handlers are reported at most once, in order, and never invented: the errors handed to
  \<open>Flush\<close> and \<open>Shutdown\<close> callers so far, followed by the one held for the next caller, are a
  subsequence of the errors the handlers returned; \<open>HandlerErrors\<close> counts all of those (modulo 64 bits; the one
  being recorded is counted before it is stored).
\<close>

theorem buffered_errors_reported_once:
  assumes "buffered_reach n s"
  shows "subseq (gh_taken (sy_core s) @ held_error (sy_core s)) (gh_errors (sy_core s)) \<and>
    HandlerErrors s = of_nat (length (gh_errors (sy_core s)) + counted (sy_worker s))"
  using buffered_invs(7) [OF assms] by (simp add: error_inv_def HandlerErrors_def)

theorem buffered_errors_reported_once_witness:
  "\<exists>s. buffered_exec (example_handle @ example_handle @
        [Work Receive, Work (HandlerReturns (Some (Downstream ''e1''))), Work Receive, Work Receive,
         Work Receive, Work (HandlerReturns (Some (Downstream ''e2''))), Work Receive, Work Receive])
       (NewBufferedHandler 4) = Some s \<and>
     gh_errors (sy_core s) = [Downstream ''e1'', Downstream ''e2''] \<and> held_error (sy_core s) = [Downstream ''e1''] \<and>
     HandlerErrors s = 2"
proof -
  obtain s where s: "buffered_exec (example_handle @ example_handle @
        [Work Receive, Work (HandlerReturns (Some (Downstream ''e1''))), Work Receive, Work Receive,
         Work Receive, Work (HandlerReturns (Some (Downstream ''e2''))), Work Receive, Work Receive])
       (NewBufferedHandler 4) = Some s"
    and c: "gh_errors (sy_core s) = [Downstream ''e1'', Downstream ''e2'']" "held_error (sy_core s) = [Downstream ''e1'']"
      "sy_worker s = WorkerSelect"
    by (simp add: buffered_eval return_handle_def held_error_def)
  from buffered_errors_reported_once [OF buffered_exec_reach [OF s buffered_reach.init]] s c
  show ?thesis by (simp del: buffered_exec.simps)
qed

text \<open>
  Nothing panics: no barrier and no lifecycle channel is closed twice, in any schedule (the queue channel is never
  closed at all), and the lock is held by its readers or by one writer, never both.
\<close>

theorem buffered_never_panics:
  assumes "buffered_reach n s"
  shows "\<not> bc_panicked (sy_core s) \<and>
    (bc_writer (sy_core s) \<longrightarrow> bc_readers (sy_core s) = {} \<and> (\<exists>w. writers s = {w}))"
  using buffered_invs(1,5) [OF assms]
  by (auto simp: history_inv_def lock_inv_def Let_def split: if_splits)

theorem buffered_never_panics_witness:
  "\<exists>s. buffered_exec (example_shutdown @ [Work SeeShutdown, Work Receive, Work Receive]) (NewBufferedHandler 1) = Some s \<and>
     bc_writer (sy_core s) \<and> \<not> bc_panicked (sy_core s) \<and> bc_readers (sy_core s) = {}"
proof -
  obtain s where s: "buffered_exec (example_shutdown @ [Work SeeShutdown, Work Receive, Work Receive]) (NewBufferedHandler 1) = Some s"
    and w: "bc_writer (sy_core s)"
    by (simp add: buffered_eval)
  from buffered_never_panics [OF buffered_exec_reach [OF s buffered_reach.init]] s w
  show ?thesis by (simp del: buffered_exec.simps)
qed

section \<open>The drain ends\<close>

fun worker_rank :: "'n worker \<Rightarrow> nat" where
  "worker_rank WorkerSelect = 5"
| "worker_rank (WorkerProcess d item) = (if d then 7 else 8)"
| "worker_rank (WorkerCount d err) = (if d then 6 else 7)"
| "worker_rank (WorkerRecord d err) = (if d then 5 else 6)"
| "worker_rank WorkerDrain = 4"
| "worker_rank WorkerExit = 3"
| "worker_rank WorkerExitLocked = 2"
| "worker_rank WorkerClose = 1"
| "worker_rank WorkerGone = 0"

definition work_left :: "'n buffered_sys \<Rightarrow> nat" where
  "work_left s = 6 * length (bc_queue (sy_core s)) + worker_rank (sy_worker s)"

lemma worker_step_work:
  "worker_step wch c w = Some (c', w') \<Longrightarrow>
   6 * length (bc_queue c') + worker_rank w' < 6 * length (bc_queue c) + worker_rank w"
  by (erule worker_stepE)
     (auto simp: buffered_step_defs split: if_splits option.splits list.splits worker_choice.splits)

text \<open>A run, with the number of steps the worker takes in it.\<close>

inductive buffered_run :: "'n buffered_sys \<Rightarrow> nat \<Rightarrow> 'n buffered_sys \<Rightarrow> bool" where
  none: "buffered_run s 0 s"
| caller: "buffered_run s k s' \<Longrightarrow> caller_step t (sy_core s') (sy_clients s' t) c pc \<Longrightarrow>
    buffered_run s k (s'\<lparr>sy_core := c, sy_clients := (sy_clients s')(t := pc)\<rparr>)"
| worker: "buffered_run s k s' \<Longrightarrow> worker_step wch (sy_core s') (sy_worker s') = Some (c, w) \<Longrightarrow>
    buffered_run s (Suc k) (s'\<lparr>sy_core := c, sy_worker := w\<rparr>)"

lemma caller_step_step:
  assumes "caller_step t (sy_core s) (sy_clients s t) c pc"
  shows "buffered_step s (s\<lparr>sy_core := c, sy_clients := (sy_clients s)(t := pc)\<rparr>)"
  using assms unfolding caller_step_def
  by (elim disjE conjE exE) (blast intro: buffered_step.start buffered_step.handle buffered_step.flush buffered_step.shutdown)+

lemma buffered_run_work:
  assumes "buffered_run s k s'" "buffered_reach n s" "bc_state (sy_core s) \<noteq> StateRunning"
  shows "k + work_left s' \<le> work_left s \<and> buffered_reach n s' \<and> bc_state (sy_core s') \<noteq> StateRunning"
  using assms
proof (induction rule: buffered_run.induct)
  case (caller s k s' t c pc)
  then have IH: "k + work_left s' \<le> work_left s" "buffered_reach n s'" "bc_state (sy_core s') \<noteq> StateRunning"
    by blast+
  note e = caller_step_effect [OF caller(2)]
  have "\<not> sends (sy_clients s' t)"
    using buffered_invs(2) [OF IH(2)] IH(3) by (auto simp: phase_inv_def Let_def)
  then have "bc_queue c = bc_queue (sy_core s')" "bc_state c \<noteq> StateRunning"
    using e IH(3) unfolding caller_effect_def by auto
  moreover have "buffered_reach n (s'\<lparr>sy_core := c, sy_clients := (sy_clients s')(t := pc)\<rparr>)"
    using IH(2) caller_step_step [OF caller(2)] by (rule buffered_reach.step)
  ultimately show ?case using IH(1) by (simp add: work_left_def)
next
  case (worker s k s' wch c w)
  then have IH: "k + work_left s' \<le> work_left s" "buffered_reach n s'" "bc_state (sy_core s') \<noteq> StateRunning"
    by blast+
  have "bc_state c \<noteq> StateRunning" using worker_step_effect [OF worker(2)] IH(3) by auto
  moreover have "buffered_reach n (s'\<lparr>sy_core := c, sy_worker := w\<rparr>)"
    using IH(2) buffered_step.worker [OF worker(2)] by (rule buffered_reach.step)
  ultimately show ?case using IH(1) worker_step_work [OF worker(2)] by (simp add: work_left_def)
qed simp

text \<open>
  C21. The drain ends: once \<open>Shutdown\<close> has left \<open>running\<close>, whatever callers do and wrapped handlers return,
  the worker takes at most six steps for each queued item and eight more.
\<close>

theorem buffered_drain_terminates:
  assumes "buffered_reach n s" "bc_state (sy_core s) \<noteq> StateRunning" "buffered_run s k s'"
  shows "k \<le> 6 * Queued s + 8"
proof -
  have "k \<le> work_left s" using buffered_run_work [OF assms(3,1,2)] by simp
  moreover have "worker_rank (sy_worker s) \<le> 8" by (cases "sy_worker s") auto
  ultimately show ?thesis by (simp add: work_left_def Queued_def)
qed

theorem buffered_drain_terminates_witness:
  "\<exists>s s'. buffered_exec (example_handle @ example_shutdown) (NewBufferedHandler 4) = Some s \<and>
     buffered_act (Work Receive) s = Some s' \<and> buffered_run s 1 s' \<and> (1::nat) \<le> 6 * Queued s + 8"
proof -
  obtain s where s: "buffered_exec (example_handle @ example_shutdown) (NewBufferedHandler 4) = Some s"
    and st: "bc_state (sy_core s) \<noteq> StateRunning" and go: "buffered_act (Work Receive) s \<noteq> None"
    by (simp add: buffered_eval)
  from go obtain c w where w: "worker_step Receive (sy_core s) (sy_worker s) = Some (c, w)"
    by (auto split: option.splits)
  have run: "buffered_run s 1 (s\<lparr>sy_core := c, sy_worker := w\<rparr>)"
    using buffered_run.worker [OF buffered_run.none w] by simp
  note bound = buffered_drain_terminates [OF buffered_exec_reach [OF s buffered_reach.init] st run]
  have "buffered_act (Work Receive) s = Some (s\<lparr>sy_core := c, sy_worker := w\<rparr>)" using w by simp
  with s run bound show ?thesis by blast
qed

text \<open>
  The worker is never stuck: after the shutdown channel is closed it has exited or can take a step, unless it waits
  for the write lock while some caller holds the lock; and such a caller can take a step (in \<open>Flush\<close>, its timer
  bounds the wait).
\<close>

theorem buffered_drain_progress:
  assumes "buffered_reach n s" "bc_shutdownCh (sy_core s)" "sy_worker s \<noteq> WorkerGone"
  shows "(\<exists>wch c w. worker_step wch (sy_core s) (sy_worker s) = Some (c, w)) \<or>
    (sy_worker s = WorkerExit \<and>
     (\<exists>t c pc. (holds_read (sy_clients s t) \<or> holds_write (sy_clients s t)) \<and>
        caller_step t (sy_core s) (sy_clients s t) c pc))"
proof (cases "sy_worker s")
  case WorkerSelect
  then have "worker_step SeeShutdown (sy_core s) (sy_worker s) = Some (sy_core s, WorkerDrain)"
    using assms(2) by simp
  then show ?thesis by blast
next
  case (WorkerProcess d item)
  then have "\<exists>c w. worker_step (HandlerReturns None) (sy_core s) (sy_worker s) = Some (c, w)"
    by (cases item) auto
  then show ?thesis by blast
next
  case WorkerDrain
  then have "\<exists>c w. worker_step Receive (sy_core s) (sy_worker s) = Some (c, w)"
    by (auto split: list.split)
  then show ?thesis by blast
next
  case WorkerExit
  note l = buffered_invs(1) [OF assms(1)]
  show ?thesis
  proof (cases "bc_writer (sy_core s) \<or> bc_readers (sy_core s) \<noteq> {}")
    case False
    with WorkerExit show ?thesis by (auto simp: Lock_def)
  next
    case True
    then obtain t where t: "holds_read (sy_clients s t) \<or> holds_write (sy_clients s t)"
      using l WorkerExit by (auto simp: lock_inv_def writers_def split: if_splits)
    have "\<exists>c pc. caller_step t (sy_core s) (sy_clients s t) c pc"
    proof (cases "sy_clients s t")
      case (FlushSelect b)
      then have "flush_step t TimerFired (sy_core s) (sy_clients s t) =
          Some (RUnlock t (sy_core s), FlushRecheck b)" by simp
      then show ?thesis unfolding caller_step_def by blast
    qed (use t in \<open>auto simp: caller_step_def Let_def split: option.split\<close>)
    with t WorkerExit show ?thesis by blast
  qed
qed (use assms(3) in \<open>auto simp: Let_def\<close>)

theorem buffered_drain_progress_witness:
  "\<exists>s. buffered_exec (example_shutdown @ [Work SeeShutdown, Work Receive]) (NewBufferedHandler 4) = Some s \<and>
     sy_worker s = WorkerExit \<and>
     ((\<exists>wch c w. worker_step wch (sy_core s) (sy_worker s) = Some (c, w)) \<or>
      (\<exists>t. holds_read (sy_clients s t) \<or> holds_write (sy_clients s t)))"
proof -
  obtain s where s: "buffered_exec (example_shutdown @ [Work SeeShutdown, Work Receive]) (NewBufferedHandler 4) = Some s"
    and c: "bc_shutdownCh (sy_core s)" "sy_worker s = WorkerExit"
    by (simp add: buffered_eval)
  have "sy_worker s \<noteq> WorkerGone" using c(2) by simp
  from buffered_drain_progress [OF buffered_exec_reach [OF s buffered_reach.init] c(1) this] s c(2)
  show ?thesis by blast
qed

section \<open>Calls that nobody interrupts\<close>

text \<open>
  \<open>Handle\<close> run in one piece, as the theories that compose handlers use it, and one round of the worker's loop:
  it takes an item off the queue, and the caller says what the wrapped handler returned.
\<close>

definition BufferedHandler_Handle ::
  "'n buffered_handler \<Rightarrow> nat \<Rightarrow> slog_record \<Rightarrow> 'n buffered_core \<Rightarrow> 'n buffered_core \<times> result" where
  "BufferedHandler_Handle h ctx r c =
     (let item = RecordItem (gh_fresh c) ctx r (bh_next h); c = c\<lparr>gh_fresh := Suc (gh_fresh c)\<rparr>
      in if bc_state c \<noteq> StateRunning
         then (c\<lparr>bc_rejected := bc_rejected c + 1, gh_outcomes := gh_outcomes c @ [(item, Some ErrShutdown)]\<rparr>,
               Some ErrShutdown)
         else (case send item c of
                 Some c \<Rightarrow> (c\<lparr>gh_outcomes := gh_outcomes c @ [(item, None)]\<rparr>, None)
               | None \<Rightarrow>
                   (c\<lparr>bc_dropped := bc_dropped c + 1, gh_outcomes := gh_outcomes c @ [(item, Some ErrBufferFull)]\<rparr>,
                    Some ErrBufferFull)))"

definition take_item :: "'n buffered_core \<Rightarrow> ('n buffered_item \<times> 'n buffered_core) option" where
  "take_item c = (case bc_queue c of [] \<Rightarrow> None | item # q \<Rightarrow> Some (item, c\<lparr>bc_queue := q\<rparr>))"

definition finish_item :: "'n buffered_item \<Rightarrow> result \<Rightarrow> 'n buffered_core \<Rightarrow> 'n buffered_core" where
  "finish_item item res c =
     (case item of
        Barrier b \<Rightarrow> (close_barrier b c)\<lparr>gh_done := gh_done c @ [item]\<rparr>
      | RecordItem i ctx r n \<Rightarrow>
          (let c = c\<lparr>gh_done := gh_done c @ [item]\<rparr>
           in case res of
                None \<Rightarrow> c
              | Some err \<Rightarrow> recordErr err (c\<lparr>bc_handlerErrors := bc_handlerErrors c + 1\<rparr>)))"

fun handle_steps :: "nat \<Rightarrow> nat \<Rightarrow> 'n buffered_core \<times> 'n client \<Rightarrow> ('n buffered_core \<times> 'n client) option" where
  "handle_steps 0 t (c, pc) = Some (c, pc)"
| "handle_steps (Suc n) t (c, pc) =
     (case pc of Returned res \<Rightarrow> Some (c, pc)
      | _ \<Rightarrow> (case handle_step t c pc of None \<Rightarrow> None | Some s \<Rightarrow> handle_steps n t s))"

lemma numeral_steps: "(4::nat) = Suc (Suc (Suc (Suc 0)))"
  by simp

lemma BufferedHandler_Handle_steps:
  assumes "\<not> bc_writer c" "t \<notin> bc_readers c"
  shows "handle_steps 4 t (start_call (CallHandle ctx r h) c) =
    (let (c', res) = BufferedHandler_Handle h ctx r c in Some (c', Returned res))"
proof -
  have "bc_readers c - {t} = bc_readers c" using assms(2) by simp
  then show ?thesis
    using assms
    by (cases "bc_state c = StateRunning"; cases "length (bc_queue c) < bc_size c")
       (simp_all add: BufferedHandler_Handle_def numeral_steps RLock_def RUnlock_def send_def return_handle_def
          Let_def)
qed

lemma take_finish_steps:
  assumes "take_item c = Some (item, c1)"
  shows "worker_step Receive c WorkerSelect = Some (c1, WorkerProcess False item)"
    and "item = Barrier b \<Longrightarrow> worker_step ch c1 (WorkerProcess False item) = Some (finish_item item res c1, WorkerSelect)"
    and "is_record item \<Longrightarrow> worker_step (HandlerReturns None) c1 (WorkerProcess False item) =
      Some (finish_item item None c1, WorkerSelect)"
  using assms
  by (auto simp: take_item_def finish_item_def resume_def Let_def split: list.splits buffered_item.splits)

end
