(* ===== verification/SourceHandler.thy ===== *)
theory SourceHandler
  imports HeldOps
begin

text \<open>
  \<open>handler/source_handler.go\<close> and \<open>handler/component_handler.go\<close>: attribution of a record to its call
  site. \<open>frames pc\<close> is a parameter: the frame the Go runtime reports for a program counter
  (\<open>runtime.CallersFrames([]uintptr{pc}).Next()\<close>).

  \<open>isClosureSuffix\<close> ranges over runes and the model over bytes: a rune outside ASCII and each of its
  bytes lie beyond \<open>'9'\<close>, so both loops stop with the same answer.
\<close>

section \<open>Strings and paths\<close>

fun LastIndex :: "bytes \<Rightarrow> char \<Rightarrow> nat option" where
  "LastIndex [] c = None"
| "LastIndex (x # xs) c =
     (case LastIndex xs c of
        Some i \<Rightarrow> Some (Suc i)
      | None \<Rightarrow> if x = c then Some 0 else None)"

definition TrimPrefix :: "bytes \<Rightarrow> bytes \<Rightarrow> bytes" where
  "TrimPrefix s p = (if take (length p) s = p then drop (length p) s else s)"

definition after_last :: "bytes \<Rightarrow> char \<Rightarrow> bytes" where
  "after_last s c = (case LastIndex s c of Some i \<Rightarrow> drop (i + 1) s | None \<Rightarrow> s)"

text \<open>\<open>filepath.Base\<close> on a system whose separator is the slash.\<close>

definition filepath_Base :: "bytes \<Rightarrow> bytes" where
  "filepath_Base path =
     (if path = [] then ''.''
      else (let p = rev (dropWhile (\<lambda>c. c = CHR ''/'') (rev path));
                b = after_last p (CHR ''/'')
            in if b = [] then ''/'' else b))"

section \<open>Function names\<close>

definition simplifyFuncName :: "bytes \<Rightarrow> bytes" where
  "simplifyFuncName fn = (case LastIndex fn (CHR ''/'') of Some i \<Rightarrow> drop (i + 1) fn | None \<Rightarrow> fn)"

definition is_digit :: "char \<Rightarrow> bool" where
  "is_digit c \<longleftrightarrow> \<not> (byte c < 48 \<or> byte c > 57)"

definition isClosureSuffix :: "bytes \<Rightarrow> bool" where
  "isClosureSuffix s =
     (let s = TrimPrefix s ''func'' in if s = [] then False else list_all is_digit s)"

lemma LastIndex_less: "LastIndex s c = Some i \<Longrightarrow> i < length s"
  by (induction s arbitrary: i) (auto split: option.splits if_splits)

function strip_closures :: "bytes \<Rightarrow> bytes" where
  "strip_closures fn =
     (case LastIndex fn (CHR ''.'') of
        None \<Rightarrow> fn
      | Some i \<Rightarrow>
          (let suffix = drop (i + 1) fn
           in if \<not> isClosureSuffix suffix then fn else strip_closures (take i fn)))"
  by pat_completeness auto
termination
  by (relation "measure length") (auto dest: LastIndex_less)

declare strip_closures.simps [simp del]

definition shortFuncName :: "bytes \<Rightarrow> bytes" where
  "shortFuncName fn = strip_closures (simplifyFuncName fn)"

section \<open>The handlers\<close>

record frame =
  fm_Function :: bytes
  fm_File :: bytes
  fm_Line :: int

record 'h source_handler =
  so_next :: 'h

definition NewSourceHandler :: "'h \<Rightarrow> 'h source_handler" where
  "NewSourceHandler n = \<lparr>so_next = n\<rparr>"

definition source_attr :: "frame \<Rightarrow> attr" where
  "source_attr f =
     Attr ''source'' (GroupValue
       [String ''function'' (shortFuncName (fm_Function f)),
        String ''file'' (filepath_Base (fm_File f)),
        Attr ''line'' (Int64Value (fm_Line f))])"

text \<open>Every call ends in \<open>next.Handle(ctx, record)\<close>; the model returns that record.\<close>

definition SourceHandler_Handle :: "(nat \<Rightarrow> frame) \<Rightarrow> 'h source_handler \<Rightarrow> slog_record \<Rightarrow> 'h \<times> slog_record" where
  "SourceHandler_Handle frames h r =
     (if r_pc r \<noteq> 0
      then (let f = frames (r_pc r)
            in if fm_File f \<noteq> [] then (so_next h, AddAttrs r [source_attr f]) else (so_next h, r))
      else (so_next h, r))"

definition SourceHandler_WithAttrs ::
  "('h \<Rightarrow> attr list \<Rightarrow> 'h) \<Rightarrow> 'h source_handler \<Rightarrow> attr list \<Rightarrow> 'h source_handler" where
  "SourceHandler_WithAttrs wa h attrs = \<lparr>so_next = wa (so_next h) attrs\<rparr>"

definition SourceHandler_WithGroup ::
  "('h \<Rightarrow> bytes \<Rightarrow> 'h) \<Rightarrow> 'h source_handler \<Rightarrow> bytes \<Rightarrow> 'h source_handler" where
  "SourceHandler_WithGroup wg h name = \<lparr>so_next = wg (so_next h) name\<rparr>"

record 'h component_handler =
  ch_next :: 'h

definition NewComponentHandler :: "'h \<Rightarrow> 'h component_handler" where
  "NewComponentHandler n = \<lparr>ch_next = n\<rparr>"

definition WithOffset :: "'h component_handler \<Rightarrow> int \<Rightarrow> 'h component_handler" where
  "WithOffset h offset = \<lparr>ch_next = ch_next h\<rparr>"

definition component_attr :: "frame \<Rightarrow> attr" where
  "component_attr f =
     Attr ''component'' (GroupValue
       [String ''file'' (filepath_Base (fm_File f)),
        Attr ''line'' (Int64Value (fm_Line f)),
        String ''func'' (simplifyFuncName (fm_Function f))])"

definition ComponentHandler_Handle ::
  "(nat \<Rightarrow> frame) \<Rightarrow> 'h component_handler \<Rightarrow> slog_record \<Rightarrow> 'h \<times> slog_record" where
  "ComponentHandler_Handle frames h r =
     (if r_pc r \<noteq> 0
      then (let f = frames (r_pc r)
            in if fm_File f \<noteq> [] then (ch_next h, AddAttrs r [component_attr f]) else (ch_next h, r))
      else (ch_next h, r))"

definition ComponentHandler_WithAttrs ::
  "('h \<Rightarrow> attr list \<Rightarrow> 'h) \<Rightarrow> 'h component_handler \<Rightarrow> attr list \<Rightarrow> 'h component_handler" where
  "ComponentHandler_WithAttrs wa h attrs = \<lparr>ch_next = wa (ch_next h) attrs\<rparr>"

definition ComponentHandler_WithGroup ::
  "('h \<Rightarrow> bytes \<Rightarrow> 'h) \<Rightarrow> 'h component_handler \<Rightarrow> bytes \<Rightarrow> 'h component_handler" where
  "ComponentHandler_WithGroup wg h name = \<lparr>ch_next = wg (ch_next h) name\<rparr>"

section \<open>Facts about names\<close>

lemma LastIndex_None: "LastIndex s c = None \<longleftrightarrow> c \<notin> set s"
  by (induction s) (auto split: option.splits)

lemma LastIndex_Some:
  "LastIndex s c = Some i \<Longrightarrow> s = take i s @ c # drop (i + 1) s \<and> c \<notin> set (drop (i + 1) s)"
proof (induction s arbitrary: i)
  case (Cons x xs)
  then show ?case
    by (auto split: option.splits if_splits simp: LastIndex_None)
qed simp

lemma LastIndex_append: "c \<notin> set b \<Longrightarrow> LastIndex (a @ c # b) c = Some (length a)"
  by (induction a) (auto simp: LastIndex_None [THEN iffD2])


lemma source_attr_nonempty [simp]: "nonempty_attr (source_attr f)" "nonempty_attr (component_attr f)"
  by (simp_all add: source_attr_def component_attr_def GroupValue_def String_def)








text \<open>The two examples of the comment, and a declared function whose name looks like a closure's.\<close>

lemma short_func_name_examples:
  "shortFuncName ''github.com/acme/svc/orders.(*Service).Reserve'' = ''orders.(*Service).Reserve''"
  "shortFuncName ''httpmw.New.func1.1.1'' = ''httpmw.New''"
  "shortFuncName ''main.func7'' = ''main''"
  by (simp_all add: shortFuncName_def simplifyFuncName_def strip_closures.simps isClosureSuffix_def
      TrimPrefix_def is_digit_def byte_def)

section \<open>What a record gains\<close>

lemma SourceHandler_Handle_cases:
  "SourceHandler_Handle frames h r = (so_next h, r) \<or>
   SourceHandler_Handle frames h r = (so_next h, AddAttrs r [source_attr (frames (r_pc r))])"
  by (simp add: SourceHandler_Handle_def Let_def)

lemma filepath_Base_no_slash: "filepath_Base path = ''/'' \<or> CHR ''/'' \<notin> set (filepath_Base path)"
proof -
  have "CHR ''/'' \<notin> set (after_last s (CHR ''/''))" for s
    by (auto simp: after_last_def LastIndex_None split: option.splits dest: LastIndex_Some)
  then show ?thesis by (simp add: filepath_Base_def Let_def)
qed

interpretation source_next: slog_next "SourceHandler_WithAttrs TestHandler_WithAttrs"
  "SourceHandler_WithGroup TestHandler_WithGroup" "\<lambda>h as. TestHandler_line (so_next h) as"
  by unfold_locales
     (simp_all add: SourceHandler_WithAttrs_def SourceHandler_WithGroup_def test_next.line_with_attrs
        test_next.line_with_group)

end
