(* ===== verification/Decorators.thy ===== *)
theory Decorators
  imports HeldOps
begin

text \<open>
  The handlers that wrap others without state of their own: \<open>levelHandler\<close> (\<open>level.go\<close>),
  \<open>HookHandler\<close> and \<open>MultiHandler\<close> (\<open>handler/hook_handler.go\<close>, \<open>handler/multi_handler.go\<close>), the trace
  correlation handler (\<open>otel/handler.go\<close>) and the counting handler (\<open>prometheus/handler.go\<close>).

  \<open>'h\<close> is the type of the wrapped handlers. A handler's own part of \<open>Handle\<close> returns what it forwards,
  \<open>None\<close> when it ends the call with a nil error. A context is a number that identifies it. What the code
  reads from outside the repository is a parameter: the span context of a context, the registry.
\<close>

type_synonym ctx = nat

section \<open>levelHandler\<close>

record 'h level_handler =
  lh_next :: 'h

text \<open>\<open>lvl\<close> is the value of the shared \<open>LevelVar\<close> when the method reads it.\<close>

definition levelHandler_Enabled :: "int \<Rightarrow> ('h \<Rightarrow> int \<Rightarrow> bool) \<Rightarrow> 'h level_handler \<Rightarrow> int \<Rightarrow> bool" where
  "levelHandler_Enabled lvl enabled h level \<longleftrightarrow> level \<ge> lvl \<and> enabled (lh_next h) level"

definition levelHandler_Handle :: "int \<Rightarrow> 'h level_handler \<Rightarrow> slog_record \<Rightarrow> ('h \<times> slog_record) option" where
  "levelHandler_Handle lvl h r = (if r_level r < lvl then None else Some (lh_next h, r))"

definition levelHandler_WithAttrs ::
  "('h \<Rightarrow> attr list \<Rightarrow> 'h) \<Rightarrow> 'h level_handler \<Rightarrow> attr list \<Rightarrow> 'h level_handler" where
  "levelHandler_WithAttrs wa h attrs = \<lparr>lh_next = wa (lh_next h) attrs\<rparr>"

definition levelHandler_WithGroup ::
  "('h \<Rightarrow> bytes \<Rightarrow> 'h) \<Rightarrow> 'h level_handler \<Rightarrow> bytes \<Rightarrow> 'h level_handler" where
  "levelHandler_WithGroup wg h name = \<lparr>lh_next = wg (lh_next h) name\<rparr>"

section \<open>HookHandler\<close>

type_synonym hook_func = "ctx \<Rightarrow> slog_record \<Rightarrow> ctx \<times> bool"

record 'h hook_handler =
  hk_next :: 'h
  hk_hook :: hook_func

definition NewHookHandler :: "'h \<Rightarrow> hook_func \<Rightarrow> 'h hook_handler" where
  "NewHookHandler n hook = \<lparr>hk_next = n, hk_hook = hook\<rparr>"

definition HookHandler_Handle :: "'h hook_handler \<Rightarrow> ctx \<Rightarrow> slog_record \<Rightarrow> ('h \<times> ctx \<times> slog_record) option" where
  "HookHandler_Handle h ctx r =
     (let (ctx, ok) = hk_hook h ctx r in if \<not> ok then None else Some (hk_next h, ctx, r))"

definition HookHandler_WithAttrs ::
  "('h \<Rightarrow> attr list \<Rightarrow> 'h) \<Rightarrow> 'h hook_handler \<Rightarrow> attr list \<Rightarrow> 'h hook_handler" where
  "HookHandler_WithAttrs wa h attrs = \<lparr>hk_next = wa (hk_next h) attrs, hk_hook = hk_hook h\<rparr>"

definition HookHandler_WithGroup ::
  "('h \<Rightarrow> bytes \<Rightarrow> 'h) \<Rightarrow> 'h hook_handler \<Rightarrow> bytes \<Rightarrow> 'h hook_handler" where
  "HookHandler_WithGroup wg h name = \<lparr>hk_next = wg (hk_next h) name, hk_hook = hk_hook h\<rparr>"

section \<open>MultiHandler\<close>

record 'h multi_handler =
  mh_handlers :: "'h list"

definition NewMultiHandler :: "'h list \<Rightarrow> 'h multi_handler" where
  "NewMultiHandler hs = \<lparr>mh_handlers = hs\<rparr>"

fun any_enabled :: "('h \<Rightarrow> int \<Rightarrow> bool) \<Rightarrow> 'h list \<Rightarrow> int \<Rightarrow> bool" where
  "any_enabled enabled [] level = False"
| "any_enabled enabled (child # hs) level =
     (if enabled child level then True else any_enabled enabled hs level)"

definition MultiHandler_Enabled :: "('h \<Rightarrow> int \<Rightarrow> bool) \<Rightarrow> 'h multi_handler \<Rightarrow> int \<Rightarrow> bool" where
  "MultiHandler_Enabled enabled h level = any_enabled enabled (mh_handlers h) level"

text \<open>
  The loop of \<open>Handle\<close>. \<open>handle\<close> is the children's \<open>Handle\<close> on the state \<open>'w\<close> the handlers share
  (\<open>None\<close> is a panic); \<open>i\<close> is the index of the next child and \<open>errs\<close> the errors so far.
\<close>

fun multi_loop ::
  "('h \<Rightarrow> int \<Rightarrow> bool) \<Rightarrow> ('h \<Rightarrow> slog_record \<Rightarrow> 'w \<Rightarrow> ('w \<times> 'e option) option) \<Rightarrow> slog_record \<Rightarrow>
   nat \<Rightarrow> 'h list \<Rightarrow> 'w \<Rightarrow> (nat \<times> 'e) list \<Rightarrow> ('w \<times> (nat \<times> 'e) list) option" where
  "multi_loop enabled handle r i [] w errs = Some (w, errs)"
| "multi_loop enabled handle r i (child # hs) w errs =
     (if \<not> enabled child (r_level r) then multi_loop enabled handle r (Suc i) hs w errs
      else (case handle child r w of
              None \<Rightarrow> None
            | Some (w, err) \<Rightarrow>
                multi_loop enabled handle r (Suc i) hs w
                  (case err of Some e \<Rightarrow> errs @ [(i, e)] | None \<Rightarrow> errs)))"

definition MultiHandler_Handle ::
  "('h \<Rightarrow> int \<Rightarrow> bool) \<Rightarrow> ('h \<Rightarrow> slog_record \<Rightarrow> 'w \<Rightarrow> ('w \<times> 'e option) option) \<Rightarrow>
   'h multi_handler \<Rightarrow> slog_record \<Rightarrow> 'w \<Rightarrow> ('w \<times> (nat \<times> 'e) list) option" where
  "MultiHandler_Handle enabled handle h r w = multi_loop enabled handle r 0 (mh_handlers h) w []"

definition MultiHandler_WithAttrs ::
  "('h \<Rightarrow> attr list \<Rightarrow> 'h) \<Rightarrow> 'h multi_handler \<Rightarrow> attr list \<Rightarrow> 'h multi_handler" where
  "MultiHandler_WithAttrs wa h attrs = NewMultiHandler (map (\<lambda>child. wa child attrs) (mh_handlers h))"

definition MultiHandler_WithGroup ::
  "('h \<Rightarrow> bytes \<Rightarrow> 'h) \<Rightarrow> 'h multi_handler \<Rightarrow> bytes \<Rightarrow> 'h multi_handler" where
  "MultiHandler_WithGroup wg h name = NewMultiHandler (map (\<lambda>child. wg child name) (mh_handlers h))"

section \<open>Trace correlation\<close>

definition DefaultTraceIDKey :: bytes where "DefaultTraceIDKey = ''trace_id''"
definition DefaultSpanIDKey :: bytes where "DefaultSpanIDKey = ''span_id''"
definition DefaultTraceFlagsKey :: bytes where "DefaultTraceFlagsKey = ''trace_flags''"

text \<open>What the handler asks of a \<open>trace.SpanContext\<close>: its flags and the printed identifiers.\<close>

record span_context =
  sp_valid :: bool
  sp_sampled :: bool
  sp_traceID :: bytes
  sp_spanID :: bytes
  sp_flags :: bytes

record otel_options =
  oo_TraceIDKey :: bytes
  oo_SpanIDKey :: bytes
  oo_TraceFlags :: bool
  oo_Group :: bytes
  oo_OnlySampled :: bool

record 'h otel_handler =
  oh_next :: 'h
  oh_traceIDKey :: bytes
  oh_spanIDKey :: bytes
  oh_traceFlags :: bool
  oh_group :: bytes
  oh_onlySampled :: bool

definition orDefault :: "bytes \<Rightarrow> bytes \<Rightarrow> bytes" where
  "orDefault v fallback = (if v = [] then fallback else v)"

text \<open>A nil \<open>next\<close> is a panic.\<close>

definition otel_NewHandler :: "'h option \<Rightarrow> otel_options \<Rightarrow> 'h otel_handler option" where
  "otel_NewHandler n opts =
     (case n of
        None \<Rightarrow> None
      | Some n \<Rightarrow>
          Some \<lparr>oh_next = n, oh_traceIDKey = orDefault (oo_TraceIDKey opts) DefaultTraceIDKey,
                oh_spanIDKey = orDefault (oo_SpanIDKey opts) DefaultSpanIDKey,
                oh_traceFlags = oo_TraceFlags opts, oh_group = oo_Group opts,
                oh_onlySampled = oo_OnlySampled opts\<rparr>)"

definition otel_Decorator :: "otel_options \<Rightarrow> 'h option \<Rightarrow> 'h otel_handler option" where
  "otel_Decorator opts = (\<lambda>n. otel_NewHandler n opts)"

definition otel_attrs :: "'h otel_handler \<Rightarrow> span_context \<Rightarrow> attr list" where
  "otel_attrs h sc =
     (let attrs = [String (oh_traceIDKey h) (sp_traceID sc), String (oh_spanIDKey h) (sp_spanID sc)];
          attrs = (if oh_traceFlags h then attrs @ [String DefaultTraceFlagsKey (sp_flags sc)] else attrs)
      in if oh_group h \<noteq> [] then [Attr (oh_group h) (GroupValue attrs)] else attrs)"

definition otel_Handle ::
  "(ctx \<Rightarrow> span_context) \<Rightarrow> 'h otel_handler \<Rightarrow> ctx \<Rightarrow> slog_record \<Rightarrow> 'h \<times> slog_record" where
  "otel_Handle span h ctx r =
     (let sc = span ctx
      in if \<not> sp_valid sc \<or> (oh_onlySampled h \<and> \<not> sp_sampled sc) then (oh_next h, r)
         else (oh_next h, AddAttrs r (otel_attrs h sc)))"

definition otel_WithAttrs ::
  "('h \<Rightarrow> attr list \<Rightarrow> 'h) \<Rightarrow> 'h otel_handler \<Rightarrow> attr list \<Rightarrow> 'h otel_handler" where
  "otel_WithAttrs wa h attrs = (if attrs = [] then h else h\<lparr>oh_next := wa (oh_next h) attrs\<rparr>)"

definition otel_WithGroup ::
  "('h \<Rightarrow> bytes \<Rightarrow> 'h) \<Rightarrow> 'h otel_handler \<Rightarrow> bytes \<Rightarrow> 'h otel_handler" where
  "otel_WithGroup wg h name = (if name = [] then h else h\<lparr>oh_next := wg (oh_next h) name\<rparr>)"

section \<open>Prometheus\<close>

text \<open>
  Collectors are numbered; what a registry answers to \<open>Register\<close> is a parameter. \<open>New\<close> gets the number of
  the counter it creates.
\<close>

datatype collector = CounterVec nat | OtherCollector bytes

datatype register_result = Registered | AlreadyRegistered collector | RegisterFailed bytes

datatype prom_error = RegisterError bytes | NotACounterVec bytes

record prom_options =
  po_Namespace :: bytes
  po_Subsystem :: bytes

definition MetricName :: bytes where
  "MetricName = ''kitlogger_records_total''"

record 'h prom_handler =
  pr_next :: 'h
  pr_counter :: nat

text \<open>\<open>BuildFQName\<close>: the parts that are not empty, joined by underscores.\<close>

definition prom_name :: "prom_options \<Rightarrow> bytes" where
  "prom_name opts = join ''_'' (filter (\<lambda>s. s \<noteq> []) [po_Namespace opts, po_Subsystem opts, MetricName])"

definition prom_New ::
  "'h \<Rightarrow> (bytes \<Rightarrow> nat \<Rightarrow> register_result) option \<Rightarrow> prom_options \<Rightarrow> nat \<Rightarrow> prom_error + 'h prom_handler" where
  "prom_New n reg opts counter =
     (case reg of
        None \<Rightarrow> Inr \<lparr>pr_next = n, pr_counter = counter\<rparr>
      | Some register \<Rightarrow>
          (case register (prom_name opts) counter of
             Registered \<Rightarrow> Inr \<lparr>pr_next = n, pr_counter = counter\<rparr>
           | RegisterFailed err \<Rightarrow> Inl (RegisterError err)
           | AlreadyRegistered (OtherCollector t) \<Rightarrow> Inl (NotACounterVec t)
           | AlreadyRegistered (CounterVec existing) \<Rightarrow> Inr \<lparr>pr_next = n, pr_counter = existing\<rparr>))"

definition prom_MustNew ::
  "'h \<Rightarrow> (bytes \<Rightarrow> nat \<Rightarrow> register_result) option \<Rightarrow> prom_options \<Rightarrow> nat \<Rightarrow> 'h prom_handler option" where
  "prom_MustNew n reg opts counter =
     (case prom_New n reg opts counter of Inl err \<Rightarrow> None | Inr h \<Rightarrow> Some h)"

text \<open>The counters of all collectors, by collector and label value.\<close>

type_synonym counters = "nat \<Rightarrow> bytes \<Rightarrow> nat"

definition prom_Handle :: "'h prom_handler \<Rightarrow> slog_record \<Rightarrow> counters \<Rightarrow> ('h \<times> slog_record) \<times> counters" where
  "prom_Handle h r cs =
     (let c = cs (pr_counter h); l = level_string (r_level r)
      in ((pr_next h, r), cs(pr_counter h := c(l := c l + 1))))"

definition prom_WithAttrs ::
  "('h \<Rightarrow> attr list \<Rightarrow> 'h) \<Rightarrow> 'h prom_handler \<Rightarrow> attr list \<Rightarrow> 'h prom_handler" where
  "prom_WithAttrs wa h attrs = \<lparr>pr_next = wa (pr_next h) attrs, pr_counter = pr_counter h\<rparr>"

definition prom_WithGroup ::
  "('h \<Rightarrow> bytes \<Rightarrow> 'h) \<Rightarrow> 'h prom_handler \<Rightarrow> bytes \<Rightarrow> 'h prom_handler" where
  "prom_WithGroup wg h name = \<lparr>pr_next = wg (pr_next h) name, pr_counter = pr_counter h\<rparr>"

definition NewPrometheusHandler :: "'h \<Rightarrow> 'h" where
  "NewPrometheusHandler n = n"

section \<open>Facts\<close>

lemma any_enabled_iff: "any_enabled enabled hs level \<longleftrightarrow> (\<exists>child \<in> set hs. enabled child level)"
  by (induction hs) auto

text \<open>What the loop does to a state that only logs, when no child panics.\<close>

lemma multi_loop_cong [fundef_cong]:
  assumes "hs = hs'" "r = r'" "i = i'" "w = w'" "errs = errs'"
    and "\<And>child. child \<in> set hs' \<Longrightarrow> enabled child (r_level r') = enabled' child (r_level r')"
    and "\<And>child w. child \<in> set hs' \<Longrightarrow> handle child r' w = handle' child r' w"
  shows "multi_loop enabled handle r i hs w errs = multi_loop enabled' handle' r' i' hs' w' errs'"
proof -
  have "(\<And>child. child \<in> set hs \<Longrightarrow> enabled child (r_level r) = enabled' child (r_level r)) \<Longrightarrow>
      (\<And>child w. child \<in> set hs \<Longrightarrow> handle child r w = handle' child r w) \<Longrightarrow>
      multi_loop enabled handle r i hs w errs = multi_loop enabled' handle' r i hs w errs"
    by (induction enabled handle r i hs w errs rule: multi_loop.induct) (auto split: option.splits prod.splits)
  then show ?thesis using assms by simp
qed

lemma any_enabled_cong [fundef_cong]:
  assumes "hs = hs'" "level = level'" "\<And>child. child \<in> set hs' \<Longrightarrow> enabled child level' = enabled' child level'"
  shows "any_enabled enabled hs level = any_enabled enabled' hs' level'"
  using assms by (auto simp: any_enabled_iff)

end
