(* ===== verification/Chain.thy ===== *)
theory Chain
  imports DedupHandler FilterHandler GlobalFieldsHandler SamplingHandler BufferedHandler SourceHandler Decorators
begin

text \<open>
  A whole handler chain: every \<open>slog.Handler\<close> of the repository as a constructor over the handler it wraps,
  with \<open>Enabled\<close>, \<open>Handle\<close>, \<open>WithAttrs\<close> and \<open>WithGroup\<close> dispatched to the models of the single handlers.

  What the handlers share by pointer lives in a world: the \<open>LevelVar\<close>, the samplers' states, the counters
  and the buffers, each under a number, and the log of what the terminal handlers were given. A terminal
  handler (\<open>Sink\<close>) is not part of the chain: its four methods are parameters, \<open>Enabled\<close> with the value of
  the \<open>LevelVar\<close> it may have been built over. A call runs in one piece;
  the interleavings inside a buffer are the subject of \<open>BufferedHandler\<close>.

  \<open>Handle\<close> returns \<open>None\<close> for a panic.
\<close>

section \<open>Chains\<close>

datatype 't chain =
    Sink 't
  | LevelGate "'t chain"
  | Dedup "attr list" "bytes list" "held_op list" "'t chain"
  | Filter "filter_rule list" mode "held_op list" "'t chain"
  | GlobalFields "attr list" bool "held_op list" "'t chain"
  | Source "'t chain"
  | Component "'t chain"
  | Sampling nat duration int float64 "(slog_record \<Rightarrow> bytes) option" "'t chain"
  | Counting nat "'t chain"
  | Buffered nat "'t chain"
  | Hook hook_func "'t chain"
  | Otel bytes bytes bool bytes bool "'t chain"
  | Multi "'t chain list"

text \<open>Between a constructor and the record of the handler's own theory.\<close>

abbreviation (input) "level_view n \<equiv> \<lparr>lh_next = n\<rparr>"
abbreviation (input) "dedup_view p res ops n \<equiv> \<lparr>dh_next = n, dh_pinned = p, dh_reserved = res, dh_ops = ops\<rparr>"
abbreviation (input) "filter_view rules m ops n \<equiv> \<lparr>fh_next = n, fh_rules = rules, fh_mode = m, fh_ops = ops\<rparr>"
abbreviation (input) "global_view fs ov ops n \<equiv> \<lparr>gh_next = n, gh_fields = fs, gh_override = ov, gh_ops = ops\<rparr>"
abbreviation (input) "sampling_view i l p kf n \<equiv>
  \<lparr>sh_next = n, sh_interval = i, sh_minLevel = l, sh_probability = p, sh_keyFunc = kf\<rparr>"
abbreviation (input) "otel_view tk sk tf g os n \<equiv>
  \<lparr>oh_next = n, oh_traceIDKey = tk, oh_spanIDKey = sk, oh_traceFlags = tf, oh_group = g, oh_onlySampled = os\<rparr>"

definition of_level :: "'t chain level_handler \<Rightarrow> 't chain" where
  "of_level h = LevelGate (lh_next h)"
definition of_dedup :: "'t chain dedup_handler \<Rightarrow> 't chain" where
  "of_dedup h = Dedup (dh_pinned h) (dh_reserved h) (dh_ops h) (dh_next h)"
definition of_filter :: "'t chain filter_handler \<Rightarrow> 't chain" where
  "of_filter h = Filter (fh_rules h) (fh_mode h) (fh_ops h) (fh_next h)"
definition of_global :: "'t chain global_fields_handler \<Rightarrow> 't chain" where
  "of_global h = GlobalFields (gh_fields h) (gh_override h) (gh_ops h) (gh_next h)"
definition of_sampling :: "nat \<Rightarrow> 't chain sampling_handler \<Rightarrow> 't chain" where
  "of_sampling k h = Sampling k (sh_interval h) (sh_minLevel h) (sh_probability h) (sh_keyFunc h) (sh_next h)"
definition of_otel :: "'t chain otel_handler \<Rightarrow> 't chain" where
  "of_otel h = Otel (oh_traceIDKey h) (oh_spanIDKey h) (oh_traceFlags h) (oh_group h) (oh_onlySampled h) (oh_next h)"

lemmas of_view_defs = of_level_def of_dedup_def of_filter_def of_global_def of_sampling_def of_otel_def

section \<open>What the chain reads from outside\<close>

record 't chain_env =
  ce_sink_attrs :: "'t \<Rightarrow> attr list \<Rightarrow> 't"
  ce_sink_group :: "'t \<Rightarrow> bytes \<Rightarrow> 't"
  ce_sink_enabled :: "int \<Rightarrow> 't \<Rightarrow> int \<Rightarrow> bool"
  ce_sink_handle :: "'t \<Rightarrow> slog_record \<Rightarrow> bytes option"
  ce_fold :: "bytes \<Rightarrow> bytes \<Rightarrow> bool"
  ce_frames :: "nat \<Rightarrow> frame"
  ce_span :: "ctx \<Rightarrow> span_context"

record 't chain_world =
  cw_level :: int
  cw_sampling :: "nat \<Rightarrow> sampling_state"
  cw_counters :: counters
  cw_cores :: "nat \<Rightarrow> 't chain buffered_core"
  cw_delivered :: "('t \<times> slog_record) list"

datatype handler_error =
    SinkError bytes
  | BufferError buffer_error
  | MultiError "(nat \<times> handler_error) list"

text \<open>The text of an error, as the buffer keeps it.\<close>

fun buffer_error_text :: "buffer_error \<Rightarrow> bytes" where
  "buffer_error_text ErrBufferFull = ''buffered handler: buffer full''"
| "buffer_error_text ErrShutdown = ''buffered handler: shut down''"
| "buffer_error_text CtxErr = ''context done''"
| "buffer_error_text (Downstream t) = t"

fun error_text :: "handler_error \<Rightarrow> bytes" where
  "error_text (SinkError t) = t"
| "error_text (BufferError e) = buffer_error_text e"
| "error_text (MultiError es) =
     join [CHR 0x0A] (map (\<lambda>(i, e). ''multihandler: child '' @ utoa i @ '': '' @ error_text e) es)"

section \<open>Derivation\<close>

lemma derive_congs [fundef_cong]:
  "h = h' \<Longrightarrow> as = as' \<Longrightarrow> (\<And>n as. n = lh_next h' \<Longrightarrow> wa n as = wa' n as) \<Longrightarrow>
    levelHandler_WithAttrs wa h as = levelHandler_WithAttrs wa' h' as'"
  "hf = hf' \<Longrightarrow> as = as' \<Longrightarrow> (\<And>n as. n = fh_next hf' \<Longrightarrow> wa n as = wa' n as) \<Longrightarrow>
    FilterHandler_WithAttrs wa hf as = FilterHandler_WithAttrs wa' hf' as'"
  "hg = hg' \<Longrightarrow> as = as' \<Longrightarrow> (\<And>n as. n = gh_next hg' \<Longrightarrow> wa n as = wa' n as) \<Longrightarrow>
    GlobalFieldsHandler_WithAttrs wa hg as = GlobalFieldsHandler_WithAttrs wa' hg' as'"
  "hs = hs' \<Longrightarrow> as = as' \<Longrightarrow> (\<And>n as. n = so_next hs' \<Longrightarrow> wa n as = wa' n as) \<Longrightarrow>
    SourceHandler_WithAttrs wa hs as = SourceHandler_WithAttrs wa' hs' as'"
  "hc = hc' \<Longrightarrow> as = as' \<Longrightarrow> (\<And>n as. n = ch_next hc' \<Longrightarrow> wa n as = wa' n as) \<Longrightarrow>
    ComponentHandler_WithAttrs wa hc as = ComponentHandler_WithAttrs wa' hc' as'"
  "ha = ha' \<Longrightarrow> as = as' \<Longrightarrow> (\<And>n as. n = sh_next ha' \<Longrightarrow> wa n as = wa' n as) \<Longrightarrow>
    SamplingHandler_WithAttrs wa ha as = SamplingHandler_WithAttrs wa' ha' as'"
  "hp = hp' \<Longrightarrow> as = as' \<Longrightarrow> (\<And>n as. n = pr_next hp' \<Longrightarrow> wa n as = wa' n as) \<Longrightarrow>
    prom_WithAttrs wa hp as = prom_WithAttrs wa' hp' as'"
  "hb = hb' \<Longrightarrow> as = as' \<Longrightarrow> (\<And>n as. n = bh_next hb' \<Longrightarrow> wa n as = wa' n as) \<Longrightarrow>
    BufferedHandler_WithAttrs wa hb as = BufferedHandler_WithAttrs wa' hb' as'"
  "hk = hk' \<Longrightarrow> as = as' \<Longrightarrow> (\<And>n as. n = hk_next hk' \<Longrightarrow> wa n as = wa' n as) \<Longrightarrow>
    HookHandler_WithAttrs wa hk as = HookHandler_WithAttrs wa' hk' as'"
  "ho = ho' \<Longrightarrow> as = as' \<Longrightarrow> (\<And>n as. n = oh_next ho' \<Longrightarrow> wa n as = wa' n as) \<Longrightarrow>
    otel_WithAttrs wa ho as = otel_WithAttrs wa' ho' as'"
  "hm = hm' \<Longrightarrow> as = as' \<Longrightarrow> (\<And>n as. n \<in> set (mh_handlers hm') \<Longrightarrow> wa n as = wa' n as) \<Longrightarrow>
    MultiHandler_WithAttrs wa hm as = MultiHandler_WithAttrs wa' hm' as'"
  by (simp_all add: levelHandler_WithAttrs_def FilterHandler_WithAttrs_def GlobalFieldsHandler_WithAttrs_def
      SourceHandler_WithAttrs_def ComponentHandler_WithAttrs_def SamplingHandler_WithAttrs_def prom_WithAttrs_def
      BufferedHandler_WithAttrs_def HookHandler_WithAttrs_def otel_WithAttrs_def MultiHandler_WithAttrs_def
      Let_def cong: map_cong)

fun chain_WithAttrs :: "'t chain_env \<Rightarrow> 't chain \<Rightarrow> attr list \<Rightarrow> 't chain" where
  "chain_WithAttrs E (Sink t) as = Sink (ce_sink_attrs E t as)"
| "chain_WithAttrs E (LevelGate n) as =
     of_level (levelHandler_WithAttrs (\<lambda>n as. chain_WithAttrs E n as) (level_view n) as)"
| "chain_WithAttrs E (Dedup p res ops n) as = of_dedup (DedupHandler_WithAttrs (dedup_view p res ops n) as)"
| "chain_WithAttrs E (Filter rules m ops n) as =
     of_filter (FilterHandler_WithAttrs (\<lambda>n as. chain_WithAttrs E n as) (filter_view rules m ops n) as)"
| "chain_WithAttrs E (GlobalFields fs ov ops n) as =
     of_global (GlobalFieldsHandler_WithAttrs (\<lambda>n as. chain_WithAttrs E n as) (global_view fs ov ops n) as)"
| "chain_WithAttrs E (Source n) as =
     Source (so_next (SourceHandler_WithAttrs (\<lambda>n as. chain_WithAttrs E n as) \<lparr>so_next = n\<rparr> as))"
| "chain_WithAttrs E (Component n) as =
     Component (ch_next (ComponentHandler_WithAttrs (\<lambda>n as. chain_WithAttrs E n as) \<lparr>ch_next = n\<rparr> as))"
| "chain_WithAttrs E (Sampling k i l p kf n) as =
     of_sampling k (SamplingHandler_WithAttrs (\<lambda>n as. chain_WithAttrs E n as) (sampling_view i l p kf n) as)"
| "chain_WithAttrs E (Counting c n) as =
     Counting c (pr_next (prom_WithAttrs (\<lambda>n as. chain_WithAttrs E n as) \<lparr>pr_next = n, pr_counter = c\<rparr> as))"
| "chain_WithAttrs E (Buffered b n) as =
     Buffered b (bh_next (BufferedHandler_WithAttrs (\<lambda>n as. chain_WithAttrs E n as) \<lparr>bh_next = n\<rparr> as))"
| "chain_WithAttrs E (Hook f n) as =
     Hook f (hk_next (HookHandler_WithAttrs (\<lambda>n as. chain_WithAttrs E n as) \<lparr>hk_next = n, hk_hook = f\<rparr> as))"
| "chain_WithAttrs E (Otel tk sk tf g os n) as =
     of_otel (otel_WithAttrs (\<lambda>n as. chain_WithAttrs E n as) (otel_view tk sk tf g os n) as)"
| "chain_WithAttrs E (Multi cs) as =
     Multi (mh_handlers (MultiHandler_WithAttrs (\<lambda>n as. chain_WithAttrs E n as) \<lparr>mh_handlers = cs\<rparr> as))"

lemma derive_group_congs [fundef_cong]:
  "h = h' \<Longrightarrow> g = g' \<Longrightarrow> (\<And>n g. n = lh_next h' \<Longrightarrow> wg n g = wg' n g) \<Longrightarrow>
    levelHandler_WithGroup wg h g = levelHandler_WithGroup wg' h' g'"
  "hf = hf' \<Longrightarrow> g = g' \<Longrightarrow> (\<And>n g. n = fh_next hf' \<Longrightarrow> wg n g = wg' n g) \<Longrightarrow>
    FilterHandler_WithGroup wg hf g = FilterHandler_WithGroup wg' hf' g'"
  "hg = hg' \<Longrightarrow> g = g' \<Longrightarrow> (\<And>n g. n = gh_next hg' \<Longrightarrow> wg n g = wg' n g) \<Longrightarrow>
    GlobalFieldsHandler_WithGroup wg hg g = GlobalFieldsHandler_WithGroup wg' hg' g'"
  "hs = hs' \<Longrightarrow> g = g' \<Longrightarrow> (\<And>n g. n = so_next hs' \<Longrightarrow> wg n g = wg' n g) \<Longrightarrow>
    SourceHandler_WithGroup wg hs g = SourceHandler_WithGroup wg' hs' g'"
  "hc = hc' \<Longrightarrow> g = g' \<Longrightarrow> (\<And>n g. n = ch_next hc' \<Longrightarrow> wg n g = wg' n g) \<Longrightarrow>
    ComponentHandler_WithGroup wg hc g = ComponentHandler_WithGroup wg' hc' g'"
  "ha = ha' \<Longrightarrow> g = g' \<Longrightarrow> (\<And>n g. n = sh_next ha' \<Longrightarrow> wg n g = wg' n g) \<Longrightarrow>
    SamplingHandler_WithGroup wg ha g = SamplingHandler_WithGroup wg' ha' g'"
  "hp = hp' \<Longrightarrow> g = g' \<Longrightarrow> (\<And>n g. n = pr_next hp' \<Longrightarrow> wg n g = wg' n g) \<Longrightarrow>
    prom_WithGroup wg hp g = prom_WithGroup wg' hp' g'"
  "hb = hb' \<Longrightarrow> g = g' \<Longrightarrow> (\<And>n g. n = bh_next hb' \<Longrightarrow> wg n g = wg' n g) \<Longrightarrow>
    BufferedHandler_WithGroup wg hb g = BufferedHandler_WithGroup wg' hb' g'"
  "hk = hk' \<Longrightarrow> g = g' \<Longrightarrow> (\<And>n g. n = hk_next hk' \<Longrightarrow> wg n g = wg' n g) \<Longrightarrow>
    HookHandler_WithGroup wg hk g = HookHandler_WithGroup wg' hk' g'"
  "ho = ho' \<Longrightarrow> g = g' \<Longrightarrow> (\<And>n g. n = oh_next ho' \<Longrightarrow> wg n g = wg' n g) \<Longrightarrow>
    otel_WithGroup wg ho g = otel_WithGroup wg' ho' g'"
  "hm = hm' \<Longrightarrow> g = g' \<Longrightarrow> (\<And>n g. n \<in> set (mh_handlers hm') \<Longrightarrow> wg n g = wg' n g) \<Longrightarrow>
    MultiHandler_WithGroup wg hm g = MultiHandler_WithGroup wg' hm' g'"
  by (simp_all add: levelHandler_WithGroup_def FilterHandler_WithGroup_def GlobalFieldsHandler_WithGroup_def
      SourceHandler_WithGroup_def ComponentHandler_WithGroup_def SamplingHandler_WithGroup_def prom_WithGroup_def
      BufferedHandler_WithGroup_def HookHandler_WithGroup_def otel_WithGroup_def MultiHandler_WithGroup_def
      Let_def cong: map_cong)

fun chain_WithGroup :: "'t chain_env \<Rightarrow> 't chain \<Rightarrow> bytes \<Rightarrow> 't chain" where
  "chain_WithGroup E (Sink t) g = Sink (ce_sink_group E t g)"
| "chain_WithGroup E (LevelGate n) g =
     of_level (levelHandler_WithGroup (\<lambda>n g. chain_WithGroup E n g) (level_view n) g)"
| "chain_WithGroup E (Dedup p res ops n) g = of_dedup (DedupHandler_WithGroup (dedup_view p res ops n) g)"
| "chain_WithGroup E (Filter rules m ops n) g =
     of_filter (FilterHandler_WithGroup (\<lambda>n g. chain_WithGroup E n g) (filter_view rules m ops n) g)"
| "chain_WithGroup E (GlobalFields fs ov ops n) g =
     of_global (GlobalFieldsHandler_WithGroup (\<lambda>n g. chain_WithGroup E n g) (global_view fs ov ops n) g)"
| "chain_WithGroup E (Source n) g =
     Source (so_next (SourceHandler_WithGroup (\<lambda>n g. chain_WithGroup E n g) \<lparr>so_next = n\<rparr> g))"
| "chain_WithGroup E (Component n) g =
     Component (ch_next (ComponentHandler_WithGroup (\<lambda>n g. chain_WithGroup E n g) \<lparr>ch_next = n\<rparr> g))"
| "chain_WithGroup E (Sampling k i l p kf n) g =
     of_sampling k (SamplingHandler_WithGroup (\<lambda>n g. chain_WithGroup E n g) (sampling_view i l p kf n) g)"
| "chain_WithGroup E (Counting c n) g =
     Counting c (pr_next (prom_WithGroup (\<lambda>n g. chain_WithGroup E n g) \<lparr>pr_next = n, pr_counter = c\<rparr> g))"
| "chain_WithGroup E (Buffered b n) g =
     Buffered b (bh_next (BufferedHandler_WithGroup (\<lambda>n g. chain_WithGroup E n g) \<lparr>bh_next = n\<rparr> g))"
| "chain_WithGroup E (Hook f n) g =
     Hook f (hk_next (HookHandler_WithGroup (\<lambda>n g. chain_WithGroup E n g) \<lparr>hk_next = n, hk_hook = f\<rparr> g))"
| "chain_WithGroup E (Otel tk sk tf gr os n) g =
     of_otel (otel_WithGroup (\<lambda>n g. chain_WithGroup E n g) (otel_view tk sk tf gr os n) g)"
| "chain_WithGroup E (Multi cs) g =
     Multi (mh_handlers (MultiHandler_WithGroup (\<lambda>n g. chain_WithGroup E n g) \<lparr>mh_handlers = cs\<rparr> g))"

abbreviation chain_derive :: "'t chain_env \<Rightarrow> 't chain \<Rightarrow> held_op list \<Rightarrow> 't chain" where
  "chain_derive E \<equiv> derive (chain_WithAttrs E) (chain_WithGroup E)"

section \<open>Enabled\<close>

lemma MultiHandler_Enabled_cong [fundef_cong]:
  "h = h' \<Longrightarrow> level = level' \<Longrightarrow> (\<And>n l. n \<in> set (mh_handlers h') \<Longrightarrow> en n l = en' n l) \<Longrightarrow>
    MultiHandler_Enabled en h level = MultiHandler_Enabled en' h' level'"
  by (simp add: MultiHandler_Enabled_def cong: any_enabled_cong)

lemma levelHandler_Enabled_cong [fundef_cong]:
  "lvl = lvl' \<Longrightarrow> h = h' \<Longrightarrow> level = level' \<Longrightarrow> (\<And>n l. n = lh_next h' \<Longrightarrow> en n l = en' n l) \<Longrightarrow>
    levelHandler_Enabled lvl en h level = levelHandler_Enabled lvl' en' h' level'"
  by (simp add: levelHandler_Enabled_def)

text \<open>\<open>lvl\<close> is the current value of the shared \<open>LevelVar\<close>.\<close>

fun chain_Enabled :: "'t chain_env \<Rightarrow> int \<Rightarrow> 't chain \<Rightarrow> int \<Rightarrow> bool" where
  "chain_Enabled E lvl (Sink t) level = ce_sink_enabled E lvl t level"
| "chain_Enabled E lvl (LevelGate n) level =
     levelHandler_Enabled lvl (\<lambda>n l. chain_Enabled E lvl n l) (level_view n) level"
| "chain_Enabled E lvl (Dedup p res ops n) level = chain_Enabled E lvl n level"
| "chain_Enabled E lvl (Filter rules m ops n) level = chain_Enabled E lvl n level"
| "chain_Enabled E lvl (GlobalFields fs ov ops n) level = chain_Enabled E lvl n level"
| "chain_Enabled E lvl (Source n) level = chain_Enabled E lvl n level"
| "chain_Enabled E lvl (Component n) level = chain_Enabled E lvl n level"
| "chain_Enabled E lvl (Sampling k i l p kf n) level = chain_Enabled E lvl n level"
| "chain_Enabled E lvl (Counting c n) level = chain_Enabled E lvl n level"
| "chain_Enabled E lvl (Buffered b n) level = chain_Enabled E lvl n level"
| "chain_Enabled E lvl (Hook f n) level = chain_Enabled E lvl n level"
| "chain_Enabled E lvl (Otel tk sk tf g os n) level = chain_Enabled E lvl n level"
| "chain_Enabled E lvl (Multi cs) level =
     MultiHandler_Enabled (\<lambda>n l. chain_Enabled E lvl n l) \<lparr>mh_handlers = cs\<rparr> level"

section \<open>Handle\<close>

fun chain_nodes :: "'t chain \<Rightarrow> nat" where
  "chain_nodes (Sink t) = 1"
| "chain_nodes (LevelGate n) = Suc (chain_nodes n)"
| "chain_nodes (Dedup p res ops n) = Suc (chain_nodes n)"
| "chain_nodes (Filter rules m ops n) = Suc (chain_nodes n)"
| "chain_nodes (GlobalFields fs ov ops n) = Suc (chain_nodes n)"
| "chain_nodes (Source n) = Suc (chain_nodes n)"
| "chain_nodes (Component n) = Suc (chain_nodes n)"
| "chain_nodes (Sampling k i l p kf n) = Suc (chain_nodes n)"
| "chain_nodes (Counting c n) = Suc (chain_nodes n)"
| "chain_nodes (Buffered b n) = Suc (chain_nodes n)"
| "chain_nodes (Hook f n) = Suc (chain_nodes n)"
| "chain_nodes (Otel tk sk tf g os n) = Suc (chain_nodes n)"
| "chain_nodes (Multi cs) = Suc (sum_list (map chain_nodes cs))"

lemmas with_attrs_defs = levelHandler_WithAttrs_def DedupHandler_WithAttrs_def dedup_derive_op_def
  FilterHandler_WithAttrs_def GlobalFieldsHandler_WithAttrs_def SourceHandler_WithAttrs_def
  ComponentHandler_WithAttrs_def SamplingHandler_WithAttrs_def prom_WithAttrs_def BufferedHandler_WithAttrs_def
  HookHandler_WithAttrs_def otel_WithAttrs_def MultiHandler_WithAttrs_def NewMultiHandler_def

lemmas with_group_defs = levelHandler_WithGroup_def DedupHandler_WithGroup_def dedup_derive_op_def
  FilterHandler_WithGroup_def GlobalFieldsHandler_WithGroup_def SourceHandler_WithGroup_def
  ComponentHandler_WithGroup_def SamplingHandler_WithGroup_def prom_WithGroup_def BufferedHandler_WithGroup_def
  HookHandler_WithGroup_def otel_WithGroup_def MultiHandler_WithGroup_def NewMultiHandler_def

lemma chain_nodes_WithAttrs [simp]: "chain_nodes (chain_WithAttrs E c as) = chain_nodes c"
  by (induction E c as rule: chain_WithAttrs.induct)
     (auto simp: with_attrs_defs of_view_defs Let_def comp_def intro!: arg_cong [where f = sum_list] map_cong)

lemma chain_nodes_WithGroup [simp]: "chain_nodes (chain_WithGroup E c g) = chain_nodes c"
  by (induction E c g rule: chain_WithGroup.induct)
     (auto simp: with_group_defs of_view_defs Let_def comp_def intro!: arg_cong [where f = sum_list] map_cong)

lemma replay_ops_inv:
  assumes "replay_ops wa wg uf rules m n path ops = Some (n', path')" "P n"
    and "\<And>n as. P n \<Longrightarrow> P (wa n as)" "\<And>n g. P n \<Longrightarrow> P (wg n g)"
  shows "P n'"
  using assms
  by (induction wa wg uf rules m n path ops rule: replay_ops.induct) (auto split: prod.splits if_splits)

lemma FilterHandler_Handle_inv:
  assumes "FilterHandler_Handle wa wg uf h r = Some (n', r')" "P (fh_next h)"
    and "\<And>n as. P n \<Longrightarrow> P (wa n as)" "\<And>n g. P n \<Longrightarrow> P (wg n g)"
  shows "P n'"
proof (cases "fh_rules h = []")
  case False
  with assms(1) obtain path where "replay_ops wa wg uf (fh_rules h) (fh_mode h) (fh_next h) [] (fh_ops h) = Some (n', path)"
    by (auto simp: FilterHandler_Handle_def split: option.splits prod.splits if_splits)
  then show ?thesis using assms(2-) by (rule replay_ops_inv)
qed (use assms in \<open>simp add: FilterHandler_Handle_def\<close>)

lemma SamplingHandler_Handle_next:
  "SamplingHandler_Handle h e s r = Some (s', Some (n, r')) \<Longrightarrow> n = sh_next h \<and> r' = r"
  by (auto simp: SamplingHandler_Handle_def split: if_splits option.splits prod.splits)

lemma levelHandler_Handle_next: "levelHandler_Handle lvl h r = Some (n, r') \<Longrightarrow> n = lh_next h \<and> r' = r \<and> lvl \<le> r_level r"
  by (auto simp: levelHandler_Handle_def split: if_splits)

lemma HookHandler_Handle_next: "HookHandler_Handle h ctx r = Some (n, ctx', r') \<Longrightarrow> n = hk_next h \<and> r' = r"
  by (auto simp: HookHandler_Handle_def split: prod.splits if_splits)

lemma otel_Handle_next: "otel_Handle sp h ctx r = (n, r') \<Longrightarrow> n = oh_next h"
  by (auto simp: otel_Handle_def Let_def split: if_splits)

lemma SourceHandler_Handle_next: "SourceHandler_Handle fr h r = (n, r') \<Longrightarrow> n = so_next h"
  by (auto simp: SourceHandler_Handle_def Let_def split: if_splits)

lemma ComponentHandler_Handle_next: "ComponentHandler_Handle fr h r = (n, r') \<Longrightarrow> n = ch_next h"
  by (auto simp: ComponentHandler_Handle_def Let_def split: if_splits)

lemma prom_Handle_next: "prom_Handle h r cs = ((n, r'), cs') \<Longrightarrow> n = pr_next h \<and> r' = r"
  by (auto simp: prom_Handle_def Let_def)

lemma FilterHandler_Handle_nodes:
  "FilterHandler_Handle (chain_WithAttrs E) (chain_WithGroup E) uf h r = Some (n, r') \<Longrightarrow>
    chain_nodes n = chain_nodes (fh_next h)"
  by (erule FilterHandler_Handle_inv [where P = "\<lambda>n. chain_nodes n = chain_nodes (fh_next h)" for h]) simp_all

lemma chain_nodes_pos [simp]: "0 < chain_nodes c"
  by (induction c rule: chain_nodes.induct) simp_all

lemma chain_nodes_member: "c \<in> set cs \<Longrightarrow> chain_nodes c < Suc (sum_list (map chain_nodes cs))"
  using member_le_sum_list [of "chain_nodes c" "map chain_nodes cs"] by auto

lemma MultiHandler_Handle_cong [fundef_cong]:
  assumes "h = h'" "r = r'" "w = w'"
    and "\<And>n l. n \<in> set (mh_handlers h') \<Longrightarrow> en n l = en' n l"
    and "\<And>n r w. n \<in> set (mh_handlers h') \<Longrightarrow> ha n r w = ha' n r w"
  shows "MultiHandler_Handle en ha h r w = MultiHandler_Handle en' ha' h' r' w'"
  unfolding MultiHandler_Handle_def by (rule multi_loop_cong) (use assms in auto)

definition multi_result :: "(nat \<times> handler_error) list \<Rightarrow> handler_error option" where
  "multi_result errs = (if errs = [] then None else Some (MultiError errs))"

text \<open>
  \<open>ck\<close> gives each sampler what it reads during the call; \<open>GlobalFieldsHandler_Handle\<close> and
  \<open>DedupHandler_Handle\<close> always forward to \<open>next\<close>.
\<close>

function chain_Handle ::
  "'t chain_env \<Rightarrow> (nat \<Rightarrow> sampling_env) \<Rightarrow> ctx \<Rightarrow> 't chain \<Rightarrow> slog_record \<Rightarrow> 't chain_world \<Rightarrow>
   ('t chain_world \<times> handler_error option) option" where
  "chain_Handle E ck ctx (Sink t) r w =
     Some (w\<lparr>cw_delivered := cw_delivered w @ [(t, r)]\<rparr>, map_option SinkError (ce_sink_handle E t r))"
| "chain_Handle E ck ctx (LevelGate n) r w =
     (case levelHandler_Handle (cw_level w) (level_view n) r of
        None \<Rightarrow> Some (w, None)
      | Some (n, r) \<Rightarrow> chain_Handle E ck ctx n r w)"
| "chain_Handle E ck ctx (Dedup p res ops n) r w =
     chain_Handle E ck ctx n (DedupHandler_Handle (dedup_view p res ops n) r) w"
| "chain_Handle E ck ctx (Filter rules m ops n) r w =
     (case FilterHandler_Handle (chain_WithAttrs E) (chain_WithGroup E) (ce_fold E) (filter_view rules m ops n) r of
        None \<Rightarrow> Some (w, None)
      | Some (n, r) \<Rightarrow> chain_Handle E ck ctx n r w)"
| "chain_Handle E ck ctx (GlobalFields fs ov ops n) r w =
     chain_Handle E ck ctx n (GlobalFieldsHandler_Handle (global_view fs ov ops n) r) w"
| "chain_Handle E ck ctx (Source n) r w =
     (case SourceHandler_Handle (ce_frames E) \<lparr>so_next = n\<rparr> r of (n, r) \<Rightarrow> chain_Handle E ck ctx n r w)"
| "chain_Handle E ck ctx (Component n) r w =
     (case ComponentHandler_Handle (ce_frames E) \<lparr>ch_next = n\<rparr> r of (n, r) \<Rightarrow> chain_Handle E ck ctx n r w)"
| "chain_Handle E ck ctx (Sampling k i l p kf n) r w =
     (case SamplingHandler_Handle (sampling_view i l p kf n) (ck k) (cw_sampling w k) r of
        None \<Rightarrow> None
      | Some (s, out) \<Rightarrow>
          (case out of
             None \<Rightarrow> Some (w\<lparr>cw_sampling := (cw_sampling w)(k := s)\<rparr>, None)
           | Some (n, r) \<Rightarrow> chain_Handle E ck ctx n r (w\<lparr>cw_sampling := (cw_sampling w)(k := s)\<rparr>)))"
| "chain_Handle E ck ctx (Counting c n) r w =
     (case prom_Handle \<lparr>pr_next = n, pr_counter = c\<rparr> r (cw_counters w) of
        ((n, r), cs) \<Rightarrow> chain_Handle E ck ctx n r (w\<lparr>cw_counters := cs\<rparr>))"
| "chain_Handle E ck ctx (Buffered b n) r w =
     (let (core, res) = BufferedHandler_Handle \<lparr>bh_next = n\<rparr> ctx r (cw_cores w b)
      in Some (w\<lparr>cw_cores := (cw_cores w)(b := core)\<rparr>, map_option BufferError res))"
| "chain_Handle E ck ctx (Hook f n) r w =
     (case HookHandler_Handle \<lparr>hk_next = n, hk_hook = f\<rparr> ctx r of
        None \<Rightarrow> Some (w, None)
      | Some (n, ctx, r) \<Rightarrow> chain_Handle E ck ctx n r w)"
| "chain_Handle E ck ctx (Otel tk sk tf g os n) r w =
     (case otel_Handle (ce_span E) (otel_view tk sk tf g os n) ctx r of (n, r) \<Rightarrow> chain_Handle E ck ctx n r w)"
| "chain_Handle E ck ctx (Multi cs) r w =
     (case MultiHandler_Handle (\<lambda>n l. chain_Enabled E (cw_level w) n l) (\<lambda>n r w. chain_Handle E ck ctx n r w)
             \<lparr>mh_handlers = cs\<rparr> r w of
        None \<Rightarrow> None
      | Some (w, errs) \<Rightarrow> Some (w, multi_result errs))"
  by pat_completeness auto
termination
  by (relation "measure (\<lambda>(E, ck, ctx, c, r, w). chain_nodes c)")
     (auto dest: FilterHandler_Handle_nodes SamplingHandler_Handle_next levelHandler_Handle_next
        HookHandler_Handle_next otel_Handle_next [OF sym] SourceHandler_Handle_next [OF sym]
        ComponentHandler_Handle_next [OF sym] prom_Handle_next [OF sym] chain_nodes_member)


section \<open>What one call can do\<close>

text \<open>One link: from a handler and the record it is given to the handler and record it forwards.\<close>

inductive forwards ::
  "'t chain_env \<Rightarrow> int \<Rightarrow> ctx \<Rightarrow> 't chain \<Rightarrow> slog_record \<Rightarrow> ctx \<Rightarrow> 't chain \<Rightarrow> slog_record \<Rightarrow> bool"
  for E lvl where
  level: "lvl \<le> r_level r \<Longrightarrow> forwards E lvl ctx (LevelGate n) r ctx n r"
| dedup: "forwards E lvl ctx (Dedup p res ops n) r ctx n (DedupHandler_Handle (dedup_view p res ops n) r)"
| filter: "FilterHandler_Handle (chain_WithAttrs E) (chain_WithGroup E) (ce_fold E) (filter_view rules m ops n) r =
    Some (n', r') \<Longrightarrow> forwards E lvl ctx (Filter rules m ops n) r ctx n' r'"
| global: "forwards E lvl ctx (GlobalFields fs ov ops n) r ctx n (GlobalFieldsHandler_Handle (global_view fs ov ops n) r)"
| source: "SourceHandler_Handle (ce_frames E) \<lparr>so_next = n\<rparr> r = (n', r') \<Longrightarrow> forwards E lvl ctx (Source n) r ctx n' r'"
| component: "ComponentHandler_Handle (ce_frames E) \<lparr>ch_next = n\<rparr> r = (n', r') \<Longrightarrow>
    forwards E lvl ctx (Component n) r ctx n' r'"
| sampling: "forwards E lvl ctx (Sampling k i l p kf n) r ctx n r"
| counting: "forwards E lvl ctx (Counting c n) r ctx n r"
| hook: "f ctx r = (ctx', True) \<Longrightarrow> forwards E lvl ctx (Hook f n) r ctx' n r"
| otel: "otel_Handle (ce_span E) (otel_view tk sk tf g os n) ctx r = (n', r') \<Longrightarrow>
    forwards E lvl ctx (Otel tk sk tf g os n) r ctx n' r'"
| multi: "n \<in> set cs \<Longrightarrow> chain_Enabled E lvl n (r_level r) \<Longrightarrow> forwards E lvl ctx (Multi cs) r ctx n r"

inductive_cases forwardsE: "forwards E lvl ctx c r ctx' n r'"

definition queued :: "'t chain_world \<Rightarrow> nat \<Rightarrow> 't chain buffered_item set" where
  "queued w k = set (bc_queue (cw_cores w k))"

text \<open>
  The effect of a call, for a predicate \<open>I\<close> that every link keeps: what it delivers and what it enqueues
  satisfies \<open>I\<close> there.
\<close>

definition handed :: "(ctx \<Rightarrow> 't chain \<Rightarrow> slog_record \<Rightarrow> bool) \<Rightarrow> ('t \<times> slog_record) set" where
  "handed I = {(t, r). \<exists>ctx. I ctx (Sink t) r}"

definition enqueued :: "(ctx \<Rightarrow> 't chain \<Rightarrow> slog_record \<Rightarrow> bool) \<Rightarrow> nat \<Rightarrow> 't chain buffered_item set" where
  "enqueued I k = {item. \<exists>i ctx r n. item = RecordItem i ctx r n \<and> I ctx (Buffered k n) r}"

definition call_effect ::
  "(ctx \<Rightarrow> 't chain \<Rightarrow> slog_record \<Rightarrow> bool) \<Rightarrow> 't chain_world \<Rightarrow> 't chain_world \<Rightarrow> bool" where
  "call_effect I w w' \<longleftrightarrow> cw_level w' = cw_level w \<and>
     (\<exists>ds. cw_delivered w' = cw_delivered w @ ds \<and> set ds \<subseteq> handed I) \<and>
     (\<forall>k. queued w' k \<subseteq> queued w k \<union> enqueued I k)"

lemma call_effectI:
  "cw_level w' = cw_level w \<Longrightarrow> cw_delivered w' = cw_delivered w @ ds \<Longrightarrow> set ds \<subseteq> handed I \<Longrightarrow>
   (\<And>k. queued w' k \<subseteq> queued w k \<union> enqueued I k) \<Longrightarrow> call_effect I w w'"
  by (auto simp: call_effect_def)

lemma call_effectD:
  assumes "call_effect I w w'"
  shows "cw_level w' = cw_level w" "queued w' k \<subseteq> queued w k \<union> enqueued I k"
    "\<exists>ds. cw_delivered w' = cw_delivered w @ ds \<and> set ds \<subseteq> handed I"
  using assms by (simp_all add: call_effect_def)

lemma call_effect_refl: "call_effect I w w"
  by (simp add: call_effect_def)

lemma call_effect_trans:
  assumes "call_effect I u v" "call_effect I v w"
  shows "call_effect I u w"
proof -
  obtain ds where ds: "cw_delivered v = cw_delivered u @ ds" "set ds \<subseteq> handed I"
    using call_effectD(3) [OF assms(1)] by blast
  obtain es where es: "cw_delivered w = cw_delivered v @ es" "set es \<subseteq> handed I"
    using call_effectD(3) [OF assms(2)] by blast
  show ?thesis
  proof (rule call_effectI)
    show "cw_level w = cw_level u" using call_effectD(1) assms by metis
    show "cw_delivered w = cw_delivered u @ (ds @ es)" "set (ds @ es) \<subseteq> handed I"
      using ds es by simp_all
    show "queued w k \<subseteq> queued u k \<union> enqueued I k" for k
      using call_effectD(2) [OF assms(1), of k] call_effectD(2) [OF assms(2), of k] by blast
  qed
qed

lemma BufferedHandler_Handle_queue:
  "BufferedHandler_Handle h ctx r c = (c', res) \<Longrightarrow>
    set (bc_queue c') \<subseteq> set (bc_queue c) \<union> {RecordItem (gh_fresh c) ctx r (bh_next h)}"
  by (auto simp: BufferedHandler_Handle_def send_def Let_def split: if_splits)

text \<open>Changes of the world that neither deliver nor enqueue.\<close>

definition same_io :: "'t chain_world \<Rightarrow> 't chain_world \<Rightarrow> bool" where
  "same_io v w \<longleftrightarrow> cw_level v = cw_level w \<and> cw_delivered v = cw_delivered w \<and> cw_cores v = cw_cores w"

lemma call_effect_same_io: "same_io v w \<Longrightarrow> call_effect I v w' \<Longrightarrow> call_effect I w w'"
  by (simp add: same_io_def call_effect_def queued_def)

lemma same_io_simps [simp]:
  "same_io w w" "same_io (w\<lparr>cw_sampling := s\<rparr>) w" "same_io (w\<lparr>cw_counters := cs\<rparr>) w"
  by (simp_all add: same_io_def)

lemma multi_loop_effect:
  assumes "multi_loop en ha r i cs w errs = Some (w', errs')"
    and "\<And>n v v' e. n \<in> set cs \<Longrightarrow> en n (r_level r) \<Longrightarrow> cw_level v = cw_level w \<Longrightarrow> ha n r v = Some (v', e) \<Longrightarrow>
      call_effect I v v'"
  shows "call_effect I w w'"
  using assms
proof (induction en ha r i cs w errs rule: multi_loop.induct)
  case (2 en ha r i child hs w errs)
  show ?case
  proof (cases "en child (r_level r)")
    case False
    then have loop: "multi_loop en ha r (Suc i) hs w errs = Some (w', errs')" using 2(3) by simp
    show ?thesis
    proof (rule "2.IH"(1) [OF _ loop])
      show "\<not> en child (r_level r)" by (rule False)
      show "call_effect I v v'"
        if "n \<in> set hs" "en n (r_level r)" "cw_level v = cw_level w" "ha n r v = Some (v', e)" for n v v' e
        using 2(4) [of n v v' e] that by simp
    qed
  next
    case True
    with 2(3) obtain v e where v: "ha child r w = Some (v, e)" by (auto split: option.splits)
    have eff: "call_effect I w v" using 2(4) [of child w v e] True v by simp
    then have lvl: "cw_level v = cw_level w" by (rule call_effectD)
    have loop: "multi_loop en ha r (Suc i) hs v (case e of Some e \<Rightarrow> errs @ [(i, e)] | None \<Rightarrow> errs) = Some (w', errs')"
      using 2(3) True v by simp
    have "call_effect I v w'"
    proof (rule "2.IH"(2) [OF _ v refl loop])
      show "\<not> \<not> en child (r_level r)" using True by simp
      show "call_effect I u u'"
        if "n \<in> set hs" "en n (r_level r)" "cw_level u = cw_level v" "ha n r u = Some (u', e)" for n u u' e
        using 2(4) [of n u u' e] that lvl by simp
    qed
    with eff show ?thesis by (rule call_effect_trans)
  qed
qed (simp add: call_effect_refl)

lemma chain_Handle_effect:
  assumes "chain_Handle E ck ctx c r w = Some (w', err)" and "I ctx c r"
    and closed: "\<And>ctx c r ctx' n r'. I ctx c r \<Longrightarrow> forwards E (cw_level w) ctx c r ctx' n r' \<Longrightarrow> I ctx' n r'"
  shows "call_effect I w w'"
  using assms
proof (induction E ck ctx c r w arbitrary: w' err rule: chain_Handle.induct)
  case (1 E ck ctx t r w)
  then show ?case
    by (auto intro!: call_effectI [where ds = "[(t, r)]"] simp: queued_def handed_def)
next
  case (2 E ck ctx n r w)
  show ?case
  proof (cases "r_level r < cw_level w")
    case True
    with 2(2) show ?thesis by (simp add: levelHandler_Handle_def call_effect_refl)
  next
    case False
    then have eq: "levelHandler_Handle (cw_level w) (level_view n) r = Some (n, r)"
      by (simp add: levelHandler_Handle_def)
    have "I ctx n r" using 2(4) [OF 2(3)] forwards.level [of "cw_level w" r E ctx n] False by simp
    with 2(1) [OF eq refl] 2(2,4) eq show ?thesis by simp
  qed
next
  case (3 E ck ctx p res ops n r w)
  then show ?case using forwards.dedup by simp blast
next
  case (4 E ck ctx rules m ops n r w)
  show ?case
  proof (cases "FilterHandler_Handle (chain_WithAttrs E) (chain_WithGroup E) (ce_fold E) (filter_view rules m ops n) r")
    case None
    with 4(2) show ?thesis by (simp add: call_effect_refl)
  next
    case (Some a)
    then obtain n' r' where a: "FilterHandler_Handle (chain_WithAttrs E) (chain_WithGroup E) (ce_fold E)
        (filter_view rules m ops n) r = Some (n', r')"
      by (cases a) simp
    have "I ctx n' r'" using 4(4) [OF 4(3)] forwards.filter a by blast
    with 4(1) [OF a refl] 4(2,4) a show ?thesis by simp
  qed
next
  case (5 E ck ctx fs ov ops n r w)
  then show ?case using forwards.global by simp blast
next
  case (6 E ck ctx n r w)
  obtain n' r' where a: "SourceHandler_Handle (ce_frames E) \<lparr>so_next = n\<rparr> r = (n', r')" by fastforce
  have "I ctx n' r'" using 6(4) [OF 6(3)] forwards.source a by blast
  with 6(1) [OF a [symmetric]] 6(2,4) a show ?case by simp
next
  case (7 E ck ctx n r w)
  obtain n' r' where a: "ComponentHandler_Handle (ce_frames E) \<lparr>ch_next = n\<rparr> r = (n', r')" by fastforce
  have "I ctx n' r'" using 7(4) [OF 7(3)] forwards.component a by blast
  with 7(1) [OF a [symmetric]] 7(2,4) a show ?case by simp
next
  case (8 E ck ctx k i l p kf n r w)
  show ?case
  proof (cases "SamplingHandler_Handle (sampling_view i l p kf n) (ck k) (cw_sampling w k) r")
    case None
    with 8(2) show ?thesis by simp
  next
    case (Some a)
    then obtain s out where a: "SamplingHandler_Handle (sampling_view i l p kf n) (ck k) (cw_sampling w k) r = Some (s, out)"
      by (cases a) simp
    let ?v = "w\<lparr>cw_sampling := (cw_sampling w)(k := s)\<rparr>"
    show ?thesis
    proof (cases out)
      case None
      with 8(2) a show ?thesis
        by (auto intro!: call_effect_same_io [OF _ call_effect_refl] call_effectI simp: queued_def)
    next
      case (Some b)
      then obtain n' r' where b: "out = Some (n', r')" by (cases b) simp
      then have nr: "n' = n" "r' = r" using SamplingHandler_Handle_next a by fastforce+
      have "I ctx n' r'" using 8(4) [OF 8(3)] forwards.sampling nr by blast
      with 8(1) [OF a refl b refl] have "call_effect I ?v w'" using 8(2,4) a b by simp
      then show ?thesis by (rule call_effect_same_io [rotated]) simp
    qed
  qed
next
  case (9 E ck ctx c n r w)
  obtain n' r' cs where a: "prom_Handle \<lparr>pr_next = n, pr_counter = c\<rparr> r (cw_counters w) = ((n', r'), cs)"
    by (metis surj_pair)
  then have nr: "n' = n" "r' = r" using prom_Handle_next by fastforce+
  have "I ctx n' r'" using 9(4) [OF 9(3)] forwards.counting nr by blast
  with 9(1) [OF a [symmetric] refl] 9(2,4) a
  have "call_effect I (w\<lparr>cw_counters := cs\<rparr>) w'" by simp
  then show ?case by (rule call_effect_same_io [rotated]) simp
next
  case (10 E ck ctx b n r w)
  obtain core res where a: "BufferedHandler_Handle \<lparr>bh_next = n\<rparr> ctx r (cw_cores w b) = (core, res)" by fastforce
  with 10(1) have w': "w' = w\<lparr>cw_cores := (cw_cores w)(b := core)\<rparr>" by simp
  show ?case
  proof (rule call_effectI [where ds = "[]"])
    show "queued w' k \<subseteq> queued w k \<union> enqueued I k" for k
      using BufferedHandler_Handle_queue [OF a] 10(2) by (auto simp: w' queued_def enqueued_def)
  qed (simp_all add: w')
next
  case (11 E ck ctx f n r w)
  show ?case
  proof (cases "f ctx r")
    case (Pair ctx' ok)
    show ?thesis
    proof (cases ok)
      case False
      with 11(2) Pair show ?thesis by (simp add: HookHandler_Handle_def call_effect_refl)
    next
      case True
      then have eq: "HookHandler_Handle \<lparr>hk_next = n, hk_hook = f\<rparr> ctx r = Some (n, ctx', r)"
        by (simp add: HookHandler_Handle_def Pair)
      have I: "I ctx' n r" by (rule 11(4) [OF 11(3) forwards.hook]) (simp add: Pair True)
      have call: "chain_Handle E ck ctx' n r w = Some (w', err)" using 11(2) eq by simp
      show ?thesis by (rule 11(1) [OF eq refl refl call I 11(4)])
    qed
  qed
next
  case (12 E ck ctx tk sk tf g os n r w)
  obtain n' r' where a: "otel_Handle (ce_span E) (otel_view tk sk tf g os n) ctx r = (n', r')" by fastforce
  have "I ctx n' r'" using 12(4) [OF 12(3)] forwards.otel a by blast
  with 12(1) [OF a [symmetric]] 12(2,4) a show ?case by simp
next
  case (13 E ck ctx cs r w)
  from 13(2) obtain errs where
    loop: "multi_loop (\<lambda>n l. chain_Enabled E (cw_level w) n l) (\<lambda>n r w. chain_Handle E ck ctx n r w) r 0 cs w [] =
      Some (w', errs)"
    by (auto simp: MultiHandler_Handle_def split: option.splits)
  then show ?case
  proof (rule multi_loop_effect)
    fix n v v' e
    assume n: "n \<in> set cs" and en: "chain_Enabled E (cw_level w) n (r_level r)" and lvl: "cw_level v = cw_level w"
      and call: "chain_Handle E ck ctx n r v = Some (v', e)"
    have "I ctx n r" using 13(4) [OF 13(3)] forwards.multi [OF n en] by blast
    then show "call_effect I v v'"
      using 13(1) [of n r v v' e] n call 13(4) lvl by simp
  qed
qed

end
