(* ===== verification/ChainRun.thy ===== *)
theory ChainRun
  imports Chain
begin

text \<open>
  A chain at work: the steps that change its world, the properties that records keep on their way to the
  terminal handlers (the locale \<open>chain_property\<close>), and its instances: what a \<open>DedupHandler\<close> guarantees (unique
  keys, pinned fields first) at every sink below it, and the level below a \<open>levelHandler\<close>.
\<close>

section \<open>A running chain\<close>

text \<open>
  What can happen to a chain: a call of \<open>Handle\<close> on a handler derived from the root, the worker of a buffer
  processing the item at the head of its queue, and a change of the level.
\<close>

definition item_error :: "handler_error option \<Rightarrow> result" where
  "item_error err = map_option (\<lambda>e. Downstream (error_text e)) err"

inductive chain_step :: "'t chain_env \<Rightarrow> 't chain \<Rightarrow> 't chain_world \<Rightarrow> 't chain_world \<Rightarrow> bool" for E rt where
  call: "chain_Handle E ck ctx (chain_derive E rt ops) r w = Some (w', err) \<Longrightarrow> chain_step E rt w w'"
| deliver: "take_item (cw_cores w k) = Some (RecordItem i ctx r n, core) \<Longrightarrow>
    chain_Handle E ck ctx n r (w\<lparr>cw_cores := (cw_cores w)(k := core)\<rparr>) = Some (w', err) \<Longrightarrow>
    chain_step E rt w
      (w'\<lparr>cw_cores := (cw_cores w')(k := finish_item (RecordItem i ctx r n) (item_error err) (cw_cores w' k))\<rparr>)"
| signal: "take_item (cw_cores w k) = Some (Barrier b, core) \<Longrightarrow>
    chain_step E rt w (w\<lparr>cw_cores := (cw_cores w)(k := finish_item (Barrier b) None core)\<rparr>)"
| set_level: "chain_step E rt w (w\<lparr>cw_level := l\<rparr>)"

definition fresh_world :: "'t chain_world \<Rightarrow> bool" where
  "fresh_world w \<longleftrightarrow> cw_delivered w = [] \<and> (\<forall>k. bc_queue (cw_cores w k) = [])"

inductive chain_reach :: "'t chain_env \<Rightarrow> 't chain \<Rightarrow> 't chain_world \<Rightarrow> bool" for E rt where
  init: "fresh_world w \<Longrightarrow> chain_reach E rt w"
| step: "chain_reach E rt w \<Longrightarrow> chain_step E rt w w' \<Longrightarrow> chain_reach E rt w'"

section \<open>Interface: a property that records keep on their way\<close>

text \<open>
  \<open>J\<close> is a property of chains that derivation keeps; \<open>I lvl ctx c r\<close> says that \<open>c\<close> may be given \<open>r\<close> while the level
  is \<open>lvl\<close>. Every handler of a \<open>J\<close> chain may be given anything, and every link keeps \<open>I\<close>; a queue may hold only what a
  \<open>J\<close> chain will process, since the level can change before it does.
\<close>

locale chain_property =
  fixes E :: "'t chain_env"
    and J :: "'t chain \<Rightarrow> bool"
    and I :: "int \<Rightarrow> ctx \<Rightarrow> 't chain \<Rightarrow> slog_record \<Rightarrow> bool"
  assumes J_attrs: "J c \<Longrightarrow> J (chain_WithAttrs E c as)"
    and J_group: "J c \<Longrightarrow> J (chain_WithGroup E c g)"
    and J_start: "J c \<Longrightarrow> I lvl ctx c r"
    and I_link: "I lvl ctx c r \<Longrightarrow> forwards E lvl ctx c r ctx' n r' \<Longrightarrow> I lvl ctx' n r'"
    and I_queue: "I lvl ctx (Buffered k n) r \<Longrightarrow> J n"
begin

fun item_ok :: "'t chain buffered_item \<Rightarrow> bool" where
  "item_ok (RecordItem i ctx r n) = J n"
| "item_ok (Barrier b) = True"

definition queues_ok :: "'t chain_world \<Rightarrow> bool" where
  "queues_ok w \<longleftrightarrow> (\<forall>k. \<forall>item \<in> queued w k. item_ok item)"

definition new_deliveries :: "'t chain_world \<Rightarrow> 't chain_world \<Rightarrow> bool" where
  "new_deliveries w w' \<longleftrightarrow>
     (\<exists>ds. cw_delivered w' = cw_delivered w @ ds \<and> set ds \<subseteq> handed (I (cw_level w)))"

lemma derive_J: "J c \<Longrightarrow> J (chain_derive E c ops)"
  by (rule derive_invariant) (auto intro: J_attrs J_group)

lemma call_ok:
  assumes "chain_Handle E ck ctx c r w = Some (w', err)" "J c" "queues_ok w"
  shows "new_deliveries w w' \<and> queues_ok w'"
proof -
  have eff: "call_effect (I (cw_level w)) w w'"
    using assms(1) J_start [OF assms(2)] I_link by (rule chain_Handle_effect)
  have "item_ok item" if "item \<in> enqueued (I (cw_level w)) k" for item k
    using that I_queue by (auto simp: enqueued_def)
  then have "queues_ok w'"
    using assms(3) call_effectD(2) [OF eff] unfolding queues_ok_def by blast
  with call_effectD(3) [OF eff] show ?thesis by (simp add: new_deliveries_def)
qed

lemma take_item_queue: "take_item c = Some (item, c') \<Longrightarrow> bc_queue c = item # bc_queue c'"
  by (auto simp: take_item_def split: list.splits)

lemma finish_item_queue: "bc_queue (finish_item item res c) = bc_queue c"
  by (auto simp: finish_item_def close_barrier_def recordErr_def Let_def split: buffered_item.splits option.splits)

lemma queues_ok_update:
  "queues_ok w \<Longrightarrow> set (bc_queue core) \<subseteq> queued w k \<Longrightarrow> queues_ok (w\<lparr>cw_cores := (cw_cores w)(k := core)\<rparr>)"
  by (auto simp: queues_ok_def queued_def)

lemma step_ok:
  assumes "chain_step E rt w w'" "J rt" "queues_ok w"
  shows "new_deliveries w w' \<and> queues_ok w'"
  using assms(1)
proof cases
  case (call ck ctx ops r err)
  show ?thesis by (rule call_ok [OF call derive_J [OF assms(2)] assms(3)])
next
  case (deliver k i ctx r n core ck v err)
  note q = take_item_queue [OF deliver(2)]
  let ?u = "w\<lparr>cw_cores := (cw_cores w)(k := core)\<rparr>"
  have "RecordItem i ctx r n \<in> queued w k" using q by (simp add: queued_def)
  then have "item_ok (RecordItem i ctx r n)" using assms(3) unfolding queues_ok_def by blast
  then have "J n" by simp
  moreover have "queues_ok ?u" using assms(3) q by (auto intro!: queues_ok_update simp: queued_def)
  ultimately have "new_deliveries ?u v \<and> queues_ok v" using call_ok [OF deliver(3)] by blast
  then show ?thesis
    using deliver(1) queues_ok_update [of v] by (simp add: new_deliveries_def finish_item_queue queued_def)
next
  case (signal k b core)
  then show ?thesis
    using assms(3) take_item_queue [OF signal(2)]
    by (auto intro!: queues_ok_update simp: new_deliveries_def finish_item_queue queued_def)
next
  case (set_level l)
  then show ?thesis using assms(3) by (simp add: new_deliveries_def queues_ok_def queued_def)
qed

lemma reach_ok: "chain_reach E rt w \<Longrightarrow> J rt \<Longrightarrow> queues_ok w"
proof (induction rule: chain_reach.induct)
  case (init w)
  then show ?case by (simp add: fresh_world_def queues_ok_def queued_def)
next
  case (step w w')
  then show ?case using step_ok by blast
qed

lemma reach_delivered:
  assumes "chain_reach E rt w" "J rt"
  shows "\<forall>(t, r) \<in> set (cw_delivered w). \<exists>lvl ctx. I lvl ctx (Sink t) r"
  using assms
proof (induction rule: chain_reach.induct)
  case (step w w')
  then have "new_deliveries w w'" using step_ok reach_ok by blast
  with step show ?case by (fastforce simp: new_deliveries_def handed_def)
qed (simp add: fresh_world_def)

end

section \<open>Unique keys at every sink\<close>

text \<open>Handlers that forward a record as it is.\<close>

fun quiet :: "'t chain \<Rightarrow> bool" where
  "quiet (Sink t) = True"
| "quiet (LevelGate n) = quiet n"
| "quiet (Multi cs) = list_all quiet cs"
| "quiet _ = False"

text \<open>Every path from \<open>c\<close> to a sink ends in a \<open>DedupHandler\<close> of the kind \<open>Q\<close> above quiet handlers.\<close>

fun guarded :: "(attr list \<Rightarrow> bytes list \<Rightarrow> bool) \<Rightarrow> 't chain \<Rightarrow> bool" where
  "guarded Q (Sink t) = False"
| "guarded Q (LevelGate n) = guarded Q n"
| "guarded Q (Dedup p res ops n) = (Q p res \<and> quiet n \<or> guarded Q n)"
| "guarded Q (Filter rules m ops n) = guarded Q n"
| "guarded Q (GlobalFields fs ov ops n) = guarded Q n"
| "guarded Q (Source n) = guarded Q n"
| "guarded Q (Component n) = guarded Q n"
| "guarded Q (Sampling k i l p kf n) = guarded Q n"
| "guarded Q (Counting c n) = guarded Q n"
| "guarded Q (Buffered b n) = guarded Q n"
| "guarded Q (Hook f n) = guarded Q n"
| "guarded Q (Otel tk sk tf g os n) = guarded Q n"
| "guarded Q (Multi cs) = list_all (guarded Q) cs"

lemma quiet_derived: "quiet c \<Longrightarrow> quiet (chain_WithAttrs E c as)" "quiet c \<Longrightarrow> quiet (chain_WithGroup E c g)"
  by (induction c arbitrary: as g rule: quiet.induct)
     (auto simp: with_attrs_defs with_group_defs of_view_defs list_all_iff)

lemma guarded_WithAttrs: "guarded Q c \<Longrightarrow> guarded Q (chain_WithAttrs E c as)"
  by (induction E c as rule: chain_WithAttrs.induct)
     (auto simp: with_attrs_defs of_view_defs Let_def list_all_iff)

lemma guarded_WithGroup: "guarded Q c \<Longrightarrow> guarded Q (chain_WithGroup E c g)"
  by (induction E c g rule: chain_WithGroup.induct)
     (auto simp: with_group_defs of_view_defs Let_def list_all_iff)

text \<open>What every \<open>DedupHandler\<close> of a kind makes true of the records it forwards holds at every sink below one.\<close>

definition guard_inv ::
  "(attr list \<Rightarrow> bytes list \<Rightarrow> bool) \<Rightarrow> (attr list \<Rightarrow> bool) \<Rightarrow> int \<Rightarrow> ctx \<Rightarrow> 't chain \<Rightarrow> slog_record \<Rightarrow> bool" where
  "guard_inv Q R lvl ctx c r \<longleftrightarrow> guarded Q c \<or> (quiet c \<and> R (r_attrs r))"

locale dedup_guarantee =
  fixes E :: "'t chain_env"
    and Q :: "attr list \<Rightarrow> bytes list \<Rightarrow> bool"
    and R :: "attr list \<Rightarrow> bool"
  assumes Handle_guarantee: "Q p res \<Longrightarrow> R (r_attrs (DedupHandler_Handle (dedup_view p res ops (n :: 't chain)) r))"

sublocale dedup_guarantee \<subseteq> chain_property E "guarded Q" "guard_inv Q R"
proof
  fix c :: "'t chain" and as g lvl ctx r
  assume g: "guarded Q c"
  then show "guarded Q (chain_WithAttrs E c as)" "guarded Q (chain_WithGroup E c g)"
    by (rule guarded_WithAttrs, rule guarded_WithGroup)
  from g show "guard_inv Q R lvl ctx c r" by (simp add: guard_inv_def)
next
  fix lvl ctx ctx' r r' and c n :: "'t chain"
  assume inv: "guard_inv Q R lvl ctx c r" and "forwards E lvl ctx c r ctx' n r'"
  from this(2) show "guard_inv Q R lvl ctx' n r'"
  proof cases
    case (dedup p res ops)
    then show ?thesis using inv Handle_guarantee by (auto simp: guard_inv_def)
  next
    case (filter rules m ops n0)
    then have "guarded Q n0" using inv by (simp add: guard_inv_def)
    then have "guarded Q n"
      by (intro FilterHandler_Handle_inv [where P = "guarded Q", OF filter(3)])
        (simp_all add: guarded_WithAttrs guarded_WithGroup)
    then show ?thesis by (simp add: guard_inv_def)
  qed (use inv in \<open>auto simp: guard_inv_def list_all_iff dest: SourceHandler_Handle_next
         ComponentHandler_Handle_next otel_Handle_next\<close>)
next
  fix lvl ctx k r and n :: "'t chain"
  assume "guard_inv Q R lvl ctx (Buffered k n) r"
  then show "guarded Q n" by (simp add: guard_inv_def)
qed

context dedup_guarantee begin

lemma at_every_sink:
  assumes "chain_reach E rt w" "guarded Q rt"
  shows "\<forall>(t, r) \<in> set (cw_delivered w). R (r_attrs r)"
  using reach_delivered [OF assms] by (auto simp: guard_inv_def)

end

text \<open>The kind of handler that reserves \<open>res\<close>, and the one that also pins \<open>ps\<close>.\<close>

definition reserves :: "bytes list \<Rightarrow> attr list \<Rightarrow> bytes list \<Rightarrow> bool" where
  "reserves res p res' \<longleftrightarrow> res' = res"

definition pins_first :: "attr list \<Rightarrow> bytes list \<Rightarrow> attr list \<Rightarrow> bytes list \<Rightarrow> bool" where
  "pins_first ps res p res' \<longleftrightarrow> res' = res \<and> p = ps \<and> list_all flat_attr ps \<and> distinct (map Key ps)"

interpretation unique_keys: dedup_guarantee E "reserves res" "deduped res" for E :: "'t chain_env" and res
proof
  fix p res' ops r and n :: "'t chain"
  assume "reserves res p res'"
  then show "deduped res (r_attrs (DedupHandler_Handle (dedup_view p res' ops n) r))"
    using Handle_deduped [of "dedup_view p res' ops n" r] by (simp add: reserves_def)
qed

interpretation pinned_keys: dedup_guarantee E "pins_first ps res"
  "\<lambda>as. take (length ps) as = map (rename_attr res) ps" for E :: "'t chain_env" and ps res
proof
  fix p res' ops r and n :: "'t chain"
  assume "pins_first ps res p res'"
  then show "take (length ps) (r_attrs (DedupHandler_Handle (dedup_view p res' ops n) r)) = map (rename_attr res) ps"
    using Handle_pinned_first [of "dedup_view p res' ops n" r] by (simp add: pins_first_def)
qed

section \<open>The level gate\<close>

text \<open>Chains without a buffer, and chains that reach a sink only through a level gate with no buffer below it.\<close>

fun direct :: "'t chain \<Rightarrow> bool" where
  "direct (Sink t) = True"
| "direct (LevelGate n) = direct n"
| "direct (Dedup p res ops n) = direct n"
| "direct (Filter rules m ops n) = direct n"
| "direct (GlobalFields fs ov ops n) = direct n"
| "direct (Source n) = direct n"
| "direct (Component n) = direct n"
| "direct (Sampling k i l p kf n) = direct n"
| "direct (Counting c n) = direct n"
| "direct (Buffered b n) = False"
| "direct (Hook f n) = direct n"
| "direct (Otel tk sk tf g os n) = direct n"
| "direct (Multi cs) = list_all direct cs"

fun level_gated :: "'t chain \<Rightarrow> bool" where
  "level_gated (Sink t) = False"
| "level_gated (LevelGate n) = (direct n \<or> level_gated n)"
| "level_gated (Dedup p res ops n) = level_gated n"
| "level_gated (Filter rules m ops n) = level_gated n"
| "level_gated (GlobalFields fs ov ops n) = level_gated n"
| "level_gated (Source n) = level_gated n"
| "level_gated (Component n) = level_gated n"
| "level_gated (Sampling k i l p kf n) = level_gated n"
| "level_gated (Counting c n) = level_gated n"
| "level_gated (Buffered b n) = level_gated n"
| "level_gated (Hook f n) = level_gated n"
| "level_gated (Otel tk sk tf g os n) = level_gated n"
| "level_gated (Multi cs) = list_all level_gated cs"

definition level_inv :: "int \<Rightarrow> ctx \<Rightarrow> 't chain \<Rightarrow> slog_record \<Rightarrow> bool" where
  "level_inv lvl ctx c r \<longleftrightarrow> level_gated c \<or> (direct c \<and> lvl \<le> r_level r)"

lemma direct_WithAttrs: "direct c \<Longrightarrow> direct (chain_WithAttrs E c as)"
  by (induction E c as rule: chain_WithAttrs.induct)
     (auto simp: with_attrs_defs of_view_defs Let_def list_all_iff)

lemma direct_WithGroup: "direct c \<Longrightarrow> direct (chain_WithGroup E c g)"
  by (induction E c g rule: chain_WithGroup.induct)
     (auto simp: with_group_defs of_view_defs Let_def list_all_iff)

lemma gated_WithAttrs: "level_gated c \<Longrightarrow> level_gated (chain_WithAttrs E c as)"
  by (induction E c as rule: chain_WithAttrs.induct)
     (auto simp: with_attrs_defs of_view_defs Let_def list_all_iff direct_WithAttrs)

lemma gated_WithGroup: "level_gated c \<Longrightarrow> level_gated (chain_WithGroup E c g)"
  by (induction E c g rule: chain_WithGroup.induct)
     (auto simp: with_group_defs of_view_defs Let_def list_all_iff direct_WithGroup)

lemma DedupHandler_Handle_level: "r_level (DedupHandler_Handle h r) = r_level r"
  by (simp add: DedupHandler_Handle_def)

lemma GlobalFieldsHandler_Handle_level: "r_level (GlobalFieldsHandler_Handle h r) = r_level r"
  by (simp add: GlobalFieldsHandler_Handle_def handleGrouped_def NewRecord_def Let_def)

lemma FilterHandler_Handle_level: "FilterHandler_Handle wa wg uf h r = Some (n, r') \<Longrightarrow> r_level r' = r_level r"
  by (auto simp: FilterHandler_Handle_def split: if_splits option.splits prod.splits)

lemma SourceHandler_Handle_level: "SourceHandler_Handle fr h r = (n, r') \<Longrightarrow> r_level r' = r_level r"
  by (auto simp: SourceHandler_Handle_def Let_def split: if_splits)

lemma ComponentHandler_Handle_level: "ComponentHandler_Handle fr h r = (n, r') \<Longrightarrow> r_level r' = r_level r"
  by (auto simp: ComponentHandler_Handle_def Let_def split: if_splits)

lemma otel_Handle_level: "otel_Handle sp h ctx r = (n, r') \<Longrightarrow> r_level r' = r_level r"
  by (auto simp: otel_Handle_def Let_def split: if_splits)

lemmas Handle_level = DedupHandler_Handle_level GlobalFieldsHandler_Handle_level FilterHandler_Handle_level
  SourceHandler_Handle_level ComponentHandler_Handle_level otel_Handle_level

lemma FilterHandler_Handle_kind:
  assumes "FilterHandler_Handle (chain_WithAttrs E) (chain_WithGroup E) uf h r = Some (n, r')"
  shows "level_gated (fh_next h) \<Longrightarrow> level_gated n" "direct (fh_next h) \<Longrightarrow> direct n"
  by (rule FilterHandler_Handle_inv [where P = level_gated, OF assms],
      simp_all add: gated_WithAttrs gated_WithGroup)
    (rule FilterHandler_Handle_inv [where P = direct, OF assms],
      simp_all add: direct_WithAttrs direct_WithGroup)

interpretation level_gate: chain_property E level_gated level_inv for E :: "'t chain_env"
proof
  fix c :: "'t chain" and as g lvl ctx r
  assume g: "level_gated c"
  then show "level_gated (chain_WithAttrs E c as)" "level_gated (chain_WithGroup E c g)"
    by (rule gated_WithAttrs, rule gated_WithGroup)
  from g show "level_inv lvl ctx c r" by (simp add: level_inv_def)
next
  fix lvl ctx ctx' r r' and c n :: "'t chain"
  assume inv: "level_inv lvl ctx c r" and "forwards E lvl ctx c r ctx' n r'"
  from this(2) show "level_inv lvl ctx' n r'"
  proof cases
    case (filter rules m ops n0)
    then have "level_gated n0 \<or> (direct n0 \<and> lvl \<le> r_level r)" using inv by (simp add: level_inv_def)
    with FilterHandler_Handle_kind [OF filter(3)] show ?thesis
      using Handle_level(3) [OF filter(3)] by (auto simp: level_inv_def)
  next
    case (source n0)
    then show ?thesis using inv SourceHandler_Handle_next [OF source(3)] Handle_level(4) [OF source(3)]
      by (auto simp: level_inv_def)
  next
    case (component n0)
    then show ?thesis using inv ComponentHandler_Handle_next [OF component(3)] Handle_level(5) [OF component(3)]
      by (auto simp: level_inv_def)
  next
    case (otel tk sk tf g os n0)
    then show ?thesis using inv otel_Handle_next [OF otel(3)] Handle_level(6) [OF otel(3)]
      by (auto simp: level_inv_def)
  qed (use inv in \<open>auto simp: level_inv_def list_all_iff Handle_level(1,2)\<close>)
next
  fix lvl ctx k r and n :: "'t chain"
  assume "level_inv lvl ctx (Buffered k n) r"
  then show "level_gated n" by (simp add: level_inv_def)
qed

lemma gated_deliveries:
  assumes "chain_reach E rt w" "chain_step E rt w w'" "level_gated rt"
  shows "\<exists>ds. cw_delivered w' = cw_delivered w @ ds \<and> (\<forall>(t, r) \<in> set ds. cw_level w \<le> r_level r)"
proof -
  have "level_gate.new_deliveries w w'"
    using level_gate.step_ok [OF assms(2,3)] level_gate.reach_ok [OF assms(1,3)] by blast
  then show ?thesis by (auto simp: level_gate.new_deliveries_def handed_def level_inv_def)
qed

section \<open>Fan-out\<close>

fun child_errors :: "'t chain_env \<Rightarrow> int \<Rightarrow> slog_record \<Rightarrow> nat \<Rightarrow> 't list \<Rightarrow> (nat \<times> handler_error) list" where
  "child_errors E lvl r i [] = []"
| "child_errors E lvl r i (t # ts) =
     (if ce_sink_enabled E lvl t (r_level r)
      then (case ce_sink_handle E t r of Some e \<Rightarrow> [(i, SinkError e)] | None \<Rightarrow> [])
      else []) @ child_errors E lvl r (Suc i) ts"

lemma multi_loop_sinks:
  "multi_loop (\<lambda>n l. chain_Enabled E lvl n l) (\<lambda>n r w. chain_Handle E ck ctx n r w) r i (map Sink ts) w errs =
     Some (w\<lparr>cw_delivered := cw_delivered w @
             map (\<lambda>t. (t, r)) (filter (\<lambda>t. ce_sink_enabled E lvl t (r_level r)) ts)\<rparr>,
           errs @ child_errors E lvl r i ts)"
  by (induction ts arbitrary: i w errs) (auto split: option.splits)

text \<open>
  A \<open>MultiHandler\<close> hands the record, unchanged, to every child that is enabled for its level, once and in
  construction order, whatever the other children return, and its error is exactly the list of the failing
  children's errors with their positions.
\<close>

theorem multi_fans_out:
  "chain_Handle E ck ctx (Multi (map Sink ts)) r w =
     Some (w\<lparr>cw_delivered := cw_delivered w @
             map (\<lambda>t. (t, r)) (filter (\<lambda>t. ce_sink_enabled E (cw_level w) t (r_level r)) ts)\<rparr>,
           multi_result (child_errors E (cw_level w) r 0 ts))"
  by (simp add: MultiHandler_Handle_def multi_loop_sinks)

end
