(* ===== verification/Lifecycle.thy ===== *)
theory Lifecycle
  imports ChainRun
begin

text \<open>
  \<open>lifecycle.go\<close>: the discovery of the handlers that hold records, and the lifecycle group that all loggers
  of one pipeline share, with its one shutdown.

  Goroutines that log, flush or shut down, and the goroutine the shutdown starts, take atomic steps that
  interleave in any order. What the handlers return and when a context expires are choices of the schedule.
  The fields that start with \<open>gl_\<close> record the history for the statements; no step reads them.
\<close>

section \<open>Discovery\<close>

definition maxUnwrapDepth :: nat where
  "maxUnwrapDepth = 32"

text \<open>What a handler answers to the type switch; an \<open>Unwrap\<close> method may return nil.\<close>

datatype 'h unwrapped = Opaque | UnwrapOne "'h option" | UnwrapMany "'h option list"

function flusher_walk ::
  "('h \<Rightarrow> bool) \<Rightarrow> ('h \<Rightarrow> 'h unwrapped) \<Rightarrow> nat \<Rightarrow> 'h option \<Rightarrow> 'h list" where
  "flusher_walk is_flusher unwrap depth h =
     (case h of
        None \<Rightarrow> []
      | Some h \<Rightarrow>
          if depth > maxUnwrapDepth then []
          else (if is_flusher h then [h] else []) @
               (case unwrap h of
                  UnwrapMany hs \<Rightarrow> concat (map (\<lambda>n. flusher_walk is_flusher unwrap (depth + 1) n) hs)
                | UnwrapOne n \<Rightarrow> flusher_walk is_flusher unwrap (depth + 1) n
                | Opaque \<Rightarrow> []))"
  by pat_completeness auto
termination
  by (relation "measure (\<lambda>(f, u, depth, h). Suc maxUnwrapDepth - depth)") auto

declare flusher_walk.simps [simp del]

definition collectFlushers :: "('h \<Rightarrow> bool) \<Rightarrow> ('h \<Rightarrow> 'h unwrapped) \<Rightarrow> 'h option \<Rightarrow> 'h list" where
  "collectFlushers is_flusher unwrap h = flusher_walk is_flusher unwrap 0 h"

text \<open>One link of the graph the walk follows, and the handlers a number of links away.\<close>

fun unwraps_to :: "('h \<Rightarrow> 'h unwrapped) \<Rightarrow> 'h \<Rightarrow> 'h \<Rightarrow> bool" where
  "unwraps_to unwrap h n = (case unwrap h of UnwrapMany hs \<Rightarrow> Some n \<in> set hs | UnwrapOne m \<Rightarrow> m = Some n | Opaque \<Rightarrow> False)"

fun links :: "('h \<Rightarrow> 'h unwrapped) \<Rightarrow> nat \<Rightarrow> 'h \<Rightarrow> 'h \<Rightarrow> bool" where
  "links unwrap 0 h n = (n = h)"
| "links unwrap (Suc k) h n = (\<exists>m. unwraps_to unwrap h m \<and> links unwrap k m n)"

lemma flusher_walk_None [simp]: "flusher_walk fl un depth None = []"
  by (simp add: flusher_walk.simps)

lemma flusher_walk_iff:
  "f \<in> set (flusher_walk fl un depth (Some h)) \<longleftrightarrow> fl f \<and> (\<exists>k. depth + k \<le> maxUnwrapDepth \<and> links un k h f)"
proof (induction "Suc maxUnwrapDepth - depth" arbitrary: depth h)
  case 0
  then show ?case by (simp add: flusher_walk.simps)
next
  case (Suc m)
  then have le: "depth \<le> maxUnwrapDepth" by simp
  have IH: "f \<in> set (flusher_walk fl un (depth + 1) (Some n)) \<longleftrightarrow>
      fl f \<and> (\<exists>k. depth + 1 + k \<le> maxUnwrapDepth \<and> links un k n f)" for n
    using Suc(1) [of "depth + 1" n] Suc(2) by simp
  have onward: "f \<in> set (flusher_walk fl un (Suc depth) m) \<longleftrightarrow>
      (\<exists>n. m = Some n \<and> fl f \<and> (\<exists>k. Suc (depth + k) \<le> maxUnwrapDepth \<and> links un k n f))" for m
    using IH by (cases m) simp_all
  have "f \<in> set (flusher_walk fl un depth (Some h)) \<longleftrightarrow>
      (fl h \<and> f = h) \<or> (\<exists>n. unwraps_to un h n \<and> fl f \<and> (\<exists>k. depth + 1 + k \<le> maxUnwrapDepth \<and> links un k n f))"
    using le by (subst flusher_walk.simps) (auto simp: onward split: unwrapped.splits)
  also have "\<dots> \<longleftrightarrow> fl f \<and> (\<exists>k. depth + k \<le> maxUnwrapDepth \<and> links un k h f)"
  proof -
    have "(\<exists>k. depth + k \<le> maxUnwrapDepth \<and> links un k h f) \<longleftrightarrow>
        f = h \<or> (\<exists>k. depth + Suc k \<le> maxUnwrapDepth \<and> links un (Suc k) h f)"
      using le by (metis add_0_right links.simps(1) not0_implies_Suc)
    then show ?thesis by auto
  qed
  finally show ?case .
qed

text \<open>
  C14. Discovery is exact and always ends, on any graph of handlers, cyclic ones included: it finds a handler when
  and only when the handler has a lifecycle and is at most 32 links away.
\<close>

theorem discovery_exact:
  "f \<in> set (collectFlushers fl un (Some h)) \<longleftrightarrow> fl f \<and> (\<exists>k \<in> {0..32}. links un k h f)"
  by (auto simp: collectFlushers_def flusher_walk_iff maxUnwrapDepth_def)

section \<open>The lifecycle group\<close>

text \<open>
  An error of a handler is one that wraps \<open>handler.ErrShutdown\<close>, the error of an expired context, or another one.
\<close>

datatype lifecycle_error = ErrLoggerShutdown | ErrHandlerShutdown | ErrContext | ErrOther bytes

type_synonym lc_result = "lifecycle_error option"

definition translateLifecycleErr :: "lc_result \<Rightarrow> lc_result" where
  "translateLifecycleErr err =
     (if err \<noteq> None \<and> err = Some ErrHandlerShutdown then Some ErrLoggerShutdown else err)"

text \<open>\<open>sync.Once\<close>: not run yet, its function running on some goroutine, run.\<close>

datatype once_state = OnceFresh | OnceRunning nat | OnceDone

record 'f lifecycle_group =
  lc_handlers :: "'f list"
  lc_once :: once_state
  lc_done :: bool
  lc_err :: lc_result
  lc_stopping :: bool
  lc_rejected :: u64
  gl_shut :: "nat list"
  gl_results :: "lc_result list"
  gl_accepted :: nat
  gl_refused :: nat
  gl_panicked :: bool

definition newLifecycleGroup :: "'f list \<Rightarrow> 'f lifecycle_group" where
  "newLifecycleGroup handlers =
     \<lparr>lc_handlers = handlers, lc_once = OnceFresh, lc_done = False, lc_err = None, lc_stopping = False,
      lc_rejected = 0, gl_shut = [], gl_results = [], gl_accepted = 0, gl_refused = 0, gl_panicked = False\<rparr>"

text \<open>The methods that only read or count; a nil group is \<open>None\<close>.\<close>

definition isStopping :: "'f lifecycle_group option \<Rightarrow> bool" where
  "isStopping g = (case g of None \<Rightarrow> False | Some g \<Rightarrow> lc_stopping g)"

definition rejectRecord :: "'f lifecycle_group option \<Rightarrow> 'f lifecycle_group option" where
  "rejectRecord g =
     (case g of None \<Rightarrow> None
      | Some g \<Rightarrow> Some (g\<lparr>lc_rejected := lc_rejected g + 1\<rparr>))"

definition rejectedCount :: "'f lifecycle_group option \<Rightarrow> u64" where
  "rejectedCount g = (case g of None \<Rightarrow> 0 | Some g \<Rightarrow> lc_rejected g)"

text \<open>The loop both \<open>flush\<close> and \<open>shutdownAllToCompletion\<close> run: the first error is kept.\<close>

definition keep_first :: "lc_result \<Rightarrow> lc_result \<Rightarrow> lc_result" where
  "keep_first first res =
     (let err = translateLifecycleErr res in if err \<noteq> None \<and> first = None then err else first)"

text \<open>
  Where a goroutine is: in the gate of a log call, in \<open>flush\<close> (with the index of the next handler and the first error),
  in \<open>shutdown\<close> (before the once, in its function, waiting), or returned.
\<close>

datatype lc_client =
    LcIdle
  | LogGate
  | LogReject
  | LogDone bool
  | FlushGate
  | FlushCall nat lc_result
  | FlushReturned lc_result
  | ShutOnce
  | ShutStore
  | ShutSpawn
  | ShutOnceEnd
  | ShutWait
  | ShutReturned lc_result

datatype lc_choice = LcProceed | LcCtxDone | LcHandlerReturns lc_result

text \<open>The goroutine that \<open>shutdown\<close> starts.\<close>

datatype lc_runner = RunNone | RunCall nat lc_result | RunStore lc_result | RunClose | RunGone

record 'f lc_sys =
  ls_group :: "'f lifecycle_group"
  ls_clients :: "nat \<Rightarrow> lc_client"
  ls_runner :: lc_runner

text \<open>The gate of a log call (\<open>logRateAware\<close>).\<close>

fun log_gate :: "'f lifecycle_group \<Rightarrow> lc_client \<Rightarrow> ('f lifecycle_group \<times> lc_client) option" where
  "log_gate g LogGate = (if isStopping (Some g) then Some (g, LogReject) else Some (g, LogDone True))"
| "log_gate g LogReject = Some (the (rejectRecord (Some g)), LogDone False)"
| "log_gate g _ = None"

text \<open>
  History, taken from what the call came to and from nothing else: a call that got through, a call that returned
  without its record.
\<close>

fun note_log :: "lc_client \<Rightarrow> 'f lifecycle_group \<Rightarrow> 'f lifecycle_group" where
  "note_log (LogDone True) g = g\<lparr>gl_accepted := gl_accepted g + 1\<rparr>"
| "note_log (LogDone False) g = g\<lparr>gl_refused := gl_refused g + 1\<rparr>"
| "note_log _ g = g"

definition log_step :: "'f lifecycle_group \<Rightarrow> lc_client \<Rightarrow> ('f lifecycle_group \<times> lc_client) option" where
  "log_step g pc = map_option (\<lambda>(g, pc). (note_log pc g, pc)) (log_gate g pc)"

lemma log_step_simps [simp]:
  "log_step g LogGate = Some (if lc_stopping g then (g, LogReject) else (g\<lparr>gl_accepted := gl_accepted g + 1\<rparr>, LogDone True))"
  "log_step g LogReject = Some (g\<lparr>lc_rejected := lc_rejected g + 1, gl_refused := gl_refused g + 1\<rparr>, LogDone False)"
  "pc \<noteq> LogGate \<Longrightarrow> pc \<noteq> LogReject \<Longrightarrow> log_step g pc = None"
  by (simp_all add: log_step_def isStopping_def rejectRecord_def) (cases pc; simp)

lemma log_stepE:
  assumes "log_step g pc = Some x"
  obtains (refuse) "pc = LogGate" "lc_stopping g" "x = (g, LogReject)"
  | (admit) "pc = LogGate" "\<not> lc_stopping g" "x = (g\<lparr>gl_accepted := gl_accepted g + 1\<rparr>, LogDone True)"
  | (count) "pc = LogReject" "x = (g\<lparr>lc_rejected := lc_rejected g + 1, gl_refused := gl_refused g + 1\<rparr>, LogDone False)"
  using assms by (cases pc) (auto split: if_splits)

fun lc_flush_step :: "lc_choice \<Rightarrow> 'f lifecycle_group \<Rightarrow> lc_client \<Rightarrow> ('f lifecycle_group \<times> lc_client) option" where
  "lc_flush_step ch g FlushGate =
     (if lc_stopping g then Some (g, FlushReturned (Some ErrLoggerShutdown)) else Some (g, FlushCall 0 None))"
| "lc_flush_step ch g (FlushCall i first) =
     (if i < length (lc_handlers g)
      then (case ch of
              LcHandlerReturns res \<Rightarrow> Some (g, FlushCall (Suc i) (keep_first first res))
            | _ \<Rightarrow> None)
      else Some (g, FlushReturned first))"
| "lc_flush_step ch g _ = None"

fun lc_shutdown_step ::
  "nat \<Rightarrow> lc_choice \<Rightarrow> 'f lifecycle_group \<Rightarrow> lc_runner \<Rightarrow> lc_client \<Rightarrow>
   ('f lifecycle_group \<times> lc_runner \<times> lc_client) option" where
  "lc_shutdown_step t ch g run ShutOnce =
     (case lc_once g of
        OnceFresh \<Rightarrow> Some (g\<lparr>lc_once := OnceRunning t\<rparr>, run, ShutStore)
      | OnceRunning u \<Rightarrow> None
      | OnceDone \<Rightarrow> Some (g, run, ShutWait))"
| "lc_shutdown_step t ch g run ShutStore = Some (g\<lparr>lc_stopping := True\<rparr>, run, ShutSpawn)"
| "lc_shutdown_step t ch g run ShutSpawn = Some (g, RunCall 0 None, ShutOnceEnd)"
| "lc_shutdown_step t ch g run ShutOnceEnd = Some (g\<lparr>lc_once := OnceDone\<rparr>, run, ShutWait)"
| "lc_shutdown_step t ch g run ShutWait =
     (case ch of
        LcProceed \<Rightarrow> if lc_done g then Some (g, run, ShutReturned (lc_err g)) else None
      | LcCtxDone \<Rightarrow> Some (g, run, ShutReturned (Some ErrContext))
      | LcHandlerReturns res \<Rightarrow> None)"
| "lc_shutdown_step t ch g run _ = None"

text \<open>\<open>shutdownAllToCompletion\<close>, then the store of its result and the close of \<open>done\<close>.\<close>

fun runner_step :: "lc_choice \<Rightarrow> 'f lifecycle_group \<Rightarrow> lc_runner \<Rightarrow> ('f lifecycle_group \<times> lc_runner) option" where
  "runner_step ch g (RunCall i first) =
     (if i < length (lc_handlers g)
      then (case ch of
              LcHandlerReturns res \<Rightarrow>
                Some (g\<lparr>gl_shut := gl_shut g @ [i], gl_results := gl_results g @ [res]\<rparr>,
                      RunCall (Suc i) (keep_first first res))
            | _ \<Rightarrow> None)
      else Some (g, RunStore first))"
| "runner_step ch g (RunStore first) = Some (g\<lparr>lc_err := first\<rparr>, RunClose)"
| "runner_step ch g RunClose =
     Some ((if lc_done g then g\<lparr>gl_panicked := True\<rparr> else g\<lparr>lc_done := True\<rparr>), RunGone)"
| "runner_step ch g _ = None"

definition newLifecycle :: "'f list \<Rightarrow> 'f lc_sys" where
  "newLifecycle handlers =
     \<lparr>ls_group = newLifecycleGroup handlers, ls_clients = (\<lambda>_. LcIdle), ls_runner = RunNone\<rparr>"

fun lc_at_rest :: "lc_client \<Rightarrow> bool" where
  "lc_at_rest LcIdle = True"
| "lc_at_rest (LogDone b) = True"
| "lc_at_rest (FlushReturned res) = True"
| "lc_at_rest (ShutReturned res) = True"
| "lc_at_rest _ = False"

inductive lc_step :: "'f lc_sys \<Rightarrow> 'f lc_sys \<Rightarrow> bool" where
  start: "lc_at_rest (ls_clients s t) \<Longrightarrow> pc \<in> {LogGate, FlushGate, ShutOnce} \<Longrightarrow>
    lc_step s (s\<lparr>ls_clients := (ls_clients s)(t := pc)\<rparr>)"
| log: "log_step (ls_group s) (ls_clients s t) = Some (g, pc) \<Longrightarrow>
    lc_step s (s\<lparr>ls_group := g, ls_clients := (ls_clients s)(t := pc)\<rparr>)"
| flush: "lc_flush_step ch (ls_group s) (ls_clients s t) = Some (g, pc) \<Longrightarrow>
    lc_step s (s\<lparr>ls_group := g, ls_clients := (ls_clients s)(t := pc)\<rparr>)"
| shutdown: "lc_shutdown_step t ch (ls_group s) (ls_runner s) (ls_clients s t) = Some (g, run, pc) \<Longrightarrow>
    lc_step s (s\<lparr>ls_group := g, ls_clients := (ls_clients s)(t := pc), ls_runner := run\<rparr>)"
| runner: "runner_step ch (ls_group s) (ls_runner s) = Some (g, run) \<Longrightarrow>
    lc_step s (s\<lparr>ls_group := g, ls_runner := run\<rparr>)"

inductive lc_reach :: "'f list \<Rightarrow> 'f lc_sys \<Rightarrow> bool" for hs where
  init: "lc_reach hs (newLifecycle hs)"
| step: "lc_reach hs s \<Longrightarrow> lc_step s s' \<Longrightarrow> lc_reach hs s'"

inductive_cases lc_stepE: "lc_step s s'"

fun_cases lc_flush_stepE: "lc_flush_step ch g pc = Some x"
fun_cases lc_shutdown_stepE: "lc_shutdown_step t ch g run pc = Some x"
fun_cases runner_stepE: "runner_step ch g run = Some x"

section \<open>The invariant\<close>

text \<open>The final result: the first error the handlers returned, translated.\<close>

fun first_error :: "lc_result list \<Rightarrow> lc_result" where
  "first_error [] = None"
| "first_error (res # rs) = (if res \<noteq> None then translateLifecycleErr res else first_error rs)"

lemma translate_None [simp]: "translateLifecycleErr None = None" "translateLifecycleErr (Some e) \<noteq> None"
  by (simp_all add: translateLifecycleErr_def)

lemma first_error_snoc: "first_error (rs @ [res]) = keep_first (first_error rs) res"
  by (induction rs) (auto simp: keep_first_def Let_def)

fun in_once :: "lc_client \<Rightarrow> bool" where
  "in_once ShutStore = True"
| "in_once ShutSpawn = True"
| "in_once ShutOnceEnd = True"
| "in_once _ = False"

fun runner_ok :: "'f lifecycle_group \<Rightarrow> lc_runner \<Rightarrow> bool" where
  "runner_ok g RunNone \<longleftrightarrow> gl_shut g = [] \<and> gl_results g = [] \<and> \<not> lc_done g \<and> lc_err g = None"
| "runner_ok g (RunCall i first) \<longleftrightarrow> i \<le> length (lc_handlers g) \<and> gl_shut g = [0..<i] \<and> length (gl_results g) = i \<and>
     first = first_error (gl_results g) \<and> \<not> lc_done g"
| "runner_ok g (RunStore first) \<longleftrightarrow> gl_shut g = [0..<length (lc_handlers g)] \<and>
     length (gl_results g) = length (lc_handlers g) \<and> first = first_error (gl_results g) \<and> \<not> lc_done g"
| "runner_ok g RunClose \<longleftrightarrow> gl_shut g = [0..<length (lc_handlers g)] \<and>
     length (gl_results g) = length (lc_handlers g) \<and> lc_err g = first_error (gl_results g) \<and> \<not> lc_done g"
| "runner_ok g RunGone \<longleftrightarrow> gl_shut g = [0..<length (lc_handlers g)] \<and>
     length (gl_results g) = length (lc_handlers g) \<and> lc_err g = first_error (gl_results g) \<and> lc_done g"

definition once_ok :: "'f lc_sys \<Rightarrow> bool" where
  "once_ok s \<longleftrightarrow>
     (case lc_once (ls_group s) of
        OnceFresh \<Rightarrow> ls_runner s = RunNone \<and> \<not> lc_stopping (ls_group s) \<and> (\<forall>t. \<not> in_once (ls_clients s t))
      | OnceRunning u \<Rightarrow> in_once (ls_clients s u) \<and> (\<forall>t. t \<noteq> u \<longrightarrow> \<not> in_once (ls_clients s t)) \<and>
          (lc_stopping (ls_group s) \<longleftrightarrow> ls_clients s u \<noteq> ShutStore) \<and>
          (ls_runner s = RunNone \<longleftrightarrow> ls_clients s u \<noteq> ShutOnceEnd)
      | OnceDone \<Rightarrow> ls_runner s \<noteq> RunNone \<and> lc_stopping (ls_group s) \<and> (\<forall>t. \<not> in_once (ls_clients s t)))"

definition lc_inv :: "'f list \<Rightarrow> 'f lc_sys \<Rightarrow> bool" where
  "lc_inv hs s \<longleftrightarrow> lc_handlers (ls_group s) = hs \<and> once_ok s \<and> runner_ok (ls_group s) (ls_runner s) \<and>
     \<not> gl_panicked (ls_group s) \<and> lc_rejected (ls_group s) = of_nat (gl_refused (ls_group s))"

lemma lc_inv_init: "lc_inv hs (newLifecycle hs)"
  by (simp add: lc_inv_def newLifecycle_def newLifecycleGroup_def once_ok_def)

text \<open>A step of a goroutine outside the once changes nothing the once depends on.\<close>

lemma once_ok_client:
  assumes "once_ok s" "\<not> in_once (ls_clients s t)" "\<not> in_once pc"
    "lc_once g = lc_once (ls_group s)" "lc_stopping g = lc_stopping (ls_group s)"
  shows "once_ok (s\<lparr>ls_group := g, ls_clients := (ls_clients s)(t := pc)\<rparr>)"
  using assms by (auto simp: once_ok_def split: once_state.splits)

lemma runner_ok_same:
  assumes "runner_ok g run" "gl_shut g' = gl_shut g" "gl_results g' = gl_results g" "lc_done g' = lc_done g"
    "lc_err g' = lc_err g" "lc_handlers g' = lc_handlers g"
  shows "runner_ok g' run"
  using assms by (cases run) simp_all

lemma lc_log_effect:
  assumes "log_step g pc = Some (g', pc')"
  shows "\<not> in_once pc" "\<not> in_once pc'" "lc_once g' = lc_once g" "lc_stopping g' = lc_stopping g"
    "gl_shut g' = gl_shut g" "gl_results g' = gl_results g" "lc_done g' = lc_done g" "lc_err g' = lc_err g"
    "lc_handlers g' = lc_handlers g" "gl_panicked g' = gl_panicked g"
    "lc_rejected g = of_nat (gl_refused g) \<Longrightarrow> lc_rejected g' = of_nat (gl_refused g')"
    "lc_stopping g \<Longrightarrow> gl_accepted g' = gl_accepted g"
  using assms
  by (auto elim!: log_stepE simp: rejectRecord_def isStopping_def split: if_splits)

lemma lc_flush_effect:
  assumes "lc_flush_step ch g pc = Some (g', pc')"
  shows "\<not> in_once pc" "\<not> in_once pc'" "g' = g"
  using assms by (auto elim!: lc_flush_stepE split: if_splits lc_choice.splits)

lemma runner_ok_gate [simp]:
  "runner_ok (g\<lparr>lc_once := o'\<rparr>) run = runner_ok g run" "runner_ok (g\<lparr>lc_stopping := b\<rparr>) run = runner_ok g run"
  by (cases run; simp)+

lemma once_holder:
  assumes "once_ok s" "in_once (ls_clients s t)"
  shows "lc_once (ls_group s) = OnceRunning t"
  using assms by (cases "lc_once (ls_group s)") (auto simp: once_ok_def, metis)

lemma shutdown_step_inv:
  assumes "lc_shutdown_step t ch (ls_group s) (ls_runner s) (ls_clients s t) = Some (g, run, pc)" "lc_inv hs s"
  shows "lc_inv hs (s\<lparr>ls_group := g, ls_clients := (ls_clients s)(t := pc), ls_runner := run\<rparr>)"
proof (cases "in_once (ls_clients s t)")
  case True
  with assms(2) have "lc_once (ls_group s) = OnceRunning t" using once_holder [of s t] by (simp add: lc_inv_def)
  with True assms show ?thesis
    by (elim lc_shutdown_stepE) (auto simp: lc_inv_def once_ok_def)
next
  case False
  show ?thesis
  proof (cases "ls_clients s t = ShutWait")
    case True
    with assms(1) have "g = ls_group s" "run = ls_runner s" "\<not> in_once pc"
      by (auto split: lc_choice.splits if_splits)
    with True assms(2) once_ok_client [of s t pc g] show ?thesis by (simp add: lc_inv_def once_ok_def)
  next
    case wait: False
    from assms(1) False wait have "ls_clients s t = ShutOnce" by (elim lc_shutdown_stepE) simp_all
    with assms show ?thesis
      by (cases "lc_once (ls_group s)") (auto simp: lc_inv_def once_ok_def)
  qed
qed

lemma runner_step_inv:
  assumes "runner_step ch (ls_group s) (ls_runner s) = Some (g, run)" "lc_inv hs s"
  shows "lc_inv hs (s\<lparr>ls_group := g, ls_runner := run\<rparr>)"
proof -
  have "lc_once g = lc_once (ls_group s) \<and> lc_stopping g = lc_stopping (ls_group s) \<and>
      lc_handlers g = lc_handlers (ls_group s) \<and> run \<noteq> RunNone \<and> ls_runner s \<noteq> RunNone \<and> runner_ok g run \<and>
      \<not> gl_panicked g \<and> lc_rejected g = of_nat (gl_refused g)"
    using assms
    by (auto simp: lc_inv_def first_error_snoc elim!: runner_stepE split: lc_choice.splits if_splits)
  with assms(2) show ?thesis by (auto simp: lc_inv_def once_ok_def split: once_state.splits)
qed

lemma lc_step_inv:
  assumes "lc_step s s'" "lc_inv hs s"
  shows "lc_inv hs s'"
  using assms(1)
proof cases
  case (start t pc)
  then have "\<not> in_once (ls_clients s t)" "\<not> in_once pc" by (cases "ls_clients s t"; auto)+
  with assms(2) show ?thesis
    using once_ok_client [of s t pc "ls_group s"] by (simp add: lc_inv_def start(1))
next
  case (log t g pc)
  note eff = lc_log_effect [OF log(2)]
  have "once_ok s'" unfolding log(1) using once_ok_client [OF _ eff(1-4)] assms(2) by (simp add: lc_inv_def)
  moreover have "runner_ok g (ls_runner s)"
    using assms(2) runner_ok_same [OF _ eff(5,6,7,8,9)] by (simp add: lc_inv_def)
  ultimately show ?thesis using assms(2) eff by (simp add: lc_inv_def log(1))
next
  case (flush ch t g pc)
  note eff = lc_flush_effect [OF flush(2)]
  have "once_ok s'" unfolding flush(1) using once_ok_client [OF _ eff(1,2), of g] eff(3) assms(2) by (simp add: lc_inv_def)
  then show ?thesis using assms(2) eff by (simp add: lc_inv_def flush(1))
next
  case (shutdown t ch g run pc)
  then show ?thesis using shutdown_step_inv assms(2) by blast
next
  case (runner ch g run)
  then show ?thesis using runner_step_inv assms(2) by blast
qed

lemma lc_reach_inv: "lc_reach hs s \<Longrightarrow> lc_inv hs s"
  by (induction rule: lc_reach.induct) (auto intro: lc_inv_init lc_step_inv)

section \<open>What never changes back\<close>

text \<open>Once the results are complete they are final, and a closed gate stays closed.\<close>

lemma lc_step_monotone:
  assumes "lc_step s s'" "lc_inv hs s"
  shows "lc_stopping (ls_group s) \<Longrightarrow> lc_stopping (ls_group s') \<and> gl_accepted (ls_group s') = gl_accepted (ls_group s)"
    and "lc_done (ls_group s) \<Longrightarrow> lc_done (ls_group s') \<and> lc_err (ls_group s') = lc_err (ls_group s) \<and>
      gl_results (ls_group s') = gl_results (ls_group s)"
proof -
  have run: "lc_done (ls_group s) \<longleftrightarrow> ls_runner s = RunGone"
    using assms(2) by (cases "ls_runner s") (auto simp: lc_inv_def)
  show "lc_stopping (ls_group s) \<Longrightarrow> lc_stopping (ls_group s') \<and> gl_accepted (ls_group s') = gl_accepted (ls_group s)"
    using assms(1)
    by (elim lc_stepE)
       (auto dest: lc_log_effect(4,12) lc_flush_effect(3) elim!: lc_shutdown_stepE runner_stepE
         split: once_state.splits lc_choice.splits if_splits)
  show "lc_done (ls_group s) \<Longrightarrow> lc_done (ls_group s') \<and> lc_err (ls_group s') = lc_err (ls_group s) \<and>
      gl_results (ls_group s') = gl_results (ls_group s)"
    using assms(1) run
    by (elim lc_stepE)
       (auto dest: lc_log_effect(6-8) lc_flush_effect(3) elim!: lc_shutdown_stepE runner_stepE
         split: once_state.splits lc_choice.splits if_splits)
qed

inductive lc_run :: "'f lc_sys \<Rightarrow> 'f lc_sys \<Rightarrow> bool" where
  nothing: "lc_run s s"
| step: "lc_run s u \<Longrightarrow> lc_step u v \<Longrightarrow> lc_run s v"

lemma lc_run_reach: "lc_run s s' \<Longrightarrow> lc_reach hs s \<Longrightarrow> lc_reach hs s'"
  by (induction rule: lc_run.induct) (auto intro: lc_reach.step)

lemma lc_run_monotone:
  assumes "lc_run s s'" "lc_reach hs s"
  shows "lc_stopping (ls_group s) \<Longrightarrow> lc_stopping (ls_group s') \<and> gl_accepted (ls_group s') = gl_accepted (ls_group s)"
    and "lc_done (ls_group s) \<Longrightarrow> lc_done (ls_group s') \<and> lc_err (ls_group s') = lc_err (ls_group s)"
  using assms
proof (induction rule: lc_run.induct)
  case (step s u v)
  note mono = lc_step_monotone [OF step(2) lc_reach_inv [OF lc_run_reach [OF step(1)]]]
  {
    case 1
    then show ?case using step.IH(1) mono(1) by metis
  next
    case 2
    then show ?case using step.IH(2) mono(2) by metis
  }
qed simp_all

section \<open>What the callers of Shutdown and Flush can rely on\<close>

text \<open>What a caller that has returned from \<open>Shutdown\<close> was told.\<close>

definition answers_ok :: "'f lc_sys \<Rightarrow> bool" where
  "answers_ok s \<longleftrightarrow> (\<forall>t res. ls_clients s t = ShutReturned res \<longrightarrow>
     res = Some ErrContext \<or> lc_done (ls_group s) \<and> res = lc_err (ls_group s))"

text \<open>How a step changes the goroutines: one of them moves, and it returns from \<open>Shutdown\<close> only as \<open>select\<close> lets it.\<close>

lemma lc_step_clients:
  assumes "lc_step s s'"
  shows "\<exists>t pc. (ls_clients s' = ls_clients s \<or> ls_clients s' = (ls_clients s)(t := pc)) \<and>
    (\<forall>res. pc = ShutReturned res \<longrightarrow> res = Some ErrContext \<or> lc_done (ls_group s) \<and> res = lc_err (ls_group s))"
  using assms
proof cases
  case (start t pc)
  then show ?thesis by auto
next
  case (log t g pc)
  have "pc \<noteq> ShutReturned res" for res using log(2) by (auto elim!: log_stepE split: if_splits)
  then show ?thesis using log(1) by auto
next
  case (flush ch t g pc)
  have "pc \<noteq> ShutReturned res" for res using flush(2) by (auto elim!: lc_flush_stepE split: if_splits lc_choice.splits)
  then show ?thesis using flush(1) by auto
next
  case (shutdown t ch g run pc)
  have "res = Some ErrContext \<or> lc_done (ls_group s) \<and> res = lc_err (ls_group s)" if "pc = ShutReturned res" for res
    using shutdown(2) that by (auto elim!: lc_shutdown_stepE split: if_splits lc_choice.splits once_state.splits)
  then show ?thesis using shutdown(1) by auto
next
  case (runner ch g run)
  then show ?thesis by (intro exI [of _ 0] exI [of _ LcIdle]) simp
qed

lemma answers_ok_step:
  assumes "lc_step s s'" "lc_inv hs s" "answers_ok s"
  shows "answers_ok s'"
  unfolding answers_ok_def
proof (intro allI impI)
  fix t res assume "ls_clients s' t = ShutReturned res"
  with lc_step_clients [OF assms(1)] assms(3)
  have "res = Some ErrContext \<or> lc_done (ls_group s) \<and> res = lc_err (ls_group s)"
    by (fastforce simp: answers_ok_def split: if_splits)
  with lc_step_monotone(2) [OF assms(1,2)]
  show "res = Some ErrContext \<or> lc_done (ls_group s') \<and> res = lc_err (ls_group s')" by auto
qed

lemma answers_ok_reach: "lc_reach hs s \<Longrightarrow> answers_ok s"
proof (induction rule: lc_reach.induct)
  case init
  then show ?case by (simp add: answers_ok_def newLifecycle_def)
next
  case (step s s')
  then show ?case using answers_ok_step lc_reach_inv by blast
qed

text \<open>
  C12. Whatever the interleaving, the shutdown is one shared operation: the handlers are shut down at most once each,
  in order, none before the gate is closed; \<open>done\<close> is never closed twice; and the rejected counter is the number of
  log calls that returned without their record, modulo its width.
\<close>

theorem shutdown_runs_once:
  assumes "lc_reach hs s"
  shows "(\<exists>k. k \<le> length hs \<and> gl_shut (ls_group s) = [0..<k]) \<and>
    (gl_shut (ls_group s) \<noteq> [] \<longrightarrow> lc_stopping (ls_group s)) \<and> \<not> gl_panicked (ls_group s) \<and>
    rejectedCount (Some (ls_group s)) = of_nat (gl_refused (ls_group s))"
proof -
  note inv = lc_reach_inv [OF assms, unfolded lc_inv_def]
  have "\<exists>k. k \<le> length hs \<and> gl_shut (ls_group s) = [0..<k]"
    using inv by (cases "ls_runner s") auto
  moreover have "ls_runner s = RunNone" if "\<not> lc_stopping (ls_group s)"
    using inv that by (cases "lc_once (ls_group s)") (auto simp: once_ok_def)
  then have "gl_shut (ls_group s) \<noteq> [] \<longrightarrow> lc_stopping (ls_group s)"
    using inv by (cases "lc_stopping (ls_group s)") auto
  ultimately show ?thesis using inv by (simp add: rejectedCount_def)
qed

lemma completed_result:
  assumes "lc_reach hs s" "ls_clients s t = ShutReturned res" "res \<noteq> Some ErrContext"
  shows "gl_shut (ls_group s) = [0..<length hs] \<and> length (gl_results (ls_group s)) = length hs \<and>
    res = first_error (gl_results (ls_group s))"
proof -
  have "lc_done (ls_group s)" "res = lc_err (ls_group s)"
    using answers_ok_reach [OF assms(1)] assms(2,3) by (auto simp: answers_ok_def)
  with lc_reach_inv [OF assms(1)] show ?thesis by (cases "ls_runner s") (auto simp: lc_inv_def)
qed

text \<open>
  C13. A caller of \<open>Shutdown\<close> either gives up with its own context's error, or it returns after every handler was
  shut down, with the result all such callers share: the first error a handler returned, in the package's terms.
\<close>

theorem shutdown_shared_result:
  assumes "lc_reach hs s" "ls_clients s t = ShutReturned res" "res \<noteq> Some ErrContext"
  shows "gl_shut (ls_group s) = [0..<length hs] \<and> length (gl_results (ls_group s)) = length hs \<and>
    res = first_error (gl_results (ls_group s))"
  by (rule completed_result [OF assms])

text \<open>
  A closed gate stays closed: once the shutdown has begun, no later log call is accepted, in any continuation.
\<close>

theorem gate_stays_closed:
  assumes "lc_reach hs s" "lc_stopping (ls_group s)" "lc_run s s'"
  shows "lc_stopping (ls_group s') \<and> gl_accepted (ls_group s') = gl_accepted (ls_group s)"
  by (rule lc_run_monotone(1) [OF assms(3,1,2)])

section \<open>Executing a schedule\<close>

text \<open>One event of a schedule, and the runs it yields: the executable form of the step relation.\<close>

datatype lc_event =
    EvStart nat lc_client
  | EvLog nat
  | EvFlush nat lc_choice
  | EvShutdown nat lc_choice
  | EvRunner lc_choice

fun lc_apply :: "lc_event \<Rightarrow> 'f lc_sys \<Rightarrow> 'f lc_sys option" where
  "lc_apply (EvStart t pc) s =
     (if lc_at_rest (ls_clients s t) \<and> (pc = LogGate \<or> pc = FlushGate \<or> pc = ShutOnce)
      then Some (s\<lparr>ls_clients := (ls_clients s)(t := pc)\<rparr>) else None)"
| "lc_apply (EvLog t) s =
     map_option (\<lambda>(g, pc). s\<lparr>ls_group := g, ls_clients := (ls_clients s)(t := pc)\<rparr>)
       (log_step (ls_group s) (ls_clients s t))"
| "lc_apply (EvFlush t ch) s =
     map_option (\<lambda>(g, pc). s\<lparr>ls_group := g, ls_clients := (ls_clients s)(t := pc)\<rparr>)
       (lc_flush_step ch (ls_group s) (ls_clients s t))"
| "lc_apply (EvShutdown t ch) s =
     map_option (\<lambda>(g, run, pc). s\<lparr>ls_group := g, ls_clients := (ls_clients s)(t := pc), ls_runner := run\<rparr>)
       (lc_shutdown_step t ch (ls_group s) (ls_runner s) (ls_clients s t))"
| "lc_apply (EvRunner ch) s =
     map_option (\<lambda>(g, run). s\<lparr>ls_group := g, ls_runner := run\<rparr>) (runner_step ch (ls_group s) (ls_runner s))"

fun lc_exec :: "lc_event list \<Rightarrow> 'f lc_sys \<Rightarrow> 'f lc_sys option" where
  "lc_exec [] s = Some s"
| "lc_exec (ev # evs) s = (case lc_apply ev s of None \<Rightarrow> None | Some s' \<Rightarrow> lc_exec evs s')"

lemma lc_apply_step: "lc_apply ev s = Some s' \<Longrightarrow> lc_step s s'"
  by (cases ev) (auto split: if_splits intro: lc_step.intros)

lemma lc_run_first: "lc_run u v \<Longrightarrow> lc_step s u \<Longrightarrow> lc_run s v"
  by (induction rule: lc_run.induct) (auto intro: lc_run.intros)

lemma lc_exec_run: "lc_exec evs s = Some s' \<Longrightarrow> lc_run s s'"
  by (induction evs arbitrary: s)
     (auto split: option.splits intro: lc_run.nothing lc_run_first dest: lc_apply_step)

lemma lc_exec_reach: "lc_exec evs (newLifecycle hs) = Some s \<Longrightarrow> lc_reach hs s"
  using lc_run_reach [OF lc_exec_run lc_reach.init] .

text \<open>
  Two goroutines shut down a pipeline with two handlers. Goroutine 1 starts the shutdown and gives up; goroutine 2
  waits to the end, and the first handler reports the buffered handler's own shutdown error.
\<close>

definition begun :: "lc_event list" where
  "begun = [EvStart 1 ShutOnce, EvShutdown 1 LcProceed, EvShutdown 1 LcProceed]"

definition drained :: "lc_event list" where
  "drained =
     [EvShutdown 1 LcProceed, EvShutdown 1 LcProceed, EvShutdown 1 LcCtxDone, EvStart 2 ShutOnce,
      EvRunner (LcHandlerReturns (Some ErrHandlerShutdown)), EvShutdown 2 LcProceed, EvRunner (LcHandlerReturns None),
      EvRunner LcProceed, EvRunner LcProceed, EvRunner LcProceed, EvShutdown 2 LcProceed,
      EvStart 1 LogGate, EvLog 1, EvLog 1]"

abbreviation after_begun :: "bool lc_sys" where
  "after_begun \<equiv> the (lc_exec begun (newLifecycle [False, True]))"

abbreviation after_drained :: "bool lc_sys" where
  "after_drained \<equiv> the (lc_exec drained after_begun)"

lemmas lc_run_defs = begun_def drained_def newLifecycle_def newLifecycleGroup_def keep_first_def
  translateLifecycleErr_def isStopping_def rejectRecord_def rejectedCount_def Let_def

lemma begun_ok: "lc_exec begun (newLifecycle [False, True]) = Some after_begun"
  by (simp add: lc_run_defs)

lemma drained_ok: "lc_exec drained after_begun = Some after_drained"
  by (simp add: lc_run_defs)

lemma begun_reach: "lc_reach [False, True] after_begun"
  by (rule lc_exec_reach [OF begun_ok])

lemma drained_reach: "lc_reach [False, True] after_drained"
  by (rule lc_run_reach [OF lc_exec_run [OF drained_ok] begun_reach])

theorem shutdown_runs_once_witness:
  "gl_shut (ls_group after_drained) = [0, 1] \<and> lc_stopping (ls_group after_drained) \<and>
   rejectedCount (Some (ls_group after_drained)) = 1"
proof -
  have "lc_stopping (ls_group after_drained)"
    using shutdown_runs_once [OF drained_reach] by (simp add: lc_run_defs)
  then show ?thesis by (simp add: lc_run_defs)
qed

theorem shutdown_shared_result_witness:
  "ls_clients after_drained 2 = ShutReturned (Some ErrLoggerShutdown) \<and>
   Some ErrLoggerShutdown = first_error (gl_results (ls_group after_drained))"
proof -
  have "ls_clients after_drained 2 = ShutReturned (Some ErrLoggerShutdown)" by (simp add: lc_run_defs)
  with shutdown_shared_result [OF drained_reach this] show ?thesis by simp
qed

theorem gate_stays_closed_witness:
  "lc_stopping (ls_group after_begun) \<and> gl_accepted (ls_group after_drained) = gl_accepted (ls_group after_begun)"
proof -
  have "lc_stopping (ls_group after_begun)" by (simp add: lc_run_defs)
  with gate_stays_closed [OF begun_reach this lc_exec_run [OF drained_ok]] show ?thesis by simp
qed

end
