(* ===== verification/Config.thy ===== *)
theory Config
  imports ConfigTypes Lifecycle
begin

text \<open>
  \<open>config.go\<close>: the configuration, its validation, and the assembly of the handler chain.

  What the caller supplies as functions or handlers (sinks, the metrics seam, the context handler) are values of the
  configuration. The Text and JSON handlers of \<open>log/slog\<close> and the console handler are terminal handlers here, made by
  the functions of \<open>terminals\<close>. Pointers that the assembly creates (the sampler's state, the buffer) are numbers
  into the chain's world.
\<close>

section \<open>Go values as arguments\<close>

text \<open>
  A Go value as \<open>log/slog\<close> tells arguments apart; any other value stands for what \<open>slog.AnyValue\<close> makes of it.
\<close>

datatype go_value = GoString bytes | GoAttr attr | GoOther slog_value

definition badKey :: bytes where
  "badKey = ''!BADKEY''"

fun AnyValue_of :: "go_value \<Rightarrow> slog_value" where
  "AnyValue_of (GoString s) = StringValue s"
| "AnyValue_of (GoAttr a) = AnyValue (Some (attr_string a))"
| "AnyValue_of (GoOther v) = v"

fun argsToAttrs :: "go_value list \<Rightarrow> attr list" where
  "argsToAttrs [] = []"
| "argsToAttrs [GoString s] = [String badKey s]"
| "argsToAttrs (GoString k # x # args) = Attr k (AnyValue_of x) # argsToAttrs args"
| "argsToAttrs (GoAttr a # args) = a # argsToAttrs args"
| "argsToAttrs (GoOther v # args) = Attr badKey v # argsToAttrs args"

type_synonym extractor = "ctx \<Rightarrow> go_value list"

section \<open>The configuration\<close>

record cfg_sampling =
  cs_Enabled :: bool
  cs_Interval :: duration
  cs_MinLevel :: level
  cs_MinLevelString :: bytes
  cs_Probability :: float64
  cs_KeyFunc :: "(slog_record \<Rightarrow> bytes) option"
  cs_MaxKeys :: int

datatype metrics_result = MetricsError bytes | MetricsNil | MetricsHandler

text \<open>\<open>GlobalFields\<close> is a Go map: distinct keys, in the order a range over it takes.\<close>

record 't config =
  cfg_BufferSize :: int
  cfg_FilterRules :: "filter_rule list"
  cfg_FilterMode :: mode
  cfg_Format :: format
  cfg_FormatString :: bytes
  cfg_GlobalFields :: "(bytes \<times> bytes) list"
  cfg_AddSource :: bool
  cfg_Sink :: "'t chain option"
  cfg_Handler :: "'t chain option"
  cfg_PipelineOverride :: "'t chain option"
  cfg_Hook :: "hook_func option"
  cfg_MetricsHandler :: "('t chain \<Rightarrow> 't chain option \<times> bytes option) option"
  cfg_Level :: level
  cfg_LevelString :: bytes
  cfg_RateLimitMaxKeys :: int
  cfg_Sampling :: cfg_sampling
  cfg_ContextFields :: "extractor option"
  cfg_Writer :: "nat option"
  cfg_ContextHandler :: "('t chain \<Rightarrow> 't chain option) option"
  cfg_LogInitialization :: bool

section \<open>Validate\<close>

datatype validate_error =
    BothHandlerAndSink
  | OverrideIgnores "bytes list"
  | BadValue config_error
  | FormatRange format
  | NegativeBufferSize int
  | SourceIgnored
  | SamplingInvalid "sampling_error list"

text \<open>\<open>if c { errs = append(errs, e) }\<close>, and the same for an error that a call may return.\<close>

definition append_if :: "bool \<Rightarrow> 'a \<Rightarrow> 'a list \<Rightarrow> 'a list" where
  "append_if c e errs = (if c then errs @ [e] else errs)"

definition append_err :: "config_error option \<Rightarrow> validate_error list \<Rightarrow> validate_error list" where
  "append_err err errs = (case err of Some e \<Rightarrow> errs @ [BadValue e] | None \<Rightarrow> errs)"

definition ignored_by_override :: "'t config \<Rightarrow> bytes list" where
  "ignored_by_override cfg =
     (let ignored = [];
          ignored = append_if (cfg_Handler cfg \<noteq> None) ''Handler'' ignored;
          ignored = append_if (cfg_Sink cfg \<noteq> None) ''Sink'' ignored;
          ignored = append_if (length (cfg_FilterRules cfg) > 0) ''FilterRules'' ignored;
          ignored = append_if (length (cfg_GlobalFields cfg) > 0) ''GlobalFields'' ignored;
          ignored = append_if (cs_Enabled (cfg_Sampling cfg)) ''Sampling'' ignored;
          ignored = append_if (cfg_BufferSize cfg > 0) ''BufferSize'' ignored;
          ignored = append_if (cfg_Hook cfg \<noteq> None) ''Hook'' ignored;
          ignored = append_if (cfg_MetricsHandler cfg \<noteq> None) ''MetricsHandler'' ignored;
          ignored = append_if (cfg_Writer cfg \<noteq> None) ''Writer'' ignored;
          ignored = append_if (cfg_Format cfg \<noteq> FormatText \<or> cfg_FormatString cfg \<noteq> []) ''Format'' ignored
      in append_if (cfg_Level cfg \<noteq> cfg_LevelInfo \<or> cfg_LevelString cfg \<noteq> []) ''Level'' ignored)"

text \<open>What \<open>Validate\<close> and \<open>decorate\<close> pass on to the sampler.\<close>

definition handler_sampling :: "'t config \<Rightarrow> int \<Rightarrow> sampling_config" where
  "handler_sampling cfg minLevel =
     \<lparr>sc_Interval = cs_Interval (cfg_Sampling cfg), sc_MinLevel = minLevel,
      sc_Probability = cs_Probability (cfg_Sampling cfg), sc_KeyFunc = cs_KeyFunc (cfg_Sampling cfg),
      sc_MaxKeys = cs_MaxKeys (cfg_Sampling cfg)\<rparr>"

text \<open>\<open>lower\<close> is \<open>strings.ToLower\<close> outside ASCII; the result is the list of errors that \<open>errors.Join\<close> joins.\<close>

definition Config_Validate :: "(bytes \<Rightarrow> bytes) \<Rightarrow> 't config \<Rightarrow> validate_error list" where
  "Config_Validate lower cfg =
     (let errs = [];
          errs = append_if (cfg_Handler cfg \<noteq> None \<and> cfg_Sink cfg \<noteq> None) BothHandlerAndSink errs;
          errs = (let ignored = ignored_by_override cfg
                  in append_if (cfg_PipelineOverride cfg \<noteq> None \<and> length ignored > 0) (OverrideIgnores ignored) errs);
          errs = append_err (snd (resolveLevel lower ''Level'' (cfg_Level cfg) (cfg_LevelString cfg))) errs;
          errs = append_err (snd (resolveFormat lower ''Format'' (cfg_Format cfg) (cfg_FormatString cfg))) errs;
          errs = append_if (cfg_Format cfg > FormatConsole) (FormatRange (cfg_Format cfg)) errs;
          errs = append_if (cfg_BufferSize cfg < 0) (NegativeBufferSize (cfg_BufferSize cfg)) errs;
          errs = append_if (map_of (cfg_GlobalFields cfg) ''source'' \<noteq> None \<and> cfg_AddSource cfg) SourceIgnored errs;
          errs = append_err (snd (resolveLevel lower ''Sampling.MinLevel'' (cs_MinLevel (cfg_Sampling cfg))
                   (cs_MinLevelString (cfg_Sampling cfg)))) errs
      in (let err = SamplingConfig_Validate (handler_sampling cfg 0)
          in append_if (cs_Enabled (cfg_Sampling cfg) \<and> err \<noteq> []) (SamplingInvalid err) errs))"

section \<open>Assembly\<close>

definition dedupOptions :: "'t config \<Rightarrow> attr list" where
  "dedupOptions cfg =
     (let ks = fold (\<lambda>(k, v) ks. if cfg_AddSource cfg \<and> k = ''source'' then ks else ks @ [k]) (cfg_GlobalFields cfg) [];
          ks = sort ks
      in fold (\<lambda>k pinned. pinned @ [String k (the (map_of (cfg_GlobalFields cfg) k))]) ks [])"

definition durationAsString :: "bytes list \<Rightarrow> attr \<Rightarrow> attr" where
  "durationAsString groups a = (case Val a of DurationValue t \<Rightarrow> Attr (Key a) (StringValue t) | _ \<Rightarrow> a)"

record 't terminals =
  te_JSON :: "nat \<Rightarrow> (bytes list \<Rightarrow> attr \<Rightarrow> attr) \<Rightarrow> 't"
  te_Console :: "nat \<Rightarrow> 't"
  te_Text :: "nat \<Rightarrow> 't"

text \<open>The terminal handlers take the level from the shared \<open>LevelVar\<close>, which the world holds.\<close>

definition newTerminalHandler :: "'t terminals \<Rightarrow> nat \<Rightarrow> format \<Rightarrow> 't chain" where
  "newTerminalHandler te w f =
     (if f = FormatJSON then Sink (te_JSON te w durationAsString)
      else if f = FormatConsole then Sink (te_Console te w)
      else Sink (te_Text te w))"

datatype metrics_error = MetricsFailed bytes | MetricsReturnedNil

definition sampling_config_of :: "(bytes \<Rightarrow> bytes) \<Rightarrow> 't config \<Rightarrow> sampling_config" where
  "sampling_config_of lower cfg =
     (let minLevel = fst (resolveLevel lower ''Sampling.MinLevel'' (cs_MinLevel (cfg_Sampling cfg))
                            (cs_MinLevelString (cfg_Sampling cfg)))
      in handler_sampling cfg (slogLevel minLevel))"

text \<open>The chain above \<open>base\<close>, one stage after the other; \<open>k\<close> and \<open>b\<close> are the numbers of the sampler and the buffer.\<close>

definition decorate_inner :: "(bytes \<Rightarrow> bytes) \<Rightarrow> nat \<Rightarrow> 't chain \<Rightarrow> 't config \<Rightarrow> 't chain" where
  "decorate_inner lower k base cfg =
     (let h = of_dedup (NewDedupHandler base (dedupOptions cfg) []);
          h = (if length (cfg_FilterRules cfg) > 0
               then of_filter (NewFilterHandlerWithMode h (cfg_FilterRules cfg) (cfg_FilterMode cfg)) else h);
          h = (if cfg_AddSource cfg then Source (so_next (NewSourceHandler h)) else h)
      in if cs_Enabled (cfg_Sampling cfg)
         then of_sampling k (fst (NewSamplingHandler h (sampling_config_of lower cfg))) else h)"

definition with_metrics :: "'t chain \<Rightarrow> 't config \<Rightarrow> 't chain \<times> metrics_error option" where
  "with_metrics h cfg =
     (case cfg_MetricsHandler cfg of
        None \<Rightarrow> (h, None)
      | Some f \<Rightarrow>
          (case f h of
             (_, Some err) \<Rightarrow> (h, Some (MetricsFailed err))
           | (None, None) \<Rightarrow> (h, Some MetricsReturnedNil)
           | (Some wrapped, None) \<Rightarrow> (wrapped, None)))"

definition decorate ::
  "(bytes \<Rightarrow> bytes) \<Rightarrow> nat \<Rightarrow> nat \<Rightarrow> 't chain \<Rightarrow> 't config \<Rightarrow> 't chain \<times> 't chain list \<times> metrics_error option" where
  "decorate lower k b base cfg =
     (let (h, metricsErr) = with_metrics (decorate_inner lower k base cfg) cfg;
          (h, lifecycleHandlers) =
            (if cfg_BufferSize cfg > 0 then (Buffered b h, [Buffered b h]) else (h, []));
          h = (case cfg_Hook cfg of Some f \<Rightarrow> Hook f h | None \<Rightarrow> h)
      in (h, lifecycleHandlers, metricsErr))"

section \<open>The chain New builds\<close>

text \<open>What lifecycle discovery sees of a chain; a terminal handler may have a lifecycle of its own.\<close>

fun chain_flusher :: "('t \<Rightarrow> bool) \<Rightarrow> 't chain \<Rightarrow> bool" where
  "chain_flusher fl (Sink t) = fl t"
| "chain_flusher fl (Buffered b n) = True"
| "chain_flusher fl _ = False"

fun chain_unwrap :: "'t chain \<Rightarrow> 't chain unwrapped" where
  "chain_unwrap (Sink t) = Opaque"
| "chain_unwrap (LevelGate n) = UnwrapOne (Some n)"
| "chain_unwrap (Dedup p res ops n) = UnwrapOne (Some n)"
| "chain_unwrap (Filter rules m ops n) = UnwrapOne (Some n)"
| "chain_unwrap (GlobalFields fs ov ops n) = UnwrapOne (Some n)"
| "chain_unwrap (Source n) = UnwrapOne (Some n)"
| "chain_unwrap (Component n) = UnwrapOne (Some n)"
| "chain_unwrap (Sampling k i l p kf n) = UnwrapOne (Some n)"
| "chain_unwrap (Counting c n) = UnwrapOne (Some n)"
| "chain_unwrap (Buffered b n) = UnwrapOne (Some n)"
| "chain_unwrap (Hook f n) = UnwrapOne (Some n)"
| "chain_unwrap (Otel tk sk tf g os n) = UnwrapOne (Some n)"
| "chain_unwrap (Multi cs) = UnwrapMany (map Some cs)"

definition os_Stdout :: nat where
  "os_Stdout = 0"

definition base_handler ::
  "'t terminals \<Rightarrow> ('t \<Rightarrow> bool) \<Rightarrow> format \<Rightarrow> 't config \<Rightarrow> 't chain \<times> 't chain list" where
  "base_handler te fl f cfg =
     (let sink = (if cfg_Sink cfg = None then cfg_Handler cfg else cfg_Sink cfg)
      in case sink of
           Some s \<Rightarrow> (LevelGate s, collectFlushers (chain_flusher fl) chain_unwrap (Some s))
         | None \<Rightarrow>
             (let w = (case cfg_Writer cfg of None \<Rightarrow> os_Stdout | Some w \<Rightarrow> w)
              in (newTerminalHandler te w f, [])))"

definition with_context_handler :: "'t config \<Rightarrow> 't chain \<Rightarrow> 't chain" where
  "with_context_handler cfg h =
     (case cfg_ContextHandler cfg of
        None \<Rightarrow> h
      | Some f \<Rightarrow> (case f h of Some wrapped \<Rightarrow> wrapped | None \<Rightarrow> h))"

definition new_chain ::
  "(bytes \<Rightarrow> bytes) \<Rightarrow> 't terminals \<Rightarrow> ('t \<Rightarrow> bool) \<Rightarrow> nat \<Rightarrow> nat \<Rightarrow> 't config \<Rightarrow>
   't chain \<times> 't chain list \<times> metrics_error option" where
  "new_chain lower te fl k b cfg =
     (let format = fst (resolveFormat lower ''Format'' (cfg_Format cfg) (cfg_FormatString cfg));
          (h, lifecycleHandlers, metricsErr) =
            (case cfg_PipelineOverride cfg of
               Some h \<Rightarrow> (h, collectFlushers (chain_flusher fl) chain_unwrap (Some h), None)
             | None \<Rightarrow>
                 (let (base, found) = base_handler te fl format cfg;
                      (h, extra, metricsErr) = decorate lower k b base cfg
                  in (h, found @ extra, metricsErr)))
      in (with_context_handler cfg h, lifecycleHandlers, metricsErr))"

section \<open>The pinned fields\<close>

lemma dedupOptions_eq:
  "dedupOptions cfg =
     map (\<lambda>k. String k (the (map_of (cfg_GlobalFields cfg) k)))
       (sort (filter (\<lambda>k. \<not> (cfg_AddSource cfg \<and> k = ''source'')) (keys (cfg_GlobalFields cfg))))"
proof -
  have ks: "fold (\<lambda>(k, v) ks. if cfg_AddSource cfg \<and> k = ''source'' then ks else ks @ [k]) m ks =
      ks @ filter (\<lambda>k. \<not> (cfg_AddSource cfg \<and> k = ''source'')) (keys m)" for m ks
    by (induction m arbitrary: ks) auto
  have pin: "fold (\<lambda>k pinned. pinned @ [f k]) ks ps = ps @ map f ks" for ks f and ps :: "attr list"
    by (induction ks arbitrary: ps) auto
  show ?thesis by (simp add: dedupOptions_def ks pin)
qed

lemma Key_String [simp]: "Key (String k v) = k"
  by (simp add: String_def)

lemma keys_dedupOptions:
  "map Key (dedupOptions cfg) =
     sort (filter (\<lambda>k. \<not> (cfg_AddSource cfg \<and> k = ''source'')) (keys (cfg_GlobalFields cfg)))"
  by (simp add: dedupOptions_eq comp_def)

text \<open>
  The pinned fields are exactly the configured global fields, except \<open>source\<close> while the call-site group owns that
  key, once each and in sorted order, so they do not depend on the order in which the Go map is ranged over.
\<close>

theorem pinned_fields_exact:
  assumes "wf_map (cfg_GlobalFields cfg)"
  shows "sorted (map Key (dedupOptions cfg)) \<and> distinct (map Key (dedupOptions cfg)) \<and>
    set (dedupOptions cfg) = {String k v | k v. map_of (cfg_GlobalFields cfg) k = Some v \<and>
      \<not> (cfg_AddSource cfg \<and> k = ''source'')}"
proof (intro conjI)
  show "sorted (map Key (dedupOptions cfg))" by (simp add: keys_dedupOptions)
  show "distinct (map Key (dedupOptions cfg))" using assms by (simp add: keys_dedupOptions wf_map_def)
  let ?m = "map_of (cfg_GlobalFields cfg)"
  let ?ok = "\<lambda>k. \<not> (cfg_AddSource cfg \<and> k = ''source'')"
  have "set (dedupOptions cfg) = (\<lambda>k. String k (the (?m k))) ` {k \<in> dom ?m. ?ok k}"
    by (simp add: dedupOptions_eq dom_map_of_conv_image_fst)
  also have "\<dots> = {String k v | k v. ?m k = Some v \<and> ?ok k}" by force
  finally show "set (dedupOptions cfg) = {String k v | k v. ?m k = Some v \<and> ?ok k}" .
qed

section \<open>What the assembly guarantees of every record\<close>

text \<open>The keys the built-in handlers write themselves.\<close>

definition builtin_keys :: "bytes list" where
  "builtin_keys = [''time'', ''level'', ''msg'']"

definition sink_of :: "'t config \<Rightarrow> 't chain option" where
  "sink_of cfg = (if cfg_Sink cfg = None then cfg_Handler cfg else cfg_Sink cfg)"

text \<open>
  A seam is a function of the caller that may wrap the handler it is given; \<open>seams_keep P cfg\<close> says that the
  two seams of \<open>cfg\<close> keep the property \<open>P\<close> of chains, as a handler does that only forwards.
\<close>

definition seams_keep :: "('t chain \<Rightarrow> bool) \<Rightarrow> 't config \<Rightarrow> bool" where
  "seams_keep P cfg \<longleftrightarrow>
     (\<forall>f. cfg_MetricsHandler cfg = Some f \<longrightarrow> (\<forall>h n. P h \<and> fst (f h) = Some n \<longrightarrow> P n)) \<and>
     (\<forall>f. cfg_ContextHandler cfg = Some f \<longrightarrow> (\<forall>h n. P h \<and> f h = Some n \<longrightarrow> P n))"

text \<open>Seams that leave the dedup stage they are given between the logger and every sink.\<close>

definition seams_keep_dedup :: "'t config \<Rightarrow> bool" where
  "seams_keep_dedup cfg \<longleftrightarrow> (\<forall>Q. seams_keep (guarded Q) cfg)"

lemma no_seams: "cfg_MetricsHandler cfg = None \<Longrightarrow> cfg_ContextHandler cfg = None \<Longrightarrow> seams_keep_dedup cfg"
  by (simp add: seams_keep_dedup_def seams_keep_def)

lemma with_metrics_keeps: "seams_keep P cfg \<Longrightarrow> P h \<Longrightarrow> P (fst (with_metrics h cfg))"
  by (fastforce simp: with_metrics_def seams_keep_def split: option.splits prod.splits)

lemma with_context_handler_keeps: "seams_keep P cfg \<Longrightarrow> P h \<Longrightarrow> P (with_context_handler cfg h)"
  by (auto simp: with_context_handler_def seams_keep_def split: option.splits)

lemma constructor_next [simp]:
  "fh_next (NewFilterHandlerWithMode h rules m) = h" "sh_next (fst (newSamplingHandler h sc)) = h"
  by (simp_all add: NewFilterHandlerWithMode_def newSamplingHandler_def Let_def)

text \<open>A property that the dedup stage has and every stage above it keeps holds of the whole chain.\<close>

lemma new_chain_keeps:
  assumes "cfg_PipelineOverride cfg = None" "seams_keep P cfg"
    and base: "\<And>base. base = fst (base_handler te fl (fst (resolveFormat lower ''Format'' (cfg_Format cfg)
      (cfg_FormatString cfg))) cfg) \<Longrightarrow> P (of_dedup (NewDedupHandler base (dedupOptions cfg) []))"
    and "\<And>rules m ops n. P n \<Longrightarrow> P (Filter rules m ops n)" "\<And>n. P n \<Longrightarrow> P (Source n)"
      "\<And>k i l p kf n. P n \<Longrightarrow> P (Sampling k i l p kf n)" "\<And>b n. P n \<Longrightarrow> P (Buffered b n)" "\<And>f n. P n \<Longrightarrow> P (Hook f n)"
  shows "P (fst (new_chain lower te fl k b cfg))"
proof -
  define b0 where "b0 = base_handler te fl (fst (resolveFormat lower ''Format'' (cfg_Format cfg) (cfg_FormatString cfg))) cfg"
  obtain base found where b: "b0 = (base, found)" by fastforce
  have "P (decorate_inner lower k base cfg)"
    using base [of base] assms(4-6) b b0_def
    by (simp add: decorate_inner_def Let_def of_filter_def of_sampling_def NewSourceHandler_def)
  then have inner: "P (fst (with_metrics (decorate_inner lower k base cfg) cfg))"
    using with_metrics_keeps assms(2) by blast
  then have "P (fst (decorate lower k b base cfg))"
    using assms(7,8) by (auto simp: decorate_def Let_def split: prod.splits option.splits)
  then show ?thesis
    using with_context_handler_keeps [OF assms(2)] assms(1) b
    by (auto simp: new_chain_def Let_def b0_def [symmetric] split: prod.splits)
qed

lemma base_handler_cases:
  "fst (base_handler te fl f cfg) =
     (case sink_of cfg of Some s \<Rightarrow> LevelGate s
      | None \<Rightarrow> newTerminalHandler te (case cfg_Writer cfg of None \<Rightarrow> os_Stdout | Some w \<Rightarrow> w) f)"
  by (simp add: base_handler_def sink_of_def Let_def split: option.splits)

lemma new_chain_guarded:
  assumes "cfg_PipelineOverride cfg = None" "seams_keep (guarded Q) cfg" "case sink_of cfg of Some s \<Rightarrow> quiet s | None \<Rightarrow> True"
    and "Q (filterValidAttrs (dedupOptions cfg)) builtin_keys"
  shows "guarded Q (fst (new_chain lower te fl k b cfg))"
proof (rule new_chain_keeps [OF assms(1,2)])
  fix base
  assume base: "base = fst (base_handler te fl (fst (resolveFormat lower ''Format'' (cfg_Format cfg) (cfg_FormatString cfg))) cfg)"
  have "quiet base"
    using assms(3) unfolding base base_handler_cases
    by (auto simp: newTerminalHandler_def split: option.splits)
  then show "guarded Q (of_dedup (NewDedupHandler base (dedupOptions cfg) []))"
    using assms(4) by (simp add: of_dedup_def NewDedupHandler_def builtin_keys_def)
qed simp_all

lemma unique_at_every_sink:
  assumes "cfg_PipelineOverride cfg = None" "case sink_of cfg of Some s \<Rightarrow> quiet s | None \<Rightarrow> True"
    "seams_keep (guarded (reserves builtin_keys)) cfg"
    "chain_reach E (fst (new_chain lower te fl k b cfg)) w"
  shows "\<forall>(t, r) \<in> set (cw_delivered w). deduped builtin_keys (r_attrs r)"
  by (rule unique_keys.at_every_sink [OF assms(4)])
     (rule new_chain_guarded [OF assms(1,3,2)], simp add: reserves_def)

text \<open>
  Whatever the configuration of the pipeline, its filters, sampler, buffer, hook and seams, and whatever loggers
  derive from it and log: no record reaches the sink with the same key twice in one group at any depth (apart from a
  key \<open>attr.<reserved>\<close> at the top level).
\<close>

theorem pipeline_unique_keys:
  assumes "cfg_PipelineOverride cfg = None" "case sink_of cfg of Some s \<Rightarrow> quiet s | None \<Rightarrow> True"
    "seams_keep (guarded (reserves builtin_keys)) cfg"
    "chain_reach E (fst (new_chain lower te fl k b cfg)) w"
  shows "\<forall>(t, r) \<in> set (cw_delivered w). deduped builtin_keys (r_attrs r)"
  by (rule unique_at_every_sink [OF assms])

lemma globals_at_every_sink:
  assumes "cfg_PipelineOverride cfg = None" "case sink_of cfg of Some s \<Rightarrow> quiet s | None \<Rightarrow> True"
    "wf_map (cfg_GlobalFields cfg)"
    "seams_keep (guarded (pins_first (filterValidAttrs (dedupOptions cfg)) builtin_keys)) cfg"
    "chain_reach E (fst (new_chain lower te fl k b cfg)) w"
  shows "\<forall>(t, r) \<in> set (cw_delivered w).
    take (length (filterValidAttrs (dedupOptions cfg))) (r_attrs r) =
      map (rename_attr builtin_keys) (filterValidAttrs (dedupOptions cfg))"
proof (rule pinned_keys.at_every_sink [OF assms(5)], rule new_chain_guarded [OF assms(1,4,2)])
  have "distinct (map Key (dedupOptions cfg))" using assms(3) by (simp add: keys_dedupOptions wf_map_def)
  then have "distinct (map Key (filterValidAttrs (dedupOptions cfg)))" by (simp add: distinct_map_filter)
  moreover have "list_all flat_attr (filterValidAttrs (dedupOptions cfg))"
    by (auto simp: list_all_iff dedupOptions_eq flat_attr_def String_def zero_attr_def)
  ultimately show "pins_first (filterValidAttrs (dedupOptions cfg)) builtin_keys (filterValidAttrs (dedupOptions cfg)) builtin_keys"
    by (simp add: pins_first_def)
qed

text \<open>
  The global fields come first on every line, in sorted order and with the configured values; neither \<open>With\<close>, nor
  an open group, nor the call site, nor any stage of the pipeline can change that.
\<close>

theorem pipeline_globals_first:
  assumes "cfg_PipelineOverride cfg = None" "case sink_of cfg of Some s \<Rightarrow> quiet s | None \<Rightarrow> True"
    "wf_map (cfg_GlobalFields cfg)"
    "seams_keep (guarded (pins_first (filterValidAttrs (dedupOptions cfg)) builtin_keys)) cfg"
    "chain_reach E (fst (new_chain lower te fl k b cfg)) w"
  shows "\<forall>(t, r) \<in> set (cw_delivered w).
    take (length (filterValidAttrs (dedupOptions cfg))) (r_attrs r) =
      map (rename_attr builtin_keys) (filterValidAttrs (dedupOptions cfg))"
  by (rule globals_at_every_sink [OF assms])

text \<open>
  C16. A sink a caller supplies gets dynamic level control, provided it holds no \<open>BufferedHandler\<close> of its own (\<open>direct\<close>),
  there is no \<open>PipelineOverride\<close>, and the \<open>MetricsHandler\<close> and \<open>ContextHandler\<close>, if any, leave the gate in front of every
  sink (\<open>seams_keep level_gated\<close>): in every step of every run nothing below the level then current is delivered to it,
  through whatever stages, the pipeline's own buffer included, the record came. A buffer inside the sink would deliver
  later what passed the gate at an earlier level.
\<close>

theorem pipeline_level_gate:
  assumes "cfg_PipelineOverride cfg = None" "sink_of cfg = Some s" "direct s" "seams_keep level_gated cfg"
    "chain_reach E (fst (new_chain lower te fl k b cfg)) w" "chain_step E (fst (new_chain lower te fl k b cfg)) w w'"
  shows "\<exists>ds. cw_delivered w' = cw_delivered w @ ds \<and> (\<forall>(t, r) \<in> set ds. cw_level w \<le> r_level r)"
proof (rule gated_deliveries [OF assms(5,6)], rule new_chain_keeps [OF assms(1,4)])
  fix base
  assume "base = fst (base_handler te fl (fst (resolveFormat lower ''Format'' (cfg_Format cfg) (cfg_FormatString cfg))) cfg)"
  then show "level_gated (of_dedup (NewDedupHandler base (dedupOptions cfg) []))"
    using assms(2,3) by (simp add: base_handler_cases of_dedup_def NewDedupHandler_def)
qed simp_all

section \<open>A configuration at work\<close>

text \<open>A configuration with a sink, global fields and a metrics seam, and one call on it.\<close>

definition example_config :: "unit config" where
  "example_config =
     \<lparr>cfg_BufferSize = 0, cfg_FilterRules = [], cfg_FilterMode = ModeDrop, cfg_Format = FormatText, cfg_FormatString = [],
      cfg_GlobalFields = [(''service'', ''api''), (''env'', ''prod'')], cfg_AddSource = False, cfg_Sink = Some (Sink ()),
      cfg_Handler = None, cfg_PipelineOverride = None, cfg_Hook = None,
      cfg_MetricsHandler = Some (\<lambda>h. (Some (Counting 0 h), None)), cfg_Level = cfg_LevelInfo, cfg_LevelString = [],
      cfg_RateLimitMaxKeys = 0,
      cfg_Sampling = \<lparr>cs_Enabled = False, cs_Interval = 0, cs_MinLevel = cfg_LevelInfo, cs_MinLevelString = [],
        cs_Probability = Finite 1, cs_KeyFunc = None, cs_MaxKeys = 0\<rparr>,
      cfg_ContextFields = None, cfg_Writer = None, cfg_ContextHandler = None, cfg_LogInitialization = False\<rparr>"

definition example_env :: "unit chain_env" where
  "example_env =
     \<lparr>ce_sink_attrs = (\<lambda>t as. t), ce_sink_group = (\<lambda>t g. t), ce_sink_enabled = (\<lambda>lvl t l. True),
      ce_sink_handle = (\<lambda>t r. None), ce_fold = (=), ce_frames = (\<lambda>pc. \<lparr>fm_Function = [], fm_File = [], fm_Line = 0\<rparr>),
      ce_span = (\<lambda>ctx. \<lparr>sp_valid = False, sp_sampled = False, sp_traceID = [], sp_spanID = [], sp_flags = []\<rparr>)\<rparr>"

definition example_world :: "unit chain_world" where
  "example_world =
     \<lparr>cw_level = 0, cw_sampling = (\<lambda>k. \<lparr>ss_last = [], ss_maxKeys = 1, ss_suppressed = 0, ss_evicted = 0\<rparr>),
      cw_counters = (\<lambda>c l. 0), cw_cores = (\<lambda>b. NewBufferedCore 1), cw_delivered = []\<rparr>"

definition example_terminals :: "unit terminals" where
  "example_terminals = \<lparr>te_JSON = (\<lambda>w f. ()), te_Console = (\<lambda>w. ()), te_Text = (\<lambda>w. ())\<rparr>"

definition example_record :: slog_record where
  "example_record =
     fresh_record (NewRecord 0 0 ''hello'' 7) [String ''env'' ''x'', String ''user'' ''u'', String ''user'' ''v'']"

abbreviation example_chain :: "unit chain" where
  "example_chain \<equiv> fst (new_chain id example_terminals (\<lambda>t. False) 0 0 example_config)"

definition example_line :: slog_record where
  "example_line =
     fresh_record (NewRecord 0 0 ''hello'' 7) [String ''env'' ''prod'', String ''service'' ''api'', String ''user'' ''v'']"

definition example_after :: "unit chain_world" where
  "example_after = example_world
     \<lparr>cw_counters := (\<lambda>c l. if c = 0 \<and> l = ''INFO'' then 1 else 0), cw_delivered := [((), example_line)]\<rparr>"

lemma example_chain_eq:
  "example_chain = Counting 0 (Dedup [String ''env'' ''prod'', String ''service'' ''api''] builtin_keys [] (LevelGate (Sink ())))"
  by (simp add: new_chain_def example_config_def base_handler_def decorate_def decorate_inner_def with_metrics_def
      with_context_handler_def dedupOptions_eq of_dedup_def NewDedupHandler_def builtin_keys_def Let_def)

lemma example_fresh: "chain_reach example_env example_chain example_world"
  by (rule chain_reach.init) (simp add: fresh_world_def example_world_def NewBufferedCore_def Let_def)

lemma example_dedup:
  "DedupHandler_Handle (dedup_view [String ''env'' ''prod'', String ''service'' ''api''] builtin_keys []
     (LevelGate (Sink ()))) example_record = example_line"
  by code_simp

lemma example_call:
  "chain_Handle example_env (\<lambda>k. undefined) 0 (chain_derive example_env example_chain []) example_record example_world =
     Some (example_after, None)"
proof -
  have "r_level example_record = 0" "r_level example_line = 0" "level_string 0 = ''INFO''"
    by (simp_all add: example_record_def example_line_def NewRecord_def level_string_def level_offset_def level_defs)
  moreover have "(\<lambda>c l. 0)(0 := (\<lambda>l. 0)(''INFO'' := Suc 0)) = (\<lambda>c l. if c = 0 \<and> l = ''INFO'' then 1 else 0 :: nat)"
    for c :: nat by (intro ext) simp
  ultimately show ?thesis
    by (simp add: example_chain_eq prom_Handle_def levelHandler_Handle_def example_dedup example_world_def
        example_env_def example_after_def Let_def)
qed

lemma example_reach: "chain_reach example_env example_chain example_after"
  by (rule chain_reach.step [OF example_fresh chain_step.call [OF example_call]])

lemma example_seams:
  "seams_keep (guarded Q) example_config" "seams_keep level_gated example_config"
  by (auto simp: seams_keep_def example_config_def)

lemma example_plain:
  "cfg_PipelineOverride example_config = None" "sink_of example_config = Some (Sink ())"
  "case sink_of example_config of Some s \<Rightarrow> quiet s | None \<Rightarrow> True" "wf_map (cfg_GlobalFields example_config)"
  by (simp_all add: example_config_def sink_of_def wf_map_def)

theorem pinned_fields_exact_witness:
  "String ''env'' ''prod'' \<in> set (dedupOptions example_config) \<and> sorted (map Key (dedupOptions example_config))"
proof -
  note exact = pinned_fields_exact [OF example_plain(4)]
  have "map_of (cfg_GlobalFields example_config) ''env'' = Some ''prod'' \<and> \<not> cfg_AddSource example_config"
    by (simp add: example_config_def)
  then have "String ''env'' ''prod'' \<in> set (dedupOptions example_config)"
    unfolding exact [THEN conjunct2, THEN conjunct2] by blast
  with exact show ?thesis by simp
qed

theorem pipeline_unique_keys_witness:
  "cw_delivered example_after = [((), example_line)] \<and> deduped builtin_keys (r_attrs example_line)"
  using pipeline_unique_keys [OF example_plain(1,3) example_seams(1) example_reach]
  by (simp add: example_after_def)

theorem pipeline_globals_first_witness:
  "take 2 (r_attrs example_line) = [String ''env'' ''prod'', String ''service'' ''api'']"
proof -
  have "filterValidAttrs (dedupOptions example_config) = [String ''env'' ''prod'', String ''service'' ''api'']"
    by (simp add: dedupOptions_eq example_config_def)
  with pipeline_globals_first [OF example_plain(1,3,4) example_seams(1) example_reach] show ?thesis
    by (simp add: example_after_def rename_attr_def rename_def builtin_keys_def String_def numeral_2_eq_2)
qed

theorem pipeline_level_gate_witness:
  "\<exists>ds. cw_delivered example_after = cw_delivered example_world @ ds \<and>
    (\<forall>(t, r) \<in> set ds. cw_level example_world \<le> r_level r)"
  by (rule pipeline_level_gate [OF example_plain(1,2) _ example_seams(2) example_fresh chain_step.call [OF example_call]])
    simp

end
