(* ===== verification/RateState.thy ===== *)
theory RateState
  imports KeyEviction
begin

text \<open>
  \<open>rate.go\<close>: the per-key rate limit behind \<open>WithRateLimit\<close>, with its bounded map of keys, and the
  separation of log options from a call's arguments.

  The token bucket is \<open>golang.org/x/time/rate\<close>, which is not part of the repository: \<open>newL d\<close> stands
  for \<open>rate.NewLimiter(rate.Every(d), 1)\<close> and \<open>allowN\<close> for its \<open>AllowN(now, 1)\<close>, with the limiter's
  next state. The locale \<open>token_bucket\<close> states what the package documents of such a limiter; the
  theorems that need it name it as a hypothesis, and \<open>exact_bucket\<close> is an instance.

  Decisions are taken under one mutex, so each is one step; the clock and the order of the map
  ranges are inputs. \<open>warn\<close> appends to a list of warnings.
\<close>

section \<open>Options\<close>

record rate_limit_opt =
  rl_Key :: bytes
  rl_Interval :: duration

record counter_opt =
  co_MetricName :: bytes

definition WithRateLimit :: "bytes \<Rightarrow> duration \<Rightarrow> rate_limit_opt" where
  "WithRateLimit key interval = \<lparr>rl_Key = key, rl_Interval = interval\<rparr>"

definition WithCounter :: "bytes \<Rightarrow> counter_opt" where
  "WithCounter metricName = \<lparr>co_MetricName = metricName\<rparr>"

text \<open>The dynamic types of an argument that the type switch tells apart.\<close>

datatype 'a log_arg = ArgRateLimit rate_limit_opt | ArgCounter counter_opt | ArgOther 'a

fun extract_loop ::
  "'a log_arg list \<Rightarrow> 'a list \<Rightarrow> rate_limit_opt option \<Rightarrow> counter_opt option \<Rightarrow>
   'a list \<times> rate_limit_opt option \<times> counter_opt option" where
  "extract_loop [] filtered rateLimit counter = (filtered, rateLimit, counter)"
| "extract_loop (ArgRateLimit a # args) filtered rateLimit counter =
     extract_loop args filtered (Some a) counter"
| "extract_loop (ArgCounter a # args) filtered rateLimit counter =
     extract_loop args filtered rateLimit (Some a)"
| "extract_loop (ArgOther a # args) filtered rateLimit counter =
     extract_loop args (filtered @ [a]) rateLimit counter"

definition extractLogOptions ::
  "'a log_arg list \<Rightarrow> 'a list \<times> rate_limit_opt option \<times> counter_opt option" where
  "extractLogOptions args = extract_loop args [] None None"

section \<open>State\<close>

definition DefaultRateLimitMaxKeys :: int where
  "DefaultRateLimitMaxKeys = 4096"

record 'l rate_entry =
  re_limiter :: "'l option"
  re_interval :: duration
  re_suppressed :: i64
  re_lastSeen :: time
  re_conflictWarned :: bool

datatype rate_warning =
    KeyConflict bytes duration duration
  | IntervalInvalid bytes duration

record 'l rate_state =
  rs_limiters :: "(bytes \<times> 'l rate_entry) list"
  rs_maxKeys :: int
  rs_evicted :: u64
  rs_invalidConfigs :: u64
  rs_conflicts :: u64
  rs_warnings :: "rate_warning list"

definition newRateState :: "int \<Rightarrow> 'l rate_state" where
  "newRateState maxKeys =
     (let maxKeys = (if maxKeys \<le> 0 then DefaultRateLimitMaxKeys else maxKeys)
      in \<lparr>rs_limiters = [], rs_maxKeys = maxKeys, rs_evicted = 0, rs_invalidConfigs = 0,
          rs_conflicts = 0, rs_warnings = []\<rparr>)"

section \<open>Eviction\<close>

definition rate_dead :: "time \<Rightarrow> 'l rate_entry \<Rightarrow> bool" where
  "rate_dead now e =
     (let elapsed = time_Sub now (re_lastSeen e);
          elapsed = (if elapsed < 0 then 0 else elapsed)
      in elapsed \<ge> re_interval e \<and> re_suppressed e = 0)"

definition rate_target :: "int \<Rightarrow> int" where
  "rate_target maxKeys =
     (let target = maxKeys - maxKeys div 4;
          target = (if target > maxKeys - 1 then maxKeys - 1 else target)
      in if target < 0 then 0 else target)"

definition rate_evictLocked ::
  "(bytes list \<Rightarrow> bytes list) \<Rightarrow> time \<Rightarrow> 'l rate_state \<Rightarrow> 'l rate_state option" where
  "rate_evictLocked perm now s =
     (if int (length (rs_limiters s)) < rs_maxKeys s then Some s
      else (let before = length (rs_limiters s);
                m = drop_dead (rate_dead now) (rs_limiters s)
            in if int (length m) < rs_maxKeys s
               then Some (s\<lparr>rs_limiters := m, rs_evicted := rs_evicted s + of_nat (before - length m)\<rparr>)
               else (let target = rate_target (rs_maxKeys s)
                     in if target = 0
                        then Some (s\<lparr>rs_limiters := [], rs_evicted := rs_evicted s + of_nat before\<rparr>)
                        else (case drop_oldest perm re_lastSeen target m of
                                None \<Rightarrow> None
                              | Some m \<Rightarrow>
                                  Some (s\<lparr>rs_limiters := m,
                                          rs_evicted := rs_evicted s + of_nat (before - length m)\<rparr>)))))"

section \<open>Decisions\<close>

text \<open>The entry of a key that is already tracked, refreshed.\<close>

definition rate_touch ::
  "rate_limit_opt \<Rightarrow> time \<Rightarrow> 'l rate_entry \<Rightarrow> 'l rate_state \<Rightarrow> time \<times> 'l rate_entry \<times> 'l rate_state" where
  "rate_touch opt now e s =
     (let now = (if now < re_lastSeen e then re_lastSeen e else now);
          e = e\<lparr>re_lastSeen := now\<rparr>
      in if re_interval e \<noteq> rl_Interval opt
         then (let s = s\<lparr>rs_conflicts := rs_conflicts s + 1\<rparr>
               in if \<not> re_conflictWarned e
                  then (now, e\<lparr>re_conflictWarned := True\<rparr>,
                        s\<lparr>rs_warnings := rs_warnings s @
                            [KeyConflict (rl_Key opt) (rl_Interval opt) (re_interval e)]\<rparr>)
                  else (now, e, s))
         else (now, e, s))"

text \<open>The entry of a key that is new, after room has been made for it.\<close>

definition rate_create ::
  "(duration \<Rightarrow> 'l) \<Rightarrow> rate_limit_opt \<Rightarrow> time \<Rightarrow> 'l rate_state \<Rightarrow> 'l rate_entry \<times> 'l rate_state" where
  "rate_create newL opt now s =
     (let e = \<lparr>re_limiter = None, re_interval = rl_Interval opt, re_suppressed = 0,
               re_lastSeen = now, re_conflictWarned = False\<rparr>
      in if rl_Interval opt > 0 then (e\<lparr>re_limiter := Some (newL (rl_Interval opt))\<rparr>, s)
         else (e, s\<lparr>rs_invalidConfigs := rs_invalidConfigs s + 1,
                    rs_warnings := rs_warnings s @ [IntervalInvalid (rl_Key opt) (rl_Interval opt)]\<rparr>))"

type_synonym rate_decision = "bool \<times> i64 \<times> bool"

text \<open>What the entry decides, and the entry afterwards.\<close>

definition rate_decide ::
  "('l \<Rightarrow> time \<Rightarrow> bool \<times> 'l) \<Rightarrow> time \<Rightarrow> 'l rate_entry \<Rightarrow> rate_decision \<times> 'l rate_entry" where
  "rate_decide allowN now e =
     (case re_limiter e of
        None \<Rightarrow> ((True, 0, False), e)
      | Some l \<Rightarrow>
          (let (allow, l) = allowN l now; e = e\<lparr>re_limiter := Some l\<rparr>
           in if allow
              then (let suppressed = re_suppressed e
                    in if 0 <s suppressed then ((True, suppressed, True), e\<lparr>re_suppressed := 0\<rparr>)
                       else ((True, suppressed, False), e))
              else ((False, 0, False), e\<lparr>re_suppressed := re_suppressed e + 1\<rparr>)))"

definition shouldLog ::
  "(duration \<Rightarrow> 'l) \<Rightarrow> ('l \<Rightarrow> time \<Rightarrow> bool \<times> 'l) \<Rightarrow> (bytes list \<Rightarrow> bytes list) \<Rightarrow> time \<Rightarrow>
   'l rate_state option \<Rightarrow> rate_limit_opt option \<Rightarrow> (rate_decision \<times> 'l rate_state option) option" where
  "shouldLog newL allowN perm clock st rateLimit =
     (case (st, rateLimit) of
        (Some s, Some opt) \<Rightarrow>
          if rl_Key opt = [] then Some ((True, 0, False), st)
          else (case map_of (rs_limiters s) (rl_Key opt) of
                  Some e \<Rightarrow>
                    (let (now, e, s) = rate_touch opt clock e s;
                         (d, e) = rate_decide allowN now e
                     in Some (d, Some (s\<lparr>rs_limiters := AList.update (rl_Key opt) e (rs_limiters s)\<rparr>)))
                | None \<Rightarrow>
                    (case rate_evictLocked perm clock s of
                       None \<Rightarrow> None
                     | Some s \<Rightarrow>
                         (let (e, s) = rate_create newL opt clock s;
                              (d, e) = rate_decide allowN clock e
                          in Some (d, Some (s\<lparr>rs_limiters := AList.update (rl_Key opt) e (rs_limiters s)\<rparr>)))))
      | _ \<Rightarrow> Some ((True, 0, False), st))"

text \<open>A history of calls, in the order in which they take the lock.\<close>

record rate_call =
  rc_perm :: "bytes list \<Rightarrow> bytes list"
  rc_now :: time
  rc_opt :: rate_limit_opt

fun rate_run ::
  "(duration \<Rightarrow> 'l) \<Rightarrow> ('l \<Rightarrow> time \<Rightarrow> bool \<times> 'l) \<Rightarrow> 'l rate_state \<Rightarrow> rate_call list \<Rightarrow>
   (rate_decision list \<times> 'l rate_state) option" where
  "rate_run newL allowN s [] = Some ([], s)"
| "rate_run newL allowN s (c # cs) =
     (case shouldLog newL allowN (rc_perm c) (rc_now c) (Some s) (Some (rc_opt c)) of
        Some (d, Some s') \<Rightarrow>
          (case rate_run newL allowN s' cs of
             Some (ds, s'') \<Rightarrow> Some (d # ds, s'')
           | None \<Rightarrow> None)
      | _ \<Rightarrow> None)"

section \<open>Interface: the token bucket\<close>

text \<open>
  Documented of a limiter with rate one per interval and burst one, driven with a clock that does
  not go backwards: the first event is allowed, and then an event is allowed exactly when an interval has
  passed since the last allowed one. \<open>lastOk\<close> and \<open>per\<close> are the limiter's observable state.
\<close>

locale token_bucket =
  fixes newL :: "duration \<Rightarrow> 'l"
    and allowN :: "'l \<Rightarrow> time \<Rightarrow> bool \<times> 'l"
    and lastOk :: "'l \<Rightarrow> time option"
    and per :: "'l \<Rightarrow> duration"
  assumes new_limiter: "0 < d \<Longrightarrow> lastOk (newL d) = None \<and> per (newL d) = d"
    and allow_iff: "fst (allowN l t) \<longleftrightarrow> (case lastOk l of None \<Rightarrow> True | Some u \<Rightarrow> per l \<le> t - u)"
    and allow_state: "lastOk (snd (allowN l t)) = (if fst (allowN l t) then Some t else lastOk l)"
    and allow_per: "per (snd (allowN l t)) = per l"

definition exact_new :: "duration \<Rightarrow> duration \<times> time option" where
  "exact_new d = (d, None)"

definition exact_allowN :: "duration \<times> time option \<Rightarrow> time \<Rightarrow> bool \<times> duration \<times> time option" where
  "exact_allowN l t =
     (case snd l of
        None \<Rightarrow> (True, fst l, Some t)
      | Some u \<Rightarrow> if fst l \<le> t - u then (True, fst l, Some t) else (False, l))"

interpretation exact_bucket: token_bucket exact_new exact_allowN snd fst
  by unfold_locales (auto simp: exact_new_def exact_allowN_def split: option.splits)

section \<open>The bound\<close>

lemma rate_target_bounds: "0 < m \<Longrightarrow> 0 \<le> rate_target m \<and> rate_target m < m"
  by (auto simp: rate_target_def Let_def)

lemma rate_evict_spec:
  assumes "reorders perm" "wf_map (rs_limiters s)" "int (length (rs_limiters s)) \<le> rs_maxKeys s"
    "0 < rs_maxKeys s"
  shows "\<exists>s'. rate_evictLocked perm now s = Some s' \<and>
    int (length (rs_limiters s')) < rs_maxKeys s \<and> set (rs_limiters s') \<subseteq> set (rs_limiters s) \<and>
    wf_map (rs_limiters s') \<and> rs_maxKeys s' = rs_maxKeys s \<and>
    rs_evicted s' = rs_evicted s + of_nat (length (rs_limiters s) - length (rs_limiters s'))"
proof -
  let ?m = "drop_dead (rate_dead now) (rs_limiters s)"
  let ?t = "rate_target (rs_maxKeys s)"
  note t = rate_target_bounds [OF assms(4)]
  note dead = drop_dead_sub [where dead = "rate_dead now" and m = "rs_limiters s"]
  consider "int (length (rs_limiters s)) < rs_maxKeys s" | "\<not> int (length (rs_limiters s)) < rs_maxKeys s"
      "int (length ?m) < rs_maxKeys s"
    | "\<not> int (length (rs_limiters s)) < rs_maxKeys s" "\<not> int (length ?m) < rs_maxKeys s" "?t = 0"
    | "\<not> int (length (rs_limiters s)) < rs_maxKeys s" "\<not> int (length ?m) < rs_maxKeys s" "0 < ?t"
    using t by linarith
  then show ?thesis
  proof cases
    case 4
    have "?t \<le> int (length ?m)" using 4 t by linarith
    from drop_oldest_spec [OF assms(1) dead(2) [OF assms(2)] 4(3) this, of re_lastSeen]
    obtain m' where m': "drop_oldest perm re_lastSeen ?t ?m = Some m'" "int (length m') = ?t"
      "set m' \<subseteq> set ?m" "wf_map m'"
      by blast
    then have "set m' \<subseteq> set (rs_limiters s)" using dead(1) by blast
    with 4 m' t show ?thesis by (simp add: rate_evictLocked_def Let_def)
  qed (use assms dead in \<open>simp_all add: rate_evictLocked_def Let_def\<close>)
qed

interpretation rate_map: bounded_map rs_limiters rs_maxKeys rs_evicted "\<lambda>(perm, now). reorders perm"
  "\<lambda>(perm, now). rate_evictLocked perm now"
  by unfold_locales (clarsimp simp: rate_evict_spec)

lemma rate_evict:
  assumes "reorders perm" "rate_map.bounded s"
  obtains s' where "rate_evictLocked perm now s = Some s'"
    "rs_maxKeys s' = rs_maxKeys s" "rate_map.bounded s'"
    "int (length (rs_limiters s')) < rs_maxKeys s'" "forgets (rs_limiters s) (rs_limiters s')"
    "int (length (rs_limiters s)) < rs_maxKeys s \<Longrightarrow> s' = s"
    "rs_invalidConfigs s' = rs_invalidConfigs s" "rs_conflicts s' = rs_conflicts s"
    "rs_warnings s' = rs_warnings s"
proof -
  have legal: "(\<lambda>(perm, now). reorders perm) (perm, now)" using assms(1) by simp
  from rate_map.evict_then_insert [OF legal assms(2)] obtain s' where
    s': "rate_evictLocked perm now s = Some s'"
    "rs_maxKeys s' = rs_maxKeys s" "rate_map.bounded s'"
    "int (length (rs_limiters s')) < rs_maxKeys s'" "set (rs_limiters s') \<subseteq> set (rs_limiters s)"
    by auto
  have "forgets (rs_limiters s) (rs_limiters s')"
    using s'(3,5) assms(2) by (intro forgets_subset) (auto simp: rate_map.bounded_def)
  moreover have "int (length (rs_limiters s)) < rs_maxKeys s \<Longrightarrow> s' = s"
    "rs_invalidConfigs s' = rs_invalidConfigs s" "rs_conflicts s' = rs_conflicts s"
    "rs_warnings s' = rs_warnings s"
    using s'(1) by (auto simp: rate_evictLocked_def Let_def split: if_splits option.splits)
  ultimately show thesis using s'(1-4) by (intro that)
qed

text \<open>One call with a key, on both branches: the entry the decision is taken on, and the map it goes to.\<close>

lemma rate_step:
  assumes "rate_map.bounded s" "reorders perm" "rl_Key opt \<noteq> []"
  obtains t e m s' where
    "shouldLog newL allowN perm clock (Some s) (Some opt) = Some (fst (rate_decide allowN t e), Some s')"
    "rs_limiters s' = AList.update (rl_Key opt) (snd (rate_decide allowN t e)) m"
    "rate_map.bounded s'" "rs_maxKeys s' = rs_maxKeys s" "forgets (rs_limiters s) m"
    "rl_Key opt \<in> set (keys (rs_limiters s)) \<or> int (length (rs_limiters s)) < rs_maxKeys s \<Longrightarrow> m = rs_limiters s"
    "case map_of (rs_limiters s) (rl_Key opt) of
       Some e0 \<Rightarrow> t = max clock (re_lastSeen e0) \<and> re_limiter e = re_limiter e0 \<and>
         re_interval e = re_interval e0 \<and> re_suppressed e = re_suppressed e0 \<and> re_lastSeen e = t
     | None \<Rightarrow> t = clock \<and> re_limiter e = (if 0 < rl_Interval opt then Some (newL (rl_Interval opt)) else None) \<and>
         re_interval e = rl_Interval opt \<and> re_suppressed e = 0 \<and> re_lastSeen e = t"
proof (cases "map_of (rs_limiters s) (rl_Key opt)")
  case None
  from rate_evict [OF assms(2,1), of clock] obtain s1 where
    s1: "rate_evictLocked perm clock s = Some s1" "rs_maxKeys s1 = rs_maxKeys s" "rate_map.bounded s1"
      "int (length (rs_limiters s1)) < rs_maxKeys s1" "forgets (rs_limiters s) (rs_limiters s1)"
      "int (length (rs_limiters s)) < rs_maxKeys s \<Longrightarrow> s1 = s"
    by metis
  obtain e s2 where cr: "rate_create newL opt clock s1 = (e, s2)" by (cases "rate_create newL opt clock s1")
  then have e: "re_limiter e = (if 0 < rl_Interval opt then Some (newL (rl_Interval opt)) else None)"
    "re_interval e = rl_Interval opt" "re_suppressed e = 0" "re_lastSeen e = clock"
    and s2: "rs_limiters s2 = rs_limiters s1" "rs_maxKeys s2 = rs_maxKeys s1"
    by (auto simp: rate_create_def Let_def split: if_splits)
  obtain d e' where d: "rate_decide allowN clock e = (d, e')" by (cases "rate_decide allowN clock e")
  let ?s' = "s2\<lparr>rs_limiters := AList.update (rl_Key opt) e' (rs_limiters s2)\<rparr>"
  have "rate_map.bounded ?s'"
    by (rule rate_map.bounded_insert [OF s1(3,4)]) (simp_all add: s2)
  moreover have "shouldLog newL allowN perm clock (Some s) (Some opt) = Some (d, Some ?s')"
    using None assms(3) by (simp add: shouldLog_def s1(1) cr d)
  moreover have "rl_Key opt \<notin> set (keys (rs_limiters s))" using None by (simp add: map_of_None_iff)
  ultimately show thesis
    using s1 s2 e d None by (intro that [of clock e ?s' "rs_limiters s1"]) auto
next
  case (Some e0)
  obtain t e s1 where to: "rate_touch opt clock e0 s = (t, e, s1)" by (metis surj_pair)
  then have e: "t = max clock (re_lastSeen e0)" "re_limiter e = re_limiter e0"
    "re_interval e = re_interval e0" "re_suppressed e = re_suppressed e0" "re_lastSeen e = t"
    and s1: "rs_limiters s1 = rs_limiters s" "rs_maxKeys s1 = rs_maxKeys s"
    by (auto simp: rate_touch_def Let_def split: if_splits)
  obtain d e' where d: "rate_decide allowN t e = (d, e')" by (cases "rate_decide allowN t e")
  have k: "rl_Key opt \<in> set (keys (rs_limiters s))"
    using Some map_of_None_iff [of "rs_limiters s" "rl_Key opt"] by auto
  let ?s' = "s1\<lparr>rs_limiters := AList.update (rl_Key opt) e' (rs_limiters s1)\<rparr>"
  have "rate_map.bounded ?s'"
    by (rule rate_map.bounded_overwrite [OF assms(1) k]) (simp_all add: s1)
  moreover have "shouldLog newL allowN perm clock (Some s) (Some opt) = Some (d, Some ?s')"
    using Some assms(3) by (simp add: shouldLog_def to d)
  ultimately show thesis
    using s1 e d Some by (intro that [of t e ?s' "rs_limiters s"]) auto
qed

lemma rate_step_unkeyed:
  "rl_Key opt = [] \<Longrightarrow> shouldLog newL allowN perm clock (Some s) (Some opt) = Some ((True, 0, False), Some s)"
  by (simp add: shouldLog_def)

definition legal_rate_calls :: "rate_call list \<Rightarrow> bool" where
  "legal_rate_calls cs \<longleftrightarrow> list_all (\<lambda>c. reorders (rc_perm c)) cs"

lemma legal_rate_calls_Cons [simp]:
  "legal_rate_calls (c # cs) \<longleftrightarrow> reorders (rc_perm c) \<and> legal_rate_calls cs"
  by (simp add: legal_rate_calls_def)

lemma rate_run_bounded:
  assumes "rate_map.bounded s" "legal_rate_calls cs"
  shows "\<exists>ds s'. rate_run newL allowN s cs = Some (ds, s') \<and> rate_map.bounded s' \<and>
    rs_maxKeys s' = rs_maxKeys s \<and> length ds = length cs"
  using assms
proof (induction cs arbitrary: s)
  case (Cons c cs)
  then have legal: "reorders (rc_perm c)" "legal_rate_calls cs" by simp_all
  obtain d s1 where s1: "shouldLog newL allowN (rc_perm c) (rc_now c) (Some s) (Some (rc_opt c)) = Some (d, Some s1)"
    "rate_map.bounded s1" "rs_maxKeys s1 = rs_maxKeys s"
  proof (cases "rl_Key (rc_opt c) = []")
    case True
    from that [OF rate_step_unkeyed [OF True] Cons.prems(1) refl] show thesis .
  next
    case False
    show thesis
      by (rule rate_step [OF Cons.prems(1) legal(1) False, of newL allowN "rc_now c"]) (rule that)
  qed
  from Cons.IH [OF s1(2) legal(2)] s1 show ?case by auto
qed simp

lemma rate_new_bounded:
  "rate_map.bounded (newRateState k)" "rs_limiters (newRateState k) = []"
  "rs_maxKeys (newRateState k) = (if k \<le> 0 then DefaultRateLimitMaxKeys else k)"
  by (simp_all add: newRateState_def rate_map.bounded_def DefaultRateLimitMaxKeys_def)

text \<open>
  C39. The rate limiter never panics and never tracks more keys than its bound, whatever the
  limiter package does, the clock, the keys and intervals presented and the order of map ranges;
  a non-positive bound means 4096.
\<close>

theorem rate_limit_bounded:
  assumes "legal_rate_calls cs"
  shows "\<exists>ds s'. rate_run newL allowN (newRateState k) cs = Some (ds, s') \<and> length ds = length cs \<and>
    int (length (rs_limiters s')) \<le> (if k \<le> 0 then 4096 else k)"
  using rate_run_bounded [OF rate_new_bounded(1) assms, of newL allowN k]
  by (auto simp: rate_map.bounded_def DefaultRateLimitMaxKeys_def rate_new_bounded(3))

abbreviation rate_at :: "time \<Rightarrow> bytes \<Rightarrow> duration \<Rightarrow> rate_call" where
  "rate_at t k d \<equiv> \<lparr>rc_perm = (\<lambda>ks. ks), rc_now = t, rc_opt = WithRateLimit k d\<rparr>"

theorem rate_limit_bounded_witness:
  "\<exists>ds s'. rate_run exact_new exact_allowN (newRateState 2) [rate_at 1 ''a'' 9, rate_at 1 ''b'' 9, rate_at 1 ''c'' 9] =
     Some (ds, s') \<and> length ds = 3 \<and> int (length (rs_limiters s')) \<le> 2"
  using rate_limit_bounded [of "[rate_at 1 ''a'' 9, rate_at 1 ''b'' 9, rate_at 1 ''c'' 9]" exact_new exact_allowN 2]
  by (simp add: legal_rate_calls_def numeral_3_eq_3)

section \<open>The specification\<close>

text \<open>
  What a caller of \<open>WithRateLimit\<close> is promised, while the keys in use fit the bound: per key, the
  interval it was first presented with and the time of the last admitted record. A record is
  admitted when the interval is not positive or has passed.
\<close>

type_synonym rate_spec = "bytes \<Rightarrow> (duration \<times> time) option"

definition rate_spec_step :: "rate_spec \<Rightarrow> rate_call \<Rightarrow> bool \<times> rate_spec" where
  "rate_spec_step sp c =
     (let k = rl_Key (rc_opt c); d = rl_Interval (rc_opt c); t = rc_now c
      in if k = [] then (True, sp)
         else (case sp k of
                 None \<Rightarrow> (True, sp(k \<mapsto> (d, t)))
               | Some (d0, u) \<Rightarrow>
                   if d0 \<le> 0 \<or> d0 \<le> t - u then (True, sp(k \<mapsto> (d0, t))) else (False, sp)))"

fun rate_spec_run :: "rate_spec \<Rightarrow> rate_call list \<Rightarrow> bool list" where
  "rate_spec_run sp [] = []"
| "rate_spec_run sp (c # cs) =
     (let (b, sp') = rate_spec_step sp c in b # rate_spec_run sp' cs)"

text \<open>Keys in use, and the step when they fit: nothing is evicted.\<close>

definition rate_keys :: "rate_call list \<Rightarrow> bytes set" where
  "rate_keys cs = (\<lambda>c. rl_Key (rc_opt c)) ` set cs - {[]}"

lemma finite_rate_keys [simp]: "finite (rate_keys cs)"
  by (simp add: rate_keys_def)

definition fits :: "bytes set \<Rightarrow> 'l rate_state \<Rightarrow> bool" where
  "fits K s \<longleftrightarrow> rate_map.bounded s \<and> finite K \<and> int (card K) \<le> rs_maxKeys s \<and>
     set (keys (rs_limiters s)) \<subseteq> K"

lemma fits_new:
  "int (card (rate_keys cs)) \<le> (if k \<le> 0 then 4096 else k) \<Longrightarrow> fits (rate_keys cs) (newRateState k)"
  by (cases "k \<le> 0") (simp_all add: fits_def rate_new_bounded DefaultRateLimitMaxKeys_def)

text \<open>The entry the decision is taken on.\<close>

definition rate_entry_for ::
  "(duration \<Rightarrow> 'l) \<Rightarrow> 'l rate_state \<Rightarrow> rate_limit_opt \<Rightarrow> time \<Rightarrow> time \<Rightarrow> 'l rate_entry \<Rightarrow> bool" where
  "rate_entry_for newL s opt clock t e \<longleftrightarrow>
     (case map_of (rs_limiters s) (rl_Key opt) of
       Some e0 \<Rightarrow> t = max clock (re_lastSeen e0) \<and> re_limiter e = re_limiter e0 \<and>
         re_interval e = re_interval e0 \<and> re_suppressed e = re_suppressed e0 \<and> re_lastSeen e = t
     | None \<Rightarrow> t = clock \<and> re_limiter e = (if 0 < rl_Interval opt then Some (newL (rl_Interval opt)) else None) \<and>
         re_interval e = rl_Interval opt \<and> re_suppressed e = 0 \<and> re_lastSeen e = t)"

lemma rate_step_fits:
  assumes "fits K s" "reorders perm" "rl_Key opt \<in> K" "rl_Key opt \<noteq> []"
  obtains t e s' where
    "shouldLog newL allowN perm clock (Some s) (Some opt) = Some (fst (rate_decide allowN t e), Some s')"
    "map_of (rs_limiters s') = (map_of (rs_limiters s))(rl_Key opt \<mapsto> snd (rate_decide allowN t e))"
    "fits K s'" "rate_entry_for newL s opt clock t e"
proof -
  from assms(1) have f: "rate_map.bounded s" "finite K" "int (card K) \<le> rs_maxKeys s"
    "set (keys (rs_limiters s)) \<subseteq> K" by (simp_all add: fits_def)
  show thesis
  proof (rule rate_step [OF f(1) assms(2,4), of newL allowN clock, folded rate_entry_for_def])
    fix t e m s'
    assume st: "shouldLog newL allowN perm clock (Some s) (Some opt) = Some (fst (rate_decide allowN t e), Some s')"
      "rs_limiters s' = AList.update (rl_Key opt) (snd (rate_decide allowN t e)) m"
      "rate_map.bounded s'" "rs_maxKeys s' = rs_maxKeys s"
      "rl_Key opt \<in> set (keys (rs_limiters s)) \<or> int (length (rs_limiters s)) < rs_maxKeys s \<Longrightarrow> m = rs_limiters s"
      "rate_entry_for newL s opt clock t e"
    have m: "m = rs_limiters s" using st(5) rate_map.room [OF f assms(3)] by blast
    have "fits K s'"
      using st(2-4) f assms(3) by (simp add: m fits_def set_keys_update del: set_map)
    moreover have "map_of (rs_limiters s') = (map_of (rs_limiters s))(rl_Key opt \<mapsto> snd (rate_decide allowN t e))"
      by (simp add: st(2) m AList.update_conv')
    ultimately show thesis using st(1,6) by (intro that)
  qed
qed

context token_bucket
begin

text \<open>An entry that has decided at least once, with the specification's state for its key.\<close>

definition entry_abs :: "'l rate_entry \<Rightarrow> time \<Rightarrow> bool" where
  "entry_abs e u \<longleftrightarrow>
     (case re_limiter e of
        None \<Rightarrow> re_interval e \<le> 0
      | Some l \<Rightarrow> 0 < re_interval e \<and> per l = re_interval e \<and> lastOk l = Some u \<and>
          re_lastSeen e - u < re_interval e)"

definition rate_abs :: "'l rate_state \<Rightarrow> rate_spec \<Rightarrow> bool" where
  "rate_abs s sp \<longleftrightarrow> (\<forall>k. case map_of (rs_limiters s) k of
      None \<Rightarrow> sp k = None
    | Some e \<Rightarrow> \<exists>u. sp k = Some (re_interval e, u) \<and> entry_abs e u)"

lemma rate_abs_None: "rate_abs s sp \<Longrightarrow> map_of (rs_limiters s) k = None \<Longrightarrow> sp k = None"
  unfolding rate_abs_def by (drule spec [of _ k]) simp

lemma rate_abs_Some:
  "rate_abs s sp \<Longrightarrow> map_of (rs_limiters s) k = Some e \<Longrightarrow>
   \<exists>u. sp k = Some (re_interval e, u) \<and> entry_abs e u"
  unfolding rate_abs_def by (drule spec [of _ k]) simp

lemma rate_abs_update:
  assumes "rate_abs s sp" "map_of (rs_limiters s') = (map_of (rs_limiters s))(k \<mapsto> e)" "entry_abs e u"
    and "sp' k = Some (re_interval e, u)" "\<And>k'. k' \<noteq> k \<Longrightarrow> sp' k' = sp k'"
  shows "rate_abs s' sp'"
  unfolding rate_abs_def
proof
  fix k'
  show "case map_of (rs_limiters s') k' of None \<Rightarrow> sp' k' = None
    | Some e \<Rightarrow> \<exists>u. sp' k' = Some (re_interval e, u) \<and> entry_abs e u"
  proof (cases "k' = k")
    case True
    with assms show ?thesis by simp
  next
    case False
    then have "sp' k' = sp k'" "map_of (rs_limiters s') k' = map_of (rs_limiters s) k'"
      using assms(2,5) by simp_all
    moreover have "case map_of (rs_limiters s) k' of None \<Rightarrow> sp k' = None
        | Some e \<Rightarrow> \<exists>u. sp k' = Some (re_interval e, u) \<and> entry_abs e u"
      using assms(1) unfolding rate_abs_def by (rule spec)
    ultimately show ?thesis by (cases "map_of (rs_limiters s) k'") simp_all
  qed
qed

lemma rate_decide_tracked:
  assumes "entry_abs e0 u" "t = max clock (re_lastSeen e0)" "re_limiter e = re_limiter e0"
    "re_interval e = re_interval e0" "re_lastSeen e = t"
  defines "b \<equiv> re_interval e0 \<le> 0 \<or> re_interval e0 \<le> clock - u"
  shows "fst (fst (rate_decide allowN t e)) = b \<and> re_interval (snd (rate_decide allowN t e)) = re_interval e0 \<and>
    entry_abs (snd (rate_decide allowN t e)) (if b then clock else u)"
proof (cases "re_limiter e")
  case None
  with assms show ?thesis by (simp add: rate_decide_def entry_abs_def)
next
  case (Some l)
  obtain ok l' where al: "allowN l t = (ok, l')" by (cases "allowN l t")
  from assms(1) Some assms(3) have l: "0 < re_interval e0" "per l = re_interval e0" "lastOk l = Some u"
    "re_lastSeen e0 - u < re_interval e0"
    by (simp_all add: entry_abs_def)
  have "ok \<longleftrightarrow> re_interval e0 \<le> t - u" using allow_iff [of l t] al l by simp
  moreover have "re_interval e0 \<le> t - u \<longleftrightarrow> re_interval e0 \<le> clock - u"
    using l(4) assms(2) by (auto simp: max_def)
  moreover have "re_interval e0 \<le> clock - u \<Longrightarrow> t = clock"
    using l(4) assms(2) by (auto simp: max_def)
  moreover have "per l' = re_interval e0" "lastOk l' = (if ok then Some t else Some u)"
    using allow_state [of l t] allow_per [of l t] al l by simp_all
  ultimately show ?thesis
    using Some al l assms by (auto simp: rate_decide_def entry_abs_def Let_def)
qed

lemma rate_decide_fresh:
  assumes "re_limiter e = (if 0 < d then Some (newL d) else None)" "re_interval e = d" "re_suppressed e = 0"
    "re_lastSeen e = t"
  shows "fst (fst (rate_decide allowN t e)) \<and> re_interval (snd (rate_decide allowN t e)) = d \<and>
    entry_abs (snd (rate_decide allowN t e)) t"
proof (cases "0 < d")
  case False
  with assms show ?thesis by (simp add: rate_decide_def entry_abs_def)
next
  case True
  obtain ok l' where al: "allowN (newL d) t = (ok, l')" by (cases "allowN (newL d) t")
  with True new_limiter [of d] allow_iff [of "newL d" t] allow_state [of "newL d" t] allow_per [of "newL d" t]
  have "ok" "lastOk l' = Some t" "per l' = d" by simp_all
  with True al assms show ?thesis by (auto simp: rate_decide_def entry_abs_def Let_def)
qed

lemma rate_run_refines:
  assumes "fits K s" "legal_rate_calls cs" "rate_keys cs \<subseteq> K" "rate_abs s sp"
    and "rate_run newL allowN s cs = Some (ds, s')"
  shows "map fst ds = rate_spec_run sp cs"
  using assms
proof (induction cs arbitrary: s sp ds)
  case (Cons c cs)
  let ?o = "rc_opt c" and ?k = "rl_Key (rc_opt c)" and ?now = "rc_now c"
  from Cons.prems have legal: "reorders (rc_perm c)" "legal_rate_calls cs" and K: "rate_keys cs \<subseteq> K"
    by (auto simp: rate_keys_def)
  show ?case
  proof (cases "?k = []")
    case True
    from Cons.prems(5) obtain ds' where "rate_run newL allowN s cs = Some (ds', s')" "ds = (True, 0, False) # ds'"
      by (auto simp: rate_step_unkeyed [OF True] split: option.splits)
    with Cons.IH [OF Cons.prems(1) legal(2) K Cons.prems(4)] True show ?thesis
      by (simp add: rate_spec_step_def)
  next
    case False
    then have "?k \<in> K" using Cons.prems(3) by (auto simp: rate_keys_def)
    from rate_step_fits [OF Cons.prems(1) legal(1) this False, of newL allowN ?now] obtain t e s1 where
      st: "shouldLog newL allowN (rc_perm c) ?now (Some s) (Some ?o) = Some (fst (rate_decide allowN t e), Some s1)"
        "map_of (rs_limiters s1) = (map_of (rs_limiters s))(?k \<mapsto> snd (rate_decide allowN t e))"
        "fits K s1" "rate_entry_for newL s ?o ?now t e"
      by blast
    obtain b sp1 where spec: "rate_spec_step sp c = (b, sp1)" by (cases "rate_spec_step sp c")
    have step: "fst (fst (rate_decide allowN t e)) = b \<and> rate_abs s1 sp1"
    proof (cases "map_of (rs_limiters s) ?k")
      case None
      then have "sp ?k = None" by (rule rate_abs_None [OF Cons.prems(4)])
      then have "b" "sp1 = sp(?k \<mapsto> (rl_Interval ?o, ?now))"
        using spec False by (auto simp: rate_spec_step_def Let_def)
      moreover from None st(4) have t: "t = ?now" and e:
        "re_limiter e = (if 0 < rl_Interval ?o then Some (newL (rl_Interval ?o)) else None)"
        "re_interval e = rl_Interval ?o" "re_suppressed e = 0" "re_lastSeen e = t"
        by (simp_all add: rate_entry_for_def)
      note d = rate_decide_fresh [OF e]
      ultimately have "rate_abs s1 sp1"
        using t by (intro rate_abs_update [OF Cons.prems(4) st(2), of t]) (simp_all add: d)
      with d \<open>b\<close> show ?thesis by simp
    next
      case (Some e0)
      from rate_abs_Some [OF Cons.prems(4) this] obtain u where
        u: "sp ?k = Some (re_interval e0, u)" "entry_abs e0 u" by blast
      from Some st(4) have e: "t = max ?now (re_lastSeen e0)" "re_limiter e = re_limiter e0"
        "re_interval e = re_interval e0" "re_lastSeen e = t"
        by (simp_all add: rate_entry_for_def)
      have b: "b = (re_interval e0 \<le> 0 \<or> re_interval e0 \<le> ?now - u)" and
        sp1: "sp1 = (if b then sp(?k \<mapsto> (re_interval e0, ?now)) else sp)"
        using spec False u(1) by (auto simp: rate_spec_step_def Let_def split: if_splits)
      note d = rate_decide_tracked [OF u(2) e, folded b]
      then have "rate_abs s1 sp1"
        using u(1) by (intro rate_abs_update [OF Cons.prems(4) st(2), of "if b then ?now else u"]) (simp_all add: sp1)
      with d show ?thesis by simp
    qed
    from Cons.prems(5) st(1) obtain ds' where
      "rate_run newL allowN s1 cs = Some (ds', s')" "ds = fst (rate_decide allowN t e) # ds'"
      by (auto split: option.splits)
    with Cons.IH [OF st(3) legal(2) K _ this(1)] step spec show ?thesis by simp
  qed
qed simp

end

text \<open>
  C9. While the keys in use fit the bound, the limiter's decisions are those of the specification, for
  any limiter that behaves as a token bucket of burst one: the first interval presented for a key decides,
  a later one is ignored, a non-positive one never limits, and a clock that stands still or goes
  backwards neither admits early nor delays later.
\<close>

theorem rate_limit_refines_spec:
  assumes "token_bucket newL allowN lastOk per" "legal_rate_calls cs"
    and "int (card (rate_keys cs)) \<le> (if k \<le> 0 then 4096 else k)"
  shows "\<exists>ds s'. rate_run newL allowN (newRateState k) cs = Some (ds, s') \<and>
    map fst ds = rate_spec_run Map.empty cs"
proof -
  have abs: "token_bucket.rate_abs lastOk per (newRateState k) Map.empty"
    by (simp add: token_bucket.rate_abs_def [OF assms(1)] rate_new_bounded)
  from rate_run_bounded [OF rate_new_bounded(1) assms(2), of newL allowN k] obtain ds s' where
    "rate_run newL allowN (newRateState k) cs = Some (ds, s')" by blast
  with token_bucket.rate_run_refines [OF assms(1) fits_new [OF assms(3)] assms(2) subset_refl abs]
  show ?thesis by blast
qed

theorem rate_limit_refines_spec_witness:
  "\<exists>ds s'. rate_run exact_new exact_allowN (newRateState 0)
      [rate_at 0 ''k'' 10, rate_at 5 ''k'' 1, rate_at (-3) ''k'' 10, rate_at 10 ''k'' 99, rate_at 11 ''z'' 0] =
      Some (ds, s') \<and> map fst ds = [True, False, False, True, True]"
proof -
  let ?cs = "[rate_at 0 ''k'' 10, rate_at 5 ''k'' 1, rate_at (-3) ''k'' 10, rate_at 10 ''k'' 99, rate_at 11 ''z'' 0]"
  have "legal_rate_calls ?cs" by (simp add: legal_rate_calls_def)
  moreover have "rate_keys ?cs = {''k'', ''z''}" by (auto simp: rate_keys_def WithRateLimit_def)
  then have "int (card (rate_keys ?cs)) \<le> (if (0::int) \<le> 0 then 4096 else 0)" by simp
  ultimately show ?thesis
    using rate_limit_refines_spec [OF exact_bucket.token_bucket_axioms, of ?cs 0]
    by (simp add: rate_spec_step_def WithRateLimit_def del: rate_run.simps)
qed

text \<open>The interval a history presents first for a key.\<close>

definition first_interval :: "rate_call list \<Rightarrow> bytes \<Rightarrow> duration" where
  "first_interval cs k =
     (case find (\<lambda>c. rl_Key (rc_opt c) = k) cs of None \<Rightarrow> 0 | Some c \<Rightarrow> rl_Interval (rc_opt c))"

definition effective_interval :: "rate_spec \<Rightarrow> rate_call list \<Rightarrow> bytes \<Rightarrow> duration" where
  "effective_interval sp cs k = (case sp k of Some (d, u) \<Rightarrow> d | None \<Rightarrow> first_interval cs k)"

definition admitted :: "rate_call list \<Rightarrow> bool list \<Rightarrow> (bytes \<times> time) list" where
  "admitted cs bs =
     map (\<lambda>(c, b). (rl_Key (rc_opt c), rc_now c)) (filter (\<lambda>(c, b). b \<and> rl_Key (rc_opt c) \<noteq> []) (zip cs bs))"

definition rate_spaced :: "(bytes \<Rightarrow> duration) \<Rightarrow> (bytes \<times> time) list \<Rightarrow> bool" where
  "rate_spaced iv ems \<longleftrightarrow> sorted_wrt (\<lambda>(k, t) (k', t'). k = k' \<and> 0 < iv k \<longrightarrow> iv k \<le> t' - t) ems"

lemma rate_spec_spaced:
  "rate_spaced (effective_interval sp cs) (admitted cs (rate_spec_run sp cs)) \<and>
   (\<forall>(k, t) \<in> set (admitted cs (rate_spec_run sp cs)). \<forall>d u. sp k = Some (d, u) \<and> 0 < d \<longrightarrow> d \<le> t - u)"
proof (induction cs arbitrary: sp)
  case Nil
  then show ?case by (simp add: rate_spaced_def admitted_def)
next
  case (Cons c cs)
  let ?k = "rl_Key (rc_opt c)" and ?d = "rl_Interval (rc_opt c)" and ?t = "rc_now c"
  obtain b sp1 where step: "rate_spec_step sp c = (b, sp1)" by (cases "rate_spec_step sp c")
  show ?case
  proof (cases "?k = []")
    case True
    then have "sp1 = sp" using step by (simp add: rate_spec_step_def)
    moreover have "k \<noteq> [] \<Longrightarrow> effective_interval sp (c # cs) k = effective_interval sp cs k" for k
      using True by (simp add: effective_interval_def first_interval_def split: option.split)
    moreover have "admitted (c # cs) (b # bs) = admitted cs bs" for bs
      using True by (simp add: admitted_def)
    moreover have "(k, t) \<in> set (admitted cs bs) \<Longrightarrow> k \<noteq> []" for k t bs
      by (auto simp: admitted_def)
    ultimately show ?thesis
      using Cons.IH [of sp] step
      by (auto simp: rate_spaced_def elim!: sorted_wrt_mono_rel [rotated])
  next
    case False
    have iv: "effective_interval sp (c # cs) = effective_interval sp1 cs"
      using step False
      by (rule_tac ext)
         (auto simp: effective_interval_def first_interval_def rate_spec_step_def Let_def
           split: option.splits if_splits prod.splits)
    show ?thesis
    proof (cases b)
      case denied: False
      then have "sp1 = sp" using step False by (auto simp: rate_spec_step_def Let_def split: option.splits if_splits)
      moreover have "admitted (c # cs) (b # bs) = admitted cs bs" for bs
        using denied by (simp add: admitted_def)
      ultimately show ?thesis using Cons.IH [of sp] step iv by simp
    next
      case ok: True
      have ad: "admitted (c # cs) (b # bs) = (?k, ?t) # admitted cs bs" for bs
        using ok False by (simp add: admitted_def)
      have sp1: "sp1 = sp(?k \<mapsto> (effective_interval sp (c # cs) ?k, ?t))"
        using step False ok
        by (auto simp: rate_spec_step_def Let_def effective_interval_def first_interval_def
            split: option.splits if_splits)
      have first: "sp ?k = Some (d, u) \<Longrightarrow> 0 < d \<Longrightarrow> d \<le> ?t - u" for d u
        using step False ok by (auto simp: rate_spec_step_def Let_def split: if_splits)
      have spk: "sp1 ?k = Some (effective_interval sp (c # cs) ?k, ?t)" by (simp add: sp1)
      have spo: "k \<noteq> ?k \<Longrightarrow> sp1 k = sp k" for k by (simp add: sp1)
      have tail: "(k, t) \<in> set (admitted cs (rate_spec_run sp1 cs)) \<Longrightarrow>
          sp1 k = Some (d, u) \<Longrightarrow> 0 < d \<Longrightarrow> d \<le> t - u" for k t d u
        using Cons.IH [of sp1] by blast
      have later: "(?k, t) \<in> set (admitted cs (rate_spec_run sp1 cs)) \<Longrightarrow>
          0 < effective_interval sp (c # cs) ?k \<Longrightarrow> effective_interval sp (c # cs) ?k \<le> t - ?t" for t
        by (rule tail [OF _ spk])
      have others: "(k, t) \<in> set (admitted cs (rate_spec_run sp1 cs)) \<Longrightarrow> k \<noteq> ?k \<Longrightarrow>
          sp k = Some (d, u) \<Longrightarrow> 0 < d \<Longrightarrow> d \<le> t - u" for k t d u
        using tail [of k t d u] spo [of k] by simp
      have same: "(?k, t) \<in> set (admitted cs (rate_spec_run sp1 cs)) \<Longrightarrow>
          sp ?k = Some (d, u) \<Longrightarrow> 0 < d \<Longrightarrow> d \<le> t - u" for t d u
        using later [of t] first [of d u] by (simp add: effective_interval_def)
      have run: "rate_spec_run sp (c # cs) = b # rate_spec_run sp1 cs" using step by simp
      show ?thesis
        unfolding run ad rate_spaced_def iv
      proof (intro conjI ballI)
        have "rate_spaced (effective_interval sp1 cs) (admitted cs (rate_spec_run sp1 cs))"
          using Cons.IH [of sp1] by blast
        then show "sorted_wrt (\<lambda>(k, t) (k', t'). k = k' \<and> 0 < effective_interval sp1 cs k \<longrightarrow>
            effective_interval sp1 cs k \<le> t' - t) ((?k, ?t) # admitted cs (rate_spec_run sp1 cs))"
          using later by (auto simp: rate_spaced_def iv)
      next
        fix p assume "p \<in> set ((?k, ?t) # admitted cs (rate_spec_run sp1 cs))"
        then show "case p of (k, t) \<Rightarrow> \<forall>d u. sp k = Some (d, u) \<and> 0 < d \<longrightarrow> d \<le> t - u"
          using first same others by (cases p; cases "fst p = ?k") auto
      qed
    qed
  qed
qed

text \<open>
  One key, one emission per interval: while the keys in use fit the bound, any two admitted records of
  a key whose first interval is positive are at least that interval apart on the logger's clock.
\<close>

theorem rate_limit_spaces_admissions:
  assumes "token_bucket newL allowN lastOk per" "legal_rate_calls cs"
    and "int (card (rate_keys cs)) \<le> (if k \<le> 0 then 4096 else k)"
    and "rate_run newL allowN (newRateState k) cs = Some (ds, s')"
  shows "rate_spaced (first_interval cs) (admitted cs (map fst ds))"
proof -
  have abs: "token_bucket.rate_abs lastOk per (newRateState k) Map.empty"
    by (simp add: token_bucket.rate_abs_def [OF assms(1)] rate_new_bounded)
  have "map fst ds = rate_spec_run Map.empty cs"
    by (rule token_bucket.rate_run_refines [OF assms(1) fits_new [OF assms(3)] assms(2) subset_refl abs assms(4)])
  moreover have "effective_interval Map.empty cs = first_interval cs"
    by (rule ext) (simp add: effective_interval_def)
  ultimately show ?thesis using rate_spec_spaced [of Map.empty cs] by simp
qed

lemmas rate_eval = shouldLog_def rate_touch_def rate_create_def rate_decide_def rate_evictLocked_def
  newRateState_def WithRateLimit_def exact_new_def exact_allowN_def DefaultRateLimitMaxKeys_def Let_def word_sless_alt

theorem rate_limit_spaces_admissions_witness:
  "\<exists>ds s'. rate_run exact_new exact_allowN (newRateState 8) [rate_at 0 ''k'' 10, rate_at 9 ''k'' 10, rate_at 12 ''k'' 3] =
       Some (ds, s') \<and>
     admitted [rate_at 0 ''k'' 10, rate_at 9 ''k'' 10, rate_at 12 ''k'' 3] (map fst ds) = [(''k'', 0), (''k'', 12)] \<and>
     rate_spaced (first_interval [rate_at 0 ''k'' 10, rate_at 9 ''k'' 10, rate_at 12 ''k'' 3]) [(''k'', 0), (''k'', 12)]"
proof -
  let ?cs = "[rate_at 0 ''k'' 10, rate_at 9 ''k'' 10, rate_at 12 ''k'' 3]"
  have legal: "legal_rate_calls ?cs" by (simp add: legal_rate_calls_def)
  have fit: "int (card (rate_keys ?cs)) \<le> (if (8::int) \<le> 0 then 4096 else 8)"
    by (simp add: rate_keys_def WithRateLimit_def)
  obtain ds s' where run: "rate_run exact_new exact_allowN (newRateState 8) ?cs = Some (ds, s')"
    and ad: "admitted ?cs (map fst ds) = [(''k'', 0), (''k'', 12)]"
    by (simp add: rate_eval admitted_def)
  from rate_limit_spaces_admissions [OF exact_bucket.token_bucket_axioms legal fit run] run ad
  show ?thesis by auto
qed

section \<open>Suppressed counts\<close>

text \<open>Per key: records denied, counts reported on admitted records, and what is still to report, as the \<open>int64\<close> they are.\<close>

definition denied :: "bytes \<Rightarrow> rate_call list \<Rightarrow> rate_decision list \<Rightarrow> nat" where
  "denied k cs ds = length (filter (\<lambda>(c, d). rl_Key (rc_opt c) = k \<and> \<not> fst d) (zip cs ds))"

definition reported :: "bytes \<Rightarrow> rate_call list \<Rightarrow> rate_decision list \<Rightarrow> i64" where
  "reported k cs ds =
     sum_list (map (\<lambda>(c, (a, n, f)). if rl_Key (rc_opt c) = k \<and> f then n else 0) (zip cs ds))"

definition pending :: "'l rate_state \<Rightarrow> bytes \<Rightarrow> i64" where
  "pending s k = (case map_of (rs_limiters s) k of None \<Rightarrow> 0 | Some e \<Rightarrow> re_suppressed e)"

lemma rate_decide_count:
  "re_suppressed (snd (rate_decide allowN t e)) =
     re_suppressed e + (if fst (fst (rate_decide allowN t e)) then 0 else 1) -
     (if snd (snd (fst (rate_decide allowN t e))) then fst (snd (fst (rate_decide allowN t e))) else 0)"
  by (simp add: rate_decide_def Let_def split: option.split prod.split)

lemma rate_run_counts:
  assumes "fits K s" "legal_rate_calls cs" "rate_keys cs \<subseteq> K"
    and "rate_run newL allowN s cs = Some (ds, s')" "k \<noteq> []"
  shows "reported k cs ds + pending s' k = of_nat (denied k cs ds) + pending s k"
  using assms(1-4)
proof (induction cs arbitrary: s ds)
  case Nil
  then show ?case by (simp add: reported_def denied_def)
next
  case (Cons c cs)
  let ?o = "rc_opt c" and ?k = "rl_Key (rc_opt c)" and ?now = "rc_now c"
  from Cons.prems have legal: "reorders (rc_perm c)" "legal_rate_calls cs" and K: "rate_keys cs \<subseteq> K"
    by (auto simp: rate_keys_def)
  show ?case
  proof (cases "?k = []")
    case True
    from Cons.prems(4) obtain ds' where "rate_run newL allowN s cs = Some (ds', s')" "ds = (True, 0, False) # ds'"
      by (auto simp: rate_step_unkeyed [OF True] split: option.splits)
    with Cons.IH [OF Cons.prems(1) legal(2) K] show ?thesis
      by (simp add: reported_def denied_def)
  next
    case False
    then have "?k \<in> K" using Cons.prems(3) by (auto simp: rate_keys_def)
    from rate_step_fits [OF Cons.prems(1) legal(1) this False, of newL allowN ?now] obtain t e s1 where
      st: "shouldLog newL allowN (rc_perm c) ?now (Some s) (Some ?o) = Some (fst (rate_decide allowN t e), Some s1)"
        "map_of (rs_limiters s1) = (map_of (rs_limiters s))(?k \<mapsto> snd (rate_decide allowN t e))"
        "fits K s1" "rate_entry_for newL s ?o ?now t e"
      by blast
    have e: "re_suppressed e = pending s ?k"
      using st(4) by (auto simp: rate_entry_for_def pending_def split: option.splits)
    obtain a n f where d: "fst (rate_decide allowN t e) = (a, n, f)" by (metis surj_pair)
    have "pending s1 k = (if k = ?k then pending s k + (if a then 0 else 1) - (if f then n else 0) else pending s k)"
      using rate_decide_count [of allowN t e] st(2) e d by (simp add: pending_def)
    moreover from Cons.prems(4) st(1) d obtain ds' where
      "rate_run newL allowN s1 cs = Some (ds', s')" "ds = (a, n, f) # ds'"
      by (auto split: option.splits)
    ultimately show ?thesis
      using Cons.IH [OF st(3) legal(2) K] by (auto simp: reported_def denied_def algebra_simps)
  qed
qed

text \<open>
  C40. While no more keys are in use than the state tracks, so that nothing is evicted, no suppressed record is lost
  from the count and none is counted twice: for every key, the counts reported so far on admitted records and the
  count still held add up to the number of records denied, in the arithmetic of \<open>int64\<close>. This holds for any limiter
  whatever. An eviction may take an unreported count with it (\<open>rate_evict_keeps_debt\<close> says when it does not).
\<close>

theorem rate_limit_counts_exact:
  assumes "legal_rate_calls cs" "int (card (rate_keys cs)) \<le> (if m \<le> 0 then 4096 else m)"
    and "rate_run newL allowN (newRateState m) cs = Some (ds, s')" "k \<noteq> []"
  shows "reported k cs ds + pending s' k = of_nat (denied k cs ds)"
  using rate_run_counts [OF fits_new [OF assms(2)] assms(1) subset_refl assms(3,4)]
  by (simp add: pending_def rate_new_bounded)

theorem rate_limit_counts_exact_witness:
  "\<exists>ds s'. rate_run exact_new exact_allowN (newRateState 8)
       [rate_at 0 ''k'' 10, rate_at 1 ''k'' 10, rate_at 2 ''k'' 10, rate_at 30 ''k'' 10, rate_at 31 ''k'' 10] = Some (ds, s') \<and>
     ds = [(True, 0, False), (False, 0, False), (False, 0, False), (True, 2, True), (False, 0, False)] \<and>
     pending s' ''k'' = 1"
proof -
  let ?cs = "[rate_at 0 ''k'' 10, rate_at 1 ''k'' 10, rate_at 2 ''k'' 10, rate_at 30 ''k'' 10, rate_at 31 ''k'' 10]"
  let ?ds = "[(True, 0, False), (False, 0, False), (False, 0, False), (True, 2, True), (False, 0, False)] :: rate_decision list"
  have legal: "legal_rate_calls ?cs" by (simp add: legal_rate_calls_def)
  have fit: "int (card (rate_keys ?cs)) \<le> (if (8::int) \<le> 0 then 4096 else 8)"
    by (simp add: rate_keys_def WithRateLimit_def)
  obtain s' where run: "rate_run exact_new exact_allowN (newRateState 8) ?cs = Some (?ds, s')"
    by (simp add: rate_eval)
  have "''k'' \<noteq> ([] :: bytes)" by simp
  from rate_limit_counts_exact [OF legal fit run this] run show ?thesis
    by (simp add: reported_def denied_def WithRateLimit_def del: rate_run.simps)
qed

text \<open>The count goes on an admitted record only, and only when it is positive.\<close>

lemma rate_decide_field:
  "fst (rate_decide allowN t e) = (a, n, f) \<Longrightarrow> (f \<longrightarrow> a \<and> 0 <s n) \<and> (\<not> f \<longrightarrow> n \<le>s 0 \<or> \<not> a)"
  by (auto simp: rate_decide_def Let_def split: option.splits prod.splits if_splits)

text \<open>
  What the limit owes to a call's key: the records suppressed since its last emission, when the key is limited. A refusal
  adds one; an admitted record reports a positive debt, once.
\<close>

definition owed :: "'l rate_state option \<Rightarrow> rate_limit_opt option \<Rightarrow> i64" where
  "owed st opt =
     (case (st, opt) of
        (Some s, Some opt) \<Rightarrow>
          if rl_Key opt = [] then 0
          else (case map_of (rs_limiters s) (rl_Key opt) of
                  None \<Rightarrow> 0
                | Some e \<Rightarrow> (case re_limiter e of None \<Rightarrow> 0 | Some l \<Rightarrow> re_suppressed e))
      | _ \<Rightarrow> 0)"

lemma rate_touch_keeps:
  "rate_touch opt now e s = (t, e', s') \<Longrightarrow> re_limiter e' = re_limiter e \<and> re_suppressed e' = re_suppressed e"
  by (auto simp: rate_touch_def Let_def split: if_splits)

lemma rate_create_starts:
  "rate_create newL opt now s = (e, s') \<Longrightarrow> re_suppressed e = 0"
  by (auto simp: rate_create_def Let_def split: if_splits)

lemma rate_decide_owed:
  assumes "rate_decide allowN now e = ((allow, n, f), e')"
  shows "(case re_limiter e of
      None \<Rightarrow> allow \<and> \<not> f \<and> re_limiter e' = None
    | Some l \<Rightarrow> f = (allow \<and> 0 <s re_suppressed e) \<and> (f \<longrightarrow> n = re_suppressed e) \<and> re_limiter e' \<noteq> None \<and>
        re_suppressed e' =
          (if \<not> allow then re_suppressed e + 1 else if 0 <s re_suppressed e then 0 else re_suppressed e))"
  using assms by (auto simp: rate_decide_def Let_def split: option.splits prod.splits if_splits)

lemma shouldLog_owed:
  assumes "shouldLog newL allowN perm clock st opt = Some ((allow, n, f), st')"
  shows "f = (allow \<and> 0 <s owed st opt) \<and> (f \<longrightarrow> n = owed st opt) \<and>
    owed st' opt = (if \<not> allow then owed st opt + 1 else if 0 <s owed st opt then 0 else owed st opt)"
proof -
  consider (free) "(allow, n, f) = (True, 0, False)" "st' = st" "owed st opt = 0"
    | (known) s o1 e t e1 s1 e2 where "st = Some s" "opt = Some o1" "rl_Key o1 \<noteq> []"
        "map_of (rs_limiters s) (rl_Key o1) = Some e" "rate_touch o1 clock e s = (t, e1, s1)"
        "rate_decide allowN t e1 = ((allow, n, f), e2)"
        "st' = Some (s1\<lparr>rs_limiters := AList.update (rl_Key o1) e2 (rs_limiters s1)\<rparr>)"
    | (new) s o1 s0 e1 s1 e2 where "st = Some s" "opt = Some o1" "rl_Key o1 \<noteq> []"
        "map_of (rs_limiters s) (rl_Key o1) = None" "rate_create newL o1 clock s0 = (e1, s1)"
        "rate_decide allowN clock e1 = ((allow, n, f), e2)"
        "st' = Some (s1\<lparr>rs_limiters := AList.update (rl_Key o1) e2 (rs_limiters s1)\<rparr>)"
    using assms
    by (auto simp: shouldLog_def owed_def Let_def split: option.splits prod.splits if_splits)
  then show ?thesis
  proof cases
    case known
    then show ?thesis
      using rate_decide_owed [OF known(6)] rate_touch_keeps [OF known(5)]
      by (auto simp: owed_def AList.update_conv' split: option.splits)
  next
    case new
    then show ?thesis
      using rate_decide_owed [OF new(6)] rate_create_starts [OF new(5)]
      by (auto simp: owed_def AList.update_conv' split: option.splits)
  qed simp
qed

section \<open>Eviction and suppression debt\<close>

text \<open>
  A pass that finds enough entries without further use forgets nothing an operator could observe:
  when fewer than \<open>maxKeys\<close> entries remain after the first loop, every entry that holds an unreported
  count, and every entry whose interval has not elapsed, is kept as it is.
\<close>

theorem rate_evict_keeps_debt:
  assumes "wf_map (rs_limiters s)" "int (length (drop_dead (rate_dead now) (rs_limiters s))) < rs_maxKeys s"
    and "map_of (rs_limiters s) k = Some e" "re_suppressed e \<noteq> 0 \<or> max 0 (time_Sub now (re_lastSeen e)) < re_interval e"
  shows "\<exists>s'. rate_evictLocked perm now s = Some s' \<and> map_of (rs_limiters s') k = Some e"
proof -
  have "\<not> rate_dead now e"
    using assms(4) by (auto simp: rate_dead_def Let_def max_def split: if_splits)
  then have "map_of (drop_dead (rate_dead now) (rs_limiters s)) k = Some e"
    using assms(1,3) by (simp add: drop_dead_def map_of_filter_wf)
  with assms(2,3) show ?thesis by (simp add: rate_evictLocked_def Let_def)
qed

theorem rate_evict_keeps_debt_witness:
  "let e = (\<lambda>d n. \<lparr>re_limiter = Some (), re_interval = d, re_suppressed = n, re_lastSeen = 0, re_conflictWarned = False\<rparr>);
       s = (newRateState 2 :: unit rate_state)\<lparr>rs_limiters := [(''a'', e 5 3), (''b'', e 5 0)]\<rparr>
   in \<exists>s'. rate_evictLocked (\<lambda>ks. ks) 100 s = Some s' \<and> map_of (rs_limiters s') ''a'' = Some (e 5 3)"
proof -
  let ?e = "\<lambda>d n. \<lparr>re_limiter = Some (), re_interval = d, re_suppressed = n, re_lastSeen = 0, re_conflictWarned = False\<rparr>"
  let ?s = "(newRateState 2)\<lparr>rs_limiters := [(''a'', ?e 5 3), (''b'', ?e 5 0)]\<rparr>"
  have "wf_map (rs_limiters ?s)" by (simp add: wf_map_def)
  moreover have "int (length (drop_dead (rate_dead 100) (rs_limiters ?s))) < rs_maxKeys ?s"
    by (simp add: newRateState_def drop_dead_def rate_dead_def time_Sub_def maxDuration_def minDuration_def Let_def)
  moreover have "map_of (rs_limiters ?s) ''a'' = Some (?e 5 3)" by simp
  ultimately show ?thesis
    using rate_evict_keeps_debt [of ?s 100 "''a''" "?e 5 3" "\<lambda>ks. ks"] by (simp add: Let_def)
qed

section \<open>Options of a call\<close>

fun plain_args :: "'a log_arg list \<Rightarrow> 'a list" where
  "plain_args [] = []"
| "plain_args (ArgOther a # args) = a # plain_args args"
| "plain_args (_ # args) = plain_args args"

definition last_opt :: "('b \<Rightarrow> 'c option) \<Rightarrow> 'b list \<Rightarrow> 'c option" where
  "last_opt f xs = (case List.map_filter f xs of [] \<Rightarrow> None | ys \<Rightarrow> Some (last ys))"

definition rate_opt_of :: "'a log_arg \<Rightarrow> rate_limit_opt option" where
  "rate_opt_of x = (case x of ArgRateLimit opt \<Rightarrow> Some opt | _ \<Rightarrow> None)"

definition counter_opt_of :: "'a log_arg \<Rightarrow> counter_opt option" where
  "counter_opt_of x = (case x of ArgCounter opt \<Rightarrow> Some opt | _ \<Rightarrow> None)"

lemma last_opt_Cons:
  "last_opt f (x # xs) = (case last_opt f xs of None \<Rightarrow> f x | Some y \<Rightarrow> Some y)"
  by (auto simp: last_opt_def List.map_filter_simps split: option.splits list.splits)

lemma extract_loop_eq:
  "extract_loop args fs rl co =
     (fs @ plain_args args,
      (case last_opt rate_opt_of args of None \<Rightarrow> rl | Some opt \<Rightarrow> Some opt),
      (case last_opt counter_opt_of args of None \<Rightarrow> co | Some opt \<Rightarrow> Some opt))"
proof (induction args fs rl co rule: extract_loop.induct)
  case (1 fs rl co)
  then show ?case by (simp add: last_opt_def List.map_filter_simps)
qed (auto simp: last_opt_Cons rate_opt_of_def counter_opt_of_def split: option.splits)

text \<open>
  \<open>extractLogOptions\<close> keeps every argument that is not an option, in order and once, and the last
  option of each type wins.
\<close>

theorem extract_options_correct:
  "extractLogOptions args = (plain_args args, last_opt rate_opt_of args, last_opt counter_opt_of args)"
  by (auto simp: extractLogOptions_def extract_loop_eq split: option.splits)

end
