(* ===== verification/Logger.thy ===== *)
theory Logger
  imports Config RateState
begin

text \<open>
  \<open>slog_logger.go\<close> and \<open>context_extracto.go\<close>: the logger, from the arguments of a log call to the handler chain.

  What loggers derived from one another share by pointer is in the world: the rate limit's state, the lifecycle group
  and the chain's world, the first two \<open>None\<close> where a logger built by hand has nil. A call runs in one piece; what it
  reads from outside (clocks, random choices, the call stack) comes with it. \<open>None\<close> is a panic.
\<close>

text \<open>An argument of a log call: a Go value, or one of the options.\<close>

type_synonym go_arg = "go_value log_arg"

section \<open>The logger\<close>

record 't slog_logger =
  sl_handler :: "'t chain"
  sl_levelVar :: bool
  sl_counterHook :: bool
  sl_contextFields :: "extractor option"
  sl_callerSkip :: int

record ('t, 'l) log_world =
  lw_chain :: "'t chain_world"
  lw_rate :: "'l rate_state option"
  lw_lifecycle :: "'t chain lifecycle_group option"
  lw_incs :: "bytes list"
  lw_extractor :: "extractor option"

record ('t, 'l) log_env =
  le_chain :: "'t chain_env"
  le_newL :: "duration \<Rightarrow> 'l"
  le_allowN :: "'l \<Rightarrow> time \<Rightarrow> bool \<times> 'l"

text \<open>What a call reads: the rate limit's clock and map order, the record's time, the samplers' inputs, the stack.\<close>

record log_input =
  li_perm :: "bytes list \<Rightarrow> bytes list"
  li_clock :: time
  li_now :: time
  li_samplers :: "nat \<Rightarrow> sampling_env"
  li_stack :: "nat list"

definition ctx_Background :: ctx where
  "ctx_Background = 0"

definition orBackground :: "ctx option \<Rightarrow> ctx" where
  "orBackground ctx = (case ctx of None \<Rightarrow> ctx_Background | Some c \<Rightarrow> c)"

text \<open>
  The program counters on the stack, innermost first: \<open>runtime.Callers\<close>, \<open>callerPC\<close>, the exported method, and
  then the consumer's frames.
\<close>

definition callerPCSkip :: int where
  "callerPCSkip = 3"

definition callerPC :: "nat list \<Rightarrow> int \<Rightarrow> nat" where
  "callerPC stack extra =
     (let i = nat (callerPCSkip + extra) in if i < length stack then stack ! i else 0)"

definition contextFieldExtractor :: "('t, 'l) log_world \<Rightarrow> extractor option" where
  "contextFieldExtractor w = lw_extractor w"

definition SetContextFieldExtractor :: "extractor option \<Rightarrow> ('t, 'l) log_world \<Rightarrow> ('t, 'l) log_world" where
  "SetContextFieldExtractor f w =
     (case f of None \<Rightarrow> w\<lparr>lw_extractor := None\<rparr> | Some f \<Rightarrow> w\<lparr>lw_extractor := Some f\<rparr>)"

definition contextAttrs :: "'t slog_logger \<Rightarrow> ctx \<Rightarrow> ('t, 'l) log_world \<Rightarrow> go_value list" where
  "contextAttrs l ctx w =
     (let extract = sl_contextFields l;
          extract = (if extract = None then contextFieldExtractor w else extract)
      in case extract of None \<Rightarrow> [] | Some f \<Rightarrow> f ctx)"

definition emit ::
  "('t, 'l) log_env \<Rightarrow> log_input \<Rightarrow> 't slog_logger \<Rightarrow> ctx \<Rightarrow> nat \<Rightarrow> int \<Rightarrow> bytes \<Rightarrow> go_value list \<Rightarrow>
   ('t, 'l) log_world \<Rightarrow> ('t, 'l) log_world option" where
  "emit E i l ctx pc level msg args w =
     (let record = NewRecord (li_now i) level msg pc;
          record = AddAttrs record (argsToAttrs args)
      in case chain_Handle (le_chain E) (li_samplers i) ctx (sl_handler l) record (lw_chain w) of
           None \<Rightarrow> None
         | Some (cw, err) \<Rightarrow> Some (w\<lparr>lw_chain := cw\<rparr>))"

definition emitContext ::
  "('t, 'l) log_env \<Rightarrow> log_input \<Rightarrow> 't slog_logger \<Rightarrow> ctx \<Rightarrow> nat \<Rightarrow> int \<Rightarrow> bytes \<Rightarrow> go_value list \<Rightarrow>
   ('t, 'l) log_world \<Rightarrow> ('t, 'l) log_world option" where
  "emitContext E i l ctx pc level msg args w =
     (let fields = contextAttrs l ctx w;
          args = (if length fields > 0 then args @ fields else args)
      in emit E i l ctx pc level msg args w)"

definition logRateAware ::
  "('t, 'l) log_env \<Rightarrow> log_input \<Rightarrow> 't slog_logger \<Rightarrow> go_arg list \<Rightarrow>
   (go_value list \<Rightarrow> ('t, 'l) log_world \<Rightarrow> ('t, 'l) log_world option) \<Rightarrow>
   ('t, 'l) log_world \<Rightarrow> ('t, 'l) log_world option" where
  "logRateAware E i l args emit_fn w =
     (if isStopping (lw_lifecycle w) then Some (w\<lparr>lw_lifecycle := rejectRecord (lw_lifecycle w)\<rparr>)
      else (let (filtered, rateLimit, counter) = extractLogOptions args in
        case shouldLog (le_newL E) (le_allowN E) (li_perm i) (li_clock i) (lw_rate w) rateLimit of
          None \<Rightarrow> None
        | Some ((allow, suppressed, addSuppressedField), rate) \<Rightarrow>
            (let w = w\<lparr>lw_rate := rate\<rparr> in
             if \<not> allow then Some w
             else (let filtered = (if addSuppressedField
                                   then filtered @ [GoString ''suppressed_count'', GoOther (Int64Value (sint suppressed))]
                                   else filtered) in
               case emit_fn filtered w of
                 None \<Rightarrow> None
               | Some w \<Rightarrow>
                   (case counter of
                      Some c \<Rightarrow> if co_MetricName c \<noteq> [] \<and> sl_counterHook l
                                then Some (w\<lparr>lw_incs := lw_incs w @ [co_MetricName c]\<rparr>) else Some w
                    | None \<Rightarrow> Some w)))))"

definition logger_Enabled :: "('t, 'l) log_env \<Rightarrow> 't slog_logger \<Rightarrow> int \<Rightarrow> ('t, 'l) log_world \<Rightarrow> bool" where
  "logger_Enabled E l level w = chain_Enabled (le_chain E) (cw_level (lw_chain w)) (sl_handler l) level"

text \<open>The body the exported methods share: the level check, the call site, and \<open>logRateAware\<close> around \<open>emit_fn\<close>.\<close>

definition log_method ::
  "('t, 'l) log_env \<Rightarrow> log_input \<Rightarrow> 't slog_logger \<Rightarrow> int \<Rightarrow> go_arg list \<Rightarrow>
   (nat \<Rightarrow> go_value list \<Rightarrow> ('t, 'l) log_world \<Rightarrow> ('t, 'l) log_world option) \<Rightarrow>
   ('t, 'l) log_world \<Rightarrow> ('t, 'l) log_world option" where
  "log_method E i l level args emit_fn w =
     (if \<not> logger_Enabled E l level w then Some w
      else (let pc = callerPC (li_stack i) (sl_callerSkip l)
            in logRateAware E i l args (emit_fn pc) w))"

definition SlogLogger_Debug where
  "SlogLogger_Debug E i l msg args =
     (let ctx = ctx_Background in log_method E i l LevelDebug args (\<lambda>pc filtered. emit E i l ctx pc LevelDebug msg filtered))"

definition SlogLogger_Info where
  "SlogLogger_Info E i l msg args =
     (let ctx = ctx_Background in log_method E i l LevelInfo args (\<lambda>pc filtered. emit E i l ctx pc LevelInfo msg filtered))"

definition SlogLogger_Warn where
  "SlogLogger_Warn E i l msg args =
     (let ctx = ctx_Background in log_method E i l LevelWarn args (\<lambda>pc filtered. emit E i l ctx pc LevelWarn msg filtered))"

definition SlogLogger_Error where
  "SlogLogger_Error E i l msg args =
     (let ctx = ctx_Background in log_method E i l LevelError args (\<lambda>pc filtered. emit E i l ctx pc LevelError msg filtered))"

definition SlogLogger_Log where
  "SlogLogger_Log E i l ctx level msg args =
     (let ctx = orBackground ctx in log_method E i l level args (\<lambda>pc filtered. emitContext E i l ctx pc level msg filtered))"

definition SlogLogger_DebugContext where
  "SlogLogger_DebugContext E i l ctx msg args =
     (let ctx = orBackground ctx
      in log_method E i l LevelDebug args (\<lambda>pc filtered. emitContext E i l ctx pc LevelDebug msg filtered))"

definition SlogLogger_InfoContext where
  "SlogLogger_InfoContext E i l ctx msg args =
     (let ctx = orBackground ctx
      in log_method E i l LevelInfo args (\<lambda>pc filtered. emitContext E i l ctx pc LevelInfo msg filtered))"

definition SlogLogger_WarnContext where
  "SlogLogger_WarnContext E i l ctx msg args =
     (let ctx = orBackground ctx
      in log_method E i l LevelWarn args (\<lambda>pc filtered. emitContext E i l ctx pc LevelWarn msg filtered))"

definition SlogLogger_ErrorContext where
  "SlogLogger_ErrorContext E i l ctx msg args =
     (let ctx = orBackground ctx
      in log_method E i l LevelError args (\<lambda>pc filtered. emitContext E i l ctx pc LevelError msg filtered))"

section \<open>Deriving loggers\<close>

text \<open>\<open>slog.Logger.With\<close> keeps the logger when there are no arguments.\<close>

definition slog_With :: "'t chain_env \<Rightarrow> 't chain \<Rightarrow> go_value list \<Rightarrow> 't chain" where
  "slog_With E h args = (if args = [] then h else chain_WithAttrs E h (argsToAttrs args))"

definition SlogLogger_With :: "('t, 'l) log_env \<Rightarrow> 't slog_logger \<Rightarrow> go_arg list \<Rightarrow> 't slog_logger" where
  "SlogLogger_With E l args =
     (let (filtered, _, _) = extractLogOptions args
      in \<lparr>sl_handler = slog_With (le_chain E) (sl_handler l) filtered, sl_levelVar = sl_levelVar l,
          sl_counterHook = sl_counterHook l, sl_contextFields = sl_contextFields l, sl_callerSkip = sl_callerSkip l\<rparr>)"

definition WithCallerSkip :: "'t slog_logger \<Rightarrow> int \<Rightarrow> 't slog_logger" where
  "WithCallerSkip l n = (if n \<le> 0 then l else l\<lparr>sl_callerSkip := sl_callerSkip l + n\<rparr>)"

definition SlogLogger_WithContext ::
  "('t, 'l) log_env \<Rightarrow> 't slog_logger \<Rightarrow> ctx \<Rightarrow> ('t, 'l) log_world \<Rightarrow> 't slog_logger" where
  "SlogLogger_WithContext E l ctx w =
     (let fields = contextAttrs l ctx w
      in if length fields = 0 then l else SlogLogger_With E l (map ArgOther fields))"

section \<open>Level and counters\<close>

definition SlogLogger_SetLevel :: "'t slog_logger \<Rightarrow> int \<Rightarrow> ('t, 'l) log_world \<Rightarrow> ('t, 'l) log_world" where
  "SlogLogger_SetLevel l level w =
     (if sl_levelVar l then w\<lparr>lw_chain := (lw_chain w)\<lparr>cw_level := level\<rparr>\<rparr> else w)"

definition SlogLogger_Rejected :: "('t, 'l) log_world \<Rightarrow> u64" where
  "SlogLogger_Rejected w = rejectedCount (lw_lifecycle w)"

definition RateLimitEvicted :: "('t, 'l) log_world \<Rightarrow> u64" where
  "RateLimitEvicted w = (case lw_rate w of None \<Rightarrow> 0 | Some s \<Rightarrow> rs_evicted s)"

definition RateLimitTrackedKeys :: "('t, 'l) log_world \<Rightarrow> nat" where
  "RateLimitTrackedKeys w = (case lw_rate w of None \<Rightarrow> 0 | Some s \<Rightarrow> length (rs_limiters s))"

definition RateLimitInvalid :: "('t, 'l) log_world \<Rightarrow> u64" where
  "RateLimitInvalid w = (case lw_rate w of None \<Rightarrow> 0 | Some s \<Rightarrow> rs_invalidConfigs s)"

definition RateLimitConflicts :: "('t, 'l) log_world \<Rightarrow> u64" where
  "RateLimitConflicts w = (case lw_rate w of None \<Rightarrow> 0 | Some s \<Rightarrow> rs_conflicts s)"

section \<open>New\<close>

text \<open>
  What \<open>NewWithError\<close> sets up in the world: the level, the sampler under number \<open>k\<close> and the buffer under \<open>b\<close>.
\<close>

definition new_world ::
  "(bytes \<Rightarrow> bytes) \<Rightarrow> nat \<Rightarrow> nat \<Rightarrow> 't config \<Rightarrow> 't chain_world \<Rightarrow> 't chain_world" where
  "new_world lower k b cfg w =
     (let level = fst (resolveLevel lower ''Level'' (cfg_Level cfg) (cfg_LevelString cfg))
      in w\<lparr>cw_level := slogLevel level,
           cw_sampling := (cw_sampling w)(k := snd (NewSamplingHandler () (sampling_config_of lower cfg))),
           cw_cores := (cw_cores w)(b := NewBufferedCore (cfg_BufferSize cfg))\<rparr>)"

text \<open>The record that \<open>LogInitialization\<close> emits, through \<open>slog.Logger\<close> itself; \<open>pc\<close> is a frame of \<open>New\<close>.\<close>

definition init_record :: "time \<Rightarrow> nat \<Rightarrow> level \<Rightarrow> format \<Rightarrow> slog_record" where
  "init_record now pc level format =
     AddAttrs (NewRecord now LevelInfo ''Logger initialized'' pc)
       [Attr ''config'' (GroupValue [String ''level'' (Level_String level), String ''format'' (Format_String format)])]"

definition log_initialization ::
  "('t, 'l) log_env \<Rightarrow> log_input \<Rightarrow> 't chain \<Rightarrow> slog_record \<Rightarrow> 't chain_world \<Rightarrow> 't chain_world option" where
  "log_initialization E i h r w =
     (if chain_Enabled (le_chain E) (cw_level w) h (r_level r)
      then map_option fst (chain_Handle (le_chain E) (li_samplers i) ctx_Background h r w)
      else Some w)"

definition NewWithError ::
  "(bytes \<Rightarrow> bytes) \<Rightarrow> 't terminals \<Rightarrow> ('t \<Rightarrow> bool) \<Rightarrow> ('t, 'l) log_env \<Rightarrow> log_input \<Rightarrow> nat \<Rightarrow> nat \<Rightarrow> nat \<Rightarrow>
   't config \<Rightarrow> bool \<Rightarrow> extractor option \<Rightarrow> 't chain_world \<Rightarrow>
   ('t slog_logger \<times> ('t, 'l) log_world \<times> validate_error list \<times> metrics_error option) option" where
  "NewWithError lower te fl E i pc k b cfg hook ext w =
     (let level = fst (resolveLevel lower ''Level'' (cfg_Level cfg) (cfg_LevelString cfg));
          format = fst (resolveFormat lower ''Format'' (cfg_Format cfg) (cfg_FormatString cfg));
          (h, lifecycleHandlers, metricsErr) = new_chain lower te fl k b cfg;
          w = new_world lower k b cfg w
      in case (if cfg_LogInitialization cfg
               then log_initialization E i h (init_record (li_now i) pc level format) w else Some w) of
           None \<Rightarrow> None
         | Some w \<Rightarrow>
             Some (\<lparr>sl_handler = h, sl_levelVar = True, sl_counterHook = hook,
                    sl_contextFields = cfg_ContextFields cfg, sl_callerSkip = 0\<rparr>,
                   \<lparr>lw_chain = w, lw_rate = Some (newRateState (cfg_RateLimitMaxKeys cfg)),
                    lw_lifecycle = Some (newLifecycleGroup lifecycleHandlers), lw_incs = [], lw_extractor = ext\<rparr>,
                   Config_Validate lower cfg, metricsErr))"

lemmas log_method_defs = SlogLogger_Debug_def SlogLogger_Info_def SlogLogger_Warn_def SlogLogger_Error_def
  SlogLogger_Log_def SlogLogger_DebugContext_def SlogLogger_InfoContext_def SlogLogger_WarnContext_def
  SlogLogger_ErrorContext_def

section \<open>What a call does\<close>

datatype log_outcome = Disabled | Refused | RateLimited | Emitted

definition log_outcome ::
  "('t, 'l) log_env \<Rightarrow> log_input \<Rightarrow> 't slog_logger \<Rightarrow> int \<Rightarrow> go_arg list \<Rightarrow> ('t, 'l) log_world \<Rightarrow> log_outcome" where
  "log_outcome E i l level args w =
     (if \<not> logger_Enabled E l level w then Disabled
      else if isStopping (lw_lifecycle w) then Refused
      else (case shouldLog (le_newL E) (le_allowN E) (li_perm i) (li_clock i) (lw_rate w)
                   (last_opt rate_opt_of args) of
              Some ((True, _, _), _) \<Rightarrow> Emitted
            | _ \<Rightarrow> RateLimited))"

text \<open>The field that reports \<open>n\<close> records suppressed since the key's last record.\<close>

definition suppressed_field :: "i64 \<Rightarrow> go_value list" where
  "suppressed_field n = (if 0 <s n then [GoString ''suppressed_count'', GoOther (Int64Value (sint n))] else [])"

definition counted :: "'t slog_logger \<Rightarrow> go_arg list \<Rightarrow> bytes list" where
  "counted l args =
     (case last_opt counter_opt_of args of
        Some c \<Rightarrow> if co_MetricName c \<noteq> [] \<and> sl_counterHook l then [co_MetricName c] else []
      | None \<Rightarrow> [])"

definition log_line ::
  "log_input \<Rightarrow> 't slog_logger \<Rightarrow> int \<Rightarrow> bytes \<Rightarrow> go_value list \<Rightarrow> slog_record" where
  "log_line i l level msg args =
     fresh_record (NewRecord (li_now i) level msg (callerPC (li_stack i) (sl_callerSkip l))) (argsToAttrs args)"

lemma extract_options: "extractLogOptions args = (plain_args args, last_opt rate_opt_of args, last_opt counter_opt_of args)"
  by (auto simp: extractLogOptions_def extract_loop_eq split: option.splits)

lemma emit_line:
  "emit E i l ctx (callerPC (li_stack i) (sl_callerSkip l)) level msg args w =
     map_option (\<lambda>(cw, err). w\<lparr>lw_chain := cw\<rparr>)
       (chain_Handle (le_chain E) (li_samplers i) ctx (sl_handler l) (log_line i l level msg args) (lw_chain w))"
  by (simp add: emit_def log_line_def fresh_record_def NewRecord_def Let_def split: option.splits prod.splits)

text \<open>
  The effect of one call, written out. The rate limit's next state is the one its decision leaves; what it owes to the
  call's key grows by one when it refuses, and is reported and cleared when it admits.
\<close>

definition log_effect ::
  "('t, 'l) log_env \<Rightarrow> log_input \<Rightarrow> 't slog_logger \<Rightarrow> ctx \<Rightarrow> int \<Rightarrow> bytes \<Rightarrow> go_arg list \<Rightarrow> go_value list \<Rightarrow>
   ('t, 'l) log_world \<Rightarrow> ('t, 'l) log_world \<Rightarrow> bool" where
  "log_effect E i l ctx level msg args extra w w' \<longleftrightarrow>
     (let limit = last_opt rate_opt_of args; debt = owed (lw_rate w) limit;
          decided = (\<lambda>rate. map_option snd (shouldLog (le_newL E) (le_allowN E) (li_perm i) (li_clock i) (lw_rate w) limit)
            = Some rate)
      in case log_outcome E i l level args w of
        Disabled \<Rightarrow> w' = w
      | Refused \<Rightarrow> w' = w\<lparr>lw_lifecycle := rejectRecord (lw_lifecycle w)\<rparr>
      | RateLimited \<Rightarrow> (\<exists>rate. w' = w\<lparr>lw_rate := rate\<rparr> \<and> decided rate \<and> owed rate limit = debt + 1)
      | Emitted \<Rightarrow>
          (\<exists>rate cw err. w' = w\<lparr>lw_rate := rate, lw_chain := cw, lw_incs := lw_incs w @ counted l args\<rparr> \<and>
             decided rate \<and> owed rate limit = (if 0 <s debt then 0 else debt) \<and>
             chain_Handle (le_chain E) (li_samplers i) ctx (sl_handler l)
               (log_line i l level msg (plain_args args @ suppressed_field debt @ extra)) (lw_chain w) =
             Some (cw, err)))"

lemma logRateAware_effect:
  assumes "logRateAware E i l args (\<lambda>fs. emit E i l ctx (callerPC (li_stack i) (sl_callerSkip l)) level msg (fs @ extra)) w
      = Some w'" "logger_Enabled E l level w"
  shows "log_effect E i l ctx level msg args extra w w'"
proof (cases "isStopping (lw_lifecycle w)")
  case True
  with assms show ?thesis by (auto simp: log_effect_def log_outcome_def logRateAware_def Let_def)
next
  case False
  with assms(1) obtain allow n f rate where
    d: "shouldLog (le_newL E) (le_allowN E) (li_perm i) (li_clock i) (lw_rate w) (last_opt rate_opt_of args) =
      Some ((allow, n, f), rate)"
    by (auto simp: logRateAware_def extract_options Let_def split: option.splits)
  from shouldLog_owed [OF d] have f: "f = (allow \<and> 0 <s owed (lw_rate w) (last_opt rate_opt_of args))"
    "f \<Longrightarrow> n = owed (lw_rate w) (last_opt rate_opt_of args)" by simp_all
  show ?thesis
    using assms False d f shouldLog_owed [OF d]
    by (auto simp: log_effect_def log_outcome_def suppressed_field_def counted_def logRateAware_def extract_options
        emit_line Let_def split: if_splits option.splits prod.splits bool.splits)
qed

lemma contextAttrs_rate [simp]: "contextAttrs l ctx (w\<lparr>lw_rate := rate\<rparr>) = contextAttrs l ctx w"
  by (simp add: contextAttrs_def contextFieldExtractor_def Let_def)

lemma emitContext_emit: "emitContext E i l ctx pc level msg fs w = emit E i l ctx pc level msg (fs @ contextAttrs l ctx w) w"
  by (simp add: emitContext_def Let_def)

lemma logRateAware_context:
  "logRateAware E i l args (\<lambda>fs. emitContext E i l ctx pc level msg fs) w =
   logRateAware E i l args (\<lambda>fs. emit E i l ctx pc level msg (fs @ contextAttrs l ctx w)) w"
  by (simp add: logRateAware_def emitContext_emit Let_def split: option.splits prod.splits)

lemma plain_call_effect:
  assumes "log_method E i l level args (\<lambda>pc fs. emit E i l ctx pc level msg fs) w = Some w'"
  shows "log_effect E i l ctx level msg args [] w w'"
proof (cases "logger_Enabled E l level w")
  case True
  with assms logRateAware_effect [of E i l args ctx level msg "[]" w w'] show ?thesis
    by (simp add: log_method_def Let_def)
qed (use assms in \<open>simp add: log_method_def log_effect_def log_outcome_def Let_def\<close>)

lemma context_call_effect:
  assumes "SlogLogger_Log E i l ctx level msg args w = Some w'"
  shows "log_effect E i l (orBackground ctx) level msg args (contextAttrs l (orBackground ctx) w) w w'"
proof (cases "logger_Enabled E l level w")
  case True
  with assms show ?thesis
    by (intro logRateAware_effect) (simp_all add: SlogLogger_Log_def log_method_def logRateAware_context Let_def)
qed (use assms in \<open>simp add: SlogLogger_Log_def log_method_def log_effect_def log_outcome_def Let_def\<close>)

text \<open>
  C17. A call of \<open>Log\<close> that returns has done exactly one of four things. Below the level it changes nothing at all. After
  shutdown began it only counts one refusal. Suppressed by the rate limit, it only moves the limit to the state its
  decision leaves, where the debt of the call's key is one more. Otherwise it hands exactly one record, with the call's
  level, message and call site, to the handler chain and counts its metric once; the record's attrs are the call's arguments,
  then \<open>suppressed_count\<close> with the debt when that is positive, then the context's attrs, and the debt is cleared.
\<close>

theorem log_call_exact:
  assumes "SlogLogger_Log E i l ctx level msg args w = Some w'"
  shows "log_effect E i l (orBackground ctx) level msg args (contextAttrs l (orBackground ctx) w) w w'"
  by (rule context_call_effect [OF assms])

section \<open>Accounting\<close>

type_synonym 't log_call = "log_input \<times> 't slog_logger \<times> ctx option \<times> int \<times> bytes \<times> go_arg list"

text \<open>A history of calls on any loggers that share a world, with the outcome of each.\<close>

fun log_calls ::
  "('t, 'l) log_env \<Rightarrow> ('t, 'l) log_world \<Rightarrow> 't log_call list \<Rightarrow> (log_outcome list \<times> ('t, 'l) log_world) option" where
  "log_calls E w [] = Some ([], w)"
| "log_calls E w ((i, l, ctx, level, msg, args) # cs) =
     (case SlogLogger_Log E i l ctx level msg args w of
        None \<Rightarrow> None
      | Some w' \<Rightarrow> map_option (\<lambda>(os, w''). (log_outcome E i l level args w # os, w'')) (log_calls E w' cs))"

lemma log_effect_counts:
  assumes "log_effect E i l ctx level msg args extra w w'"
  shows "SlogLogger_Rejected w' = SlogLogger_Rejected w + (if log_outcome E i l level args w = Refused then 1 else 0)"
    and "log_outcome E i l level args w \<noteq> Emitted \<Longrightarrow> lw_chain w' = lw_chain w \<and> lw_incs w' = lw_incs w"
    and "length (lw_incs w') \<le> length (lw_incs w) + (if log_outcome E i l level args w = Emitted then 1 else 0)"
proof -
  have stop: "lw_lifecycle w \<noteq> None" if "log_outcome E i l level args w = Refused"
    using that by (auto simp: log_outcome_def isStopping_def split: if_splits option.splits prod.splits bool.splits)
  show "SlogLogger_Rejected w' = SlogLogger_Rejected w + (if log_outcome E i l level args w = Refused then 1 else 0)"
    using assms stop
    by (cases "log_outcome E i l level args w")
       (auto simp: log_effect_def Let_def SlogLogger_Rejected_def rejectedCount_def rejectRecord_def split: option.splits)
  show "log_outcome E i l level args w \<noteq> Emitted \<Longrightarrow> lw_chain w' = lw_chain w \<and> lw_incs w' = lw_incs w"
    using assms by (cases "log_outcome E i l level args w") (auto simp: log_effect_def Let_def)
  show "length (lw_incs w') \<le> length (lw_incs w) + (if log_outcome E i l level args w = Emitted then 1 else 0)"
    using assms
    by (cases "log_outcome E i l level args w") (auto simp: log_effect_def Let_def counted_def split: option.splits)
qed

lemma log_calls_counts:
  "log_calls E w cs = Some (os, w') \<Longrightarrow>
    length os = length cs \<and> SlogLogger_Rejected w' = SlogLogger_Rejected w + of_nat (count_list os Refused) \<and>
    length (lw_incs w') \<le> length (lw_incs w) + count_list os Emitted \<and>
    (Emitted \<notin> set os \<longrightarrow> lw_chain w' = lw_chain w)"
proof (induction E w cs arbitrary: os w' rule: log_calls.induct)
  case (2 E w i l ctx level msg args cs)
  from 2(2) obtain w1 os1 where step: "SlogLogger_Log E i l ctx level msg args w = Some w1"
    and rest: "log_calls E w1 cs = Some (os1, w')" and os: "os = log_outcome E i l level args w # os1"
    by (auto split: option.splits)
  note eff = log_effect_counts [OF context_call_effect [OF step]]
  from 2(1) [OF step rest] eff show ?case by (auto simp: os)
qed simp

text \<open>
  C23. Every submitted record is accounted for: each call has one outcome, the refusals are exactly what \<open>Rejected\<close>
  counts (until the counter wraps), a metric is counted at most once per emitted call, and calls that are not emitted
  leave the handler chain alone.
\<close>

theorem log_accounting:
  assumes "log_calls E w cs = Some (os, w')"
  shows "length os = length cs \<and> SlogLogger_Rejected w' = SlogLogger_Rejected w + of_nat (count_list os Refused) \<and>
    length (lw_incs w') \<le> length (lw_incs w) + count_list os Emitted \<and>
    (Emitted \<notin> set os \<longrightarrow> lw_chain w' = lw_chain w)"
  by (rule log_calls_counts [OF assms])

section \<open>The call site\<close>

lemma With_callerSkip [simp]: "sl_callerSkip (SlogLogger_With E l args) = sl_callerSkip l"
  by (simp add: SlogLogger_With_def extract_options)

lemma WithCallerSkip_adds: "sl_callerSkip (WithCallerSkip l n) = sl_callerSkip l + max 0 n"
  by (simp add: WithCallerSkip_def)

text \<open>
  Skips add up, through \<open>With\<close> as well: a logger derived with \<open>WithCallerSkip\<close> \<open>m\<close> and then \<open>n\<close> attributes a record
  to the consumer's frame that many steps above the direct caller, to none (PC zero) when the stack is not that deep,
  and never to a frame of the logger itself.
\<close>

theorem caller_skip_exact:
  "callerPC ([runtime, own, method_pc] @ consumer)
     (sl_callerSkip (WithCallerSkip (SlogLogger_With E (WithCallerSkip (l\<lparr>sl_callerSkip := int s\<rparr>) m) args) n)) =
   (let k = s + nat m + nat n in if k < length consumer then consumer ! k else 0)"
proof -
  have "nat (callerPCSkip + (int s + max 0 m + max 0 n)) = 3 + (s + nat m + nat n)"
    by (simp add: callerPCSkip_def)
  then show ?thesis
    by (simp add: callerPC_def WithCallerSkip_adds Let_def numeral_3_eq_3 nth_Cons')
qed

section \<open>A logger at work refines its chain\<close>

inductive derived_from :: "('t, 'l) log_env \<Rightarrow> 't slog_logger \<Rightarrow> 't slog_logger \<Rightarrow> bool" for E l0 where
  self: "derived_from E l0 l0"
| attrs: "derived_from E l0 l \<Longrightarrow> derived_from E l0 (SlogLogger_With E l args)"
| skip: "derived_from E l0 l \<Longrightarrow> derived_from E l0 (WithCallerSkip l n)"
| from_ctx: "derived_from E l0 l \<Longrightarrow> derived_from E l0 (SlogLogger_WithContext E l ctx (w :: ('t, 'l) log_world))"

text \<open>
  What can happen while loggers derived from \<open>l0\<close> are used: log calls, changes of the level, of the process-wide
  extractor and of the lifecycle, and steps of the buffers' workers.
\<close>

inductive logger_step ::
  "('t, 'l) log_env \<Rightarrow> 't slog_logger \<Rightarrow> ('t, 'l) log_world \<Rightarrow> ('t, 'l) log_world \<Rightarrow> bool" for E l0 where
  log_context: "derived_from E l0 l \<Longrightarrow> SlogLogger_Log E i l ctx level msg args w = Some w' \<Longrightarrow> logger_step E l0 w w'"
| log_plain: "derived_from E l0 l \<Longrightarrow>
    log_method E i l level args (\<lambda>pc fs. emit E i l ctx pc level msg fs) w = Some w' \<Longrightarrow> logger_step E l0 w w'"
| set_level: "derived_from E l0 l \<Longrightarrow> logger_step E l0 w (SlogLogger_SetLevel l level w)"
| set_extractor: "logger_step E l0 w (SetContextFieldExtractor f w)"
| lifecycle: "logger_step E l0 w (w\<lparr>lw_lifecycle := g\<rparr>)"
| worker: "chain_step (le_chain E) (sl_handler l0) (lw_chain w) cw \<Longrightarrow> logger_step E l0 w (w\<lparr>lw_chain := cw\<rparr>)"

inductive logger_reach ::
  "('t, 'l) log_env \<Rightarrow> 't slog_logger \<Rightarrow> ('t, 'l) log_world \<Rightarrow> ('t, 'l) log_world \<Rightarrow> bool" for E l0 w0 where
  init: "logger_reach E l0 w0 w0"
| step: "logger_reach E l0 w0 w \<Longrightarrow> logger_step E l0 w w' \<Longrightarrow> logger_reach E l0 w0 w'"

lemma SlogLogger_With_handler:
  "\<exists>ops. sl_handler (SlogLogger_With E l args) = chain_derive (le_chain E) (sl_handler l) ops"
proof (cases "plain_args args = []")
  case True
  then show ?thesis by (intro exI [of _ "[]"]) (simp add: SlogLogger_With_def extract_options slog_With_def)
next
  case False
  then show ?thesis
    by (intro exI [of _ "[HeldAttrs (argsToAttrs (plain_args args))]"])
       (simp add: SlogLogger_With_def extract_options slog_With_def)
qed

lemma derive_append: "derive wa wg h (xs @ ys) = derive wa wg (derive wa wg h xs) ys"
  by (simp add: derive_def)

lemma derived_handler:
  "derived_from E l0 l \<Longrightarrow> \<exists>ops. sl_handler l = chain_derive (le_chain E) (sl_handler l0) ops"
proof (induction rule: derived_from.induct)
  case self
  then show ?case by (intro exI [of _ "[]"]) simp
next
  case (attrs l args)
  then show ?case using SlogLogger_With_handler [of E l args] by (metis derive_append)
next
  case (skip l n)
  then show ?case by (simp add: WithCallerSkip_def)
next
  case (from_ctx l ctx w)
  then show ?case
    using SlogLogger_With_handler [of E l] by (simp add: SlogLogger_WithContext_def Let_def) (metis derive_append)
qed

lemma log_effect_chain:
  assumes "log_effect E i l ctx level msg args extra w w'" "derived_from E l0 l"
  shows "lw_chain w' = lw_chain w \<or> chain_step (le_chain E) (sl_handler l0) (lw_chain w) (lw_chain w')"
proof (cases "log_outcome E i l level args w = Emitted")
  case True
  with assms(1) obtain cw err r where "lw_chain w' = cw"
    "chain_Handle (le_chain E) (li_samplers i) ctx (sl_handler l) r (lw_chain w) = Some (cw, err)"
    by (auto simp: log_effect_def Let_def)
  then show ?thesis using derived_handler [OF assms(2)] chain_step.call by metis
next
  case False
  with assms(1) show ?thesis by (cases "log_outcome E i l level args w") (auto simp: log_effect_def Let_def)
qed

lemma logger_step_chain:
  assumes "logger_step E l0 w w'"
  shows "lw_chain w' = lw_chain w \<or> chain_step (le_chain E) (sl_handler l0) (lw_chain w) (lw_chain w')"
  using assms
proof cases
  case (log_context l i ctx level msg args)
  then show ?thesis using context_call_effect log_effect_chain by blast
next
  case (log_plain l i level args ctx msg)
  then show ?thesis using plain_call_effect log_effect_chain by blast
next
  case (set_level l level)
  then show ?thesis by (simp add: SlogLogger_SetLevel_def chain_step.set_level)
qed (auto simp: SetContextFieldExtractor_def split: option.splits)

lemma logger_reach_chain:
  assumes "logger_reach E l0 w0 w" "chain_reach (le_chain E) (sl_handler l0) (lw_chain w0)"
  shows "chain_reach (le_chain E) (sl_handler l0) (lw_chain w)"
  using assms
proof (induction rule: logger_reach.induct)
  case (step w w')
  then show ?case using logger_step_chain [OF step(2)] chain_reach.step by metis
qed

lemma new_logger_reach:
  assumes "NewWithError lower te fl E i pc k b cfg hook ext w = Some (l, lw, errs, merr)" "fresh_world w"
  shows "sl_handler l = fst (new_chain lower te fl k b cfg) \<and> chain_reach (le_chain E) (sl_handler l) (lw_chain lw)"
proof -
  obtain h hs me where h: "new_chain lower te fl k b cfg = (h, hs, me)" by (metis prod_cases3)
  have "fresh_world (new_world lower k b cfg w)"
    using assms(2) by (simp add: fresh_world_def new_world_def NewBufferedCore_def Let_def)
  then have start: "chain_reach (le_chain E) h (new_world lower k b cfg w)" by (rule chain_reach.init)
  have init: "chain_reach (le_chain E) h w'" if "log_initialization E i h r (new_world lower k b cfg w) = Some w'" for r w'
  proof (cases "chain_Enabled (le_chain E) (cw_level (new_world lower k b cfg w)) h (r_level r)")
    case True
    with that obtain err where "chain_Handle (le_chain E) (li_samplers i) ctx_Background
        (chain_derive (le_chain E) h []) r (new_world lower k b cfg w) = Some (w', err)"
      by (auto simp: log_initialization_def)
    then show ?thesis using start chain_reach.step chain_step.call by metis
  qed (use that start in \<open>simp add: log_initialization_def\<close>)
  show ?thesis
    using assms(1) start init by (auto simp: NewWithError_def h Let_def split: if_splits option.splits)
qed

text \<open>
  C22. From construction on, whatever is done with a logger that \<open>New\<close> built and with the loggers derived from it, its
  chain only ever takes the steps of the abstract handler chain: what holds of every chain run holds of every logger.
\<close>

theorem logger_refines_chain:
  assumes "NewWithError lower te fl E i pc k b cfg hook ext w0 = Some (l, lw, errs, merr)" "fresh_world w0"
    "logger_reach E l lw w"
  shows "chain_reach (le_chain E) (fst (new_chain lower te fl k b cfg)) (lw_chain w)"
  using logger_reach_chain [OF assms(3)] new_logger_reach [OF assms(1,2)] by metis

lemma logger_lines:
  assumes "NewWithError lower te fl E i pc k b cfg hook ext w0 = Some (l, lw, errs, merr)" "fresh_world w0"
    "logger_reach E l lw w" "cfg_PipelineOverride cfg = None" "case sink_of cfg of Some s \<Rightarrow> quiet s | None \<Rightarrow> True"
    "wf_map (cfg_GlobalFields cfg)" "seams_keep_dedup cfg"
  shows "\<forall>(t, r) \<in> set (cw_delivered (lw_chain w)).
    deduped builtin_keys (r_attrs r) \<and>
    take (length (filterValidAttrs (dedupOptions cfg))) (r_attrs r) =
      map (rename_attr builtin_keys) (filterValidAttrs (dedupOptions cfg))"
proof -
  have reach: "chain_reach (le_chain E) (fst (new_chain lower te fl k b cfg)) (lw_chain w)"
    using logger_reach_chain [OF assms(3)] new_logger_reach [OF assms(1,2)] by metis
  have seams: "seams_keep (guarded Q) cfg" for Q using assms(7) by (simp add: seams_keep_dedup_def)
  show ?thesis
    using unique_at_every_sink [OF assms(4,5) seams reach] globals_at_every_sink [OF assms(4-6) seams reach] by fast
qed

text \<open>
  C3. The lines of a logger that \<open>NewWithError\<close> built, without a \<open>PipelineOverride\<close>, over its own writer or over a sink
  that only forwards (\<open>quiet\<close>), with seams that leave the dedup stage above the sink or with none, and with a
  map of global fields: in every line the sink ever gets, the configured global fields come first, in sorted order and with
  their configured values, and no key is twice in one group at any depth; the one exception is a key
  \<open>attr.<reserved>\<close> at the top level, which a caller can also write itself (\<open>deduped\<close>). Of the global fields one with an
  empty key is left out, and so is \<open>source\<close> when \<open>AddSource\<close> owns that key (\<open>dedupOptions\<close>, \<open>filterValidAttrs\<close>); one
  with a reserved key appears under \<open>attr.\<close> (\<open>rename_attr\<close>).
\<close>

theorem logger_lines_correct:
  assumes "NewWithError lower te fl E i pc k b cfg hook ext w0 = Some (l, lw, errs, merr)" "fresh_world w0"
    "logger_reach E l lw w" "cfg_PipelineOverride cfg = None" "case sink_of cfg of Some s \<Rightarrow> quiet s | None \<Rightarrow> True"
    "wf_map (cfg_GlobalFields cfg)" "seams_keep_dedup cfg"
  shows "\<forall>(t, r) \<in> set (cw_delivered (lw_chain w)).
    deduped builtin_keys (r_attrs r) \<and>
    take (length (filterValidAttrs (dedupOptions cfg))) (r_attrs r) =
      map (rename_attr builtin_keys) (filterValidAttrs (dedupOptions cfg))"
  by (rule logger_lines [OF assms])

section \<open>A logger at work\<close>

definition example_log_env :: "(unit, unit) log_env" where
  "example_log_env = \<lparr>le_chain = example_env, le_newL = (\<lambda>d. ()), le_allowN = (\<lambda>l t. (True, l))\<rparr>"

definition example_input :: log_input where
  "example_input =
     \<lparr>li_perm = id, li_clock = 0, li_now = 0, li_samplers = (\<lambda>k. \<lparr>e_now = 0, e_rand = 0, e_perm = id\<rparr>), li_stack = [1, 2, 3, 7, 8]\<rparr>"

definition example_logger_config :: "unit config" where
  "example_logger_config = example_config\<lparr>cfg_MetricsHandler := None\<rparr>"

definition example_logger :: "unit slog_logger" where
  "example_logger =
     \<lparr>sl_handler = Dedup [String ''env'' ''prod'', String ''service'' ''api''] builtin_keys [] (LevelGate (Sink ())),
      sl_levelVar = True, sl_counterHook = True, sl_contextFields = None, sl_callerSkip = 0\<rparr>"

definition example_log_world :: "bool \<Rightarrow> (unit, unit) log_world" where
  "example_log_world stopping =
     \<lparr>lw_chain = new_world id 0 0 example_logger_config example_world, lw_rate = Some (newRateState 0),
      lw_lifecycle = Some ((newLifecycleGroup [])\<lparr>lc_stopping := stopping\<rparr>), lw_incs = [], lw_extractor = None\<rparr>"

lemma example_level [simp]: "cw_level (lw_chain (example_log_world b)) = 0"
  by (simp add: example_log_world_def new_world_def example_logger_config_def example_config_def resolveLevel_def
      slogLevel_def cfg_LevelInfo_def Let_def)

lemma example_new:
  "NewWithError id example_terminals (\<lambda>t. False) example_log_env example_input 0 0 0 example_logger_config True None
     example_world =
   Some (example_logger, example_log_world False, Config_Validate id example_logger_config, None)"
proof -
  have "new_chain id example_terminals (\<lambda>t. False) 0 0 example_logger_config = (sl_handler example_logger, [], None)"
    by (simp add: new_chain_def example_logger_config_def example_config_def base_handler_def decorate_def
        decorate_inner_def with_metrics_def with_context_handler_def dedupOptions_eq of_dedup_def NewDedupHandler_def
        builtin_keys_def example_logger_def collectFlushers_def flusher_walk.simps Let_def)
  then show ?thesis
    by (simp add: NewWithError_def example_logger_def example_log_world_def newLifecycleGroup_def
        example_logger_config_def example_config_def Let_def)
qed

definition example_args :: "go_arg list" where
  "example_args = [ArgOther (GoString ''user''), ArgCounter (WithCounter ''lines''), ArgOther (GoString ''v'')]"

lemma example_log_call:
  "\<exists>w'. SlogLogger_Log example_log_env example_input example_logger None 0 ''hello'' example_args (example_log_world False) = Some w' \<and>
     cw_delivered (lw_chain w') \<noteq> [] \<and> lw_incs w' = [''lines'']"
proof -
  have "cw_delivered (lw_chain (example_log_world False)) = []"
    by (simp add: example_log_world_def new_world_def example_world_def Let_def)
  moreover have "isStopping (lw_lifecycle (example_log_world False)) = False" "lw_incs (example_log_world False) = []"
    "lw_rate (example_log_world False) = Some (newRateState 0)"
    by (simp_all add: example_log_world_def newLifecycleGroup_def isStopping_def)
  ultimately show ?thesis
    by (simp add: SlogLogger_Log_def log_method_def logger_Enabled_def logRateAware_def emitContext_emit emit_def
        extract_options example_args_def WithCounter_def last_opt_Cons rate_opt_of_def counter_opt_of_def last_opt_def
        List.map_filter_simps shouldLog_def example_logger_def levelHandler_Enabled_def levelHandler_Handle_def
        example_log_env_def example_env_def DedupHandler_Handle_level NewRecord_def Let_def split: option.splits)
qed

lemma example_fresh_world: "fresh_world example_world"
  by (simp add: fresh_world_def example_world_def NewBufferedCore_def Let_def)

lemma example_logger_reach:
  "SlogLogger_Log example_log_env example_input example_logger None 0 ''hello'' example_args (example_log_world False) = Some w'
   \<Longrightarrow> logger_reach example_log_env example_logger (example_log_world False) w'"
  by (rule logger_reach.step [OF logger_reach.init logger_step.log_context [OF derived_from.self]])

theorem log_call_exact_witness:
  "\<exists>w'. log_effect example_log_env example_input example_logger 0 0 ''hello'' example_args [] (example_log_world False) w' \<and>
     lw_incs w' = [''lines'']"
proof -
  from example_log_call obtain w' where
    call: "SlogLogger_Log example_log_env example_input example_logger None 0 ''hello'' example_args (example_log_world False) = Some w'"
    and incs: "lw_incs w' = [''lines'']" by blast
  from log_call_exact [OF call] incs show ?thesis
    by (auto simp: orBackground_def ctx_Background_def contextAttrs_def contextFieldExtractor_def example_logger_def
        example_log_world_def Let_def)
qed

theorem log_accounting_witness:
  "\<exists>w'. log_calls example_log_env (example_log_world True)
     [(example_input, example_logger, None, -4, ''quiet'', []), (example_input, example_logger, None, 0, ''late'', [])] =
     Some ([Disabled, Refused], w') \<and> SlogLogger_Rejected w' = 1"
proof -
  have world: "isStopping (lw_lifecycle (example_log_world True))"
    "lw_lifecycle (example_log_world True) = Some ((newLifecycleGroup [])\<lparr>lc_stopping := True\<rparr>)"
    by (simp_all add: example_log_world_def newLifecycleGroup_def isStopping_def)
  have enabled: "logger_Enabled example_log_env example_logger l (example_log_world True) \<longleftrightarrow> 0 \<le> l" for l
    by (simp add: logger_Enabled_def example_logger_def levelHandler_Enabled_def example_log_env_def example_env_def)
  obtain w' where w': "log_calls example_log_env (example_log_world True)
     [(example_input, example_logger, None, -4, ''quiet'', []), (example_input, example_logger, None, 0, ''late'', [])] =
     Some ([Disabled, Refused], w')"
    using world enabled
    by (simp add: SlogLogger_Log_def log_method_def logRateAware_def log_outcome_def Let_def)
  from log_accounting [OF w'] have "SlogLogger_Rejected w' = SlogLogger_Rejected (example_log_world True) + 1" by simp
  with w' show ?thesis
    by (simp add: SlogLogger_Rejected_def rejectedCount_def world newLifecycleGroup_def)
qed

theorem logger_refines_chain_witness:
  "\<exists>w. chain_reach example_env (fst (new_chain id example_terminals (\<lambda>t. False) 0 0 example_logger_config)) w \<and>
     cw_delivered w \<noteq> []"
  using example_log_call logger_refines_chain [OF example_new example_fresh_world example_logger_reach]
  by (auto simp: example_log_env_def)

theorem logger_lines_correct_witness:
  "\<exists>w :: unit chain_world. cw_delivered w \<noteq> [] \<and> (\<forall>(t, r) \<in> set (cw_delivered w).
     take 2 (r_attrs r) = [String ''env'' ''prod'', String ''service'' ''api''])"
proof -
  from example_log_call obtain w' where
    call: "SlogLogger_Log example_log_env example_input example_logger None 0 ''hello'' example_args (example_log_world False) = Some w'"
    and some: "cw_delivered (lw_chain w') \<noteq> []" by blast
  have "cfg_PipelineOverride example_logger_config = None"
    "case sink_of example_logger_config of Some s \<Rightarrow> quiet s | None \<Rightarrow> True"
    "wf_map (cfg_GlobalFields example_logger_config)" "seams_keep_dedup example_logger_config"
    by (simp_all add: example_logger_config_def example_config_def sink_of_def wf_map_def no_seams)
  from logger_lines_correct [OF example_new example_fresh_world example_logger_reach [OF call] this]
  have "\<forall>(t, r) \<in> set (cw_delivered (lw_chain w')).
      take (length (filterValidAttrs (dedupOptions example_logger_config))) (r_attrs r) =
        map (rename_attr builtin_keys) (filterValidAttrs (dedupOptions example_logger_config))" by fast
  moreover have "filterValidAttrs (dedupOptions example_logger_config) = [String ''env'' ''prod'', String ''service'' ''api'']"
    by (simp add: dedupOptions_eq example_logger_config_def example_config_def)
  ultimately have "cw_delivered (lw_chain w') \<noteq> [] \<and> (\<forall>(t, r) \<in> set (cw_delivered (lw_chain w')).
      take 2 (r_attrs r) = [String ''env'' ''prod'', String ''service'' ''api''])"
    using some by (simp add: rename_attr_def rename_def builtin_keys_def String_def numeral_2_eq_2)
  then show ?thesis by blast
qed

section \<open>A dangling key takes the suppression report\<close>

text \<open>
  \<open>logRateAware\<close> and \<open>emitContext\<close> append to the caller's arguments, so a last key without a value takes what is
  appended as its value: the report of suppressed records, or the first context field, is lost under its own key.
\<close>

lemma dangling_key_takes_report:
  "argsToAttrs ([GoString ''msg'', GoOther v, GoString ''k''] @ [GoString ''suppressed_count'', GoOther (Int64Value (sint n))]) =
     [Attr ''msg'' v, String ''k'' ''suppressed_count'', Attr badKey (Int64Value (sint n))]"
  by (simp add: String_def)

end
