(* ===== verification/HttpMiddleware.thy ===== *)
theory HttpMiddleware
  imports Logger
begin

text \<open>
  \<open>httpmw/middleware.go\<close>: request IDs, the response recorder, and the one line per request.

  The server side is \<open>net/http\<close>'s response writer as the standard library documents it: the first final status counts,
  informational ones (1xx except 101) are sent and do not, an invalid code panics, and both a write and a flush
  send an implicit 200 first. A handler is the sequence of operations it performs on its writer and how it ends;
  how many bytes a write takes is the connection's choice.
\<close>

section \<open>Request IDs\<close>

definition DefaultRequestIDHeader :: bytes where
  "DefaultRequestIDHeader = ''X-Request-Id''"

definition maxRequestIDLen :: nat where
  "maxRequestIDLen = 200"

fun printable :: "bytes \<Rightarrow> bool" where
  "printable [] = True"
| "printable (c # cs) = (if byte c < 0x20 \<or> byte c > 0x7e then False else printable cs)"

definition usableRequestID :: "bytes \<Rightarrow> bool" where
  "usableRequestID rid = (if rid = [] \<or> length rid > maxRequestIDLen then False else printable rid)"

text \<open>How one call of a generator ends.\<close>

datatype gen_result = GenOk bytes | GenErr bytes | GenPanic bytes

definition safeGen :: "gen_result \<Rightarrow> bytes \<times> bytes option" where
  "safeGen gen =
     (case gen of
        GenOk rid \<Rightarrow> (rid, None)
      | GenErr e \<Rightarrow> ([], Some e)
      | GenPanic p \<Rightarrow> ([], Some (''httpmw: id generation panicked: '' @ p)))"

definition resolveRequestID :: "bytes \<Rightarrow> gen_result \<Rightarrow> bytes" where
  "resolveRequestID inbound gen =
     (if usableRequestID inbound then inbound
      else (let (rid, err) = safeGen gen in
            if err \<noteq> None then [] else if \<not> usableRequestID rid then [] else rid))"

text \<open>\<open>ulid.New\<close> is not part of the repository: what it returns is the argument.\<close>

definition newULIDFrom :: "bytes option \<Rightarrow> gen_result" where
  "newULIDFrom ulid_new =
     (case ulid_new of None \<Rightarrow> GenErr ''httpmw: rid generation failed'' | Some rid \<Rightarrow> GenOk rid)"

definition newULID :: "bytes option \<Rightarrow> gen_result" where
  "newULID ulid_new = newULIDFrom ulid_new"

text \<open>A request's context, with what \<open>context.WithValue\<close> put under the package's key.\<close>

record http_ctx =
  hc_requestID :: "bytes option"
  hc_err :: "bytes option"

definition RequestIDFrom :: "http_ctx option \<Rightarrow> bytes \<times> bool" where
  "RequestIDFrom ctx =
     (case ctx of None \<Rightarrow> ([], False)
      | Some c \<Rightarrow> (case hc_requestID c of Some rid \<Rightarrow> (rid, True) | None \<Rightarrow> ([], False)))"

section \<open>The server's response writer\<close>

definition StatusOK :: int where "StatusOK = 200"
definition StatusBadRequest :: int where "StatusBadRequest = 400"
definition StatusInternalServerError :: int where "StatusInternalServerError = 500"

lemmas status_defs = StatusOK_def StatusBadRequest_def StatusInternalServerError_def

datatype panic_value = AbortHandler | PanicError bytes | PanicOther bytes

record http_response =
  hw_wroteHeader :: bool
  hw_status :: int
  hw_info :: "int list"
  hw_body :: nat
  hw_hijacked :: bool
  hw_canFlush :: bool
  hw_canHijack :: bool
  hw_canPush :: bool
  hw_canReadFrom :: bool

definition http_WriteHeader :: "int \<Rightarrow> http_response \<Rightarrow> http_response \<times> panic_value option" where
  "http_WriteHeader code u =
     (if hw_hijacked u \<or> hw_wroteHeader u then (u, None)
      else if code < 100 \<or> code > 999 then (u, Some (PanicOther (''invalid WriteHeader code '' @ itoa code)))
      else if code \<le> 199 \<and> code \<noteq> 101 then (u\<lparr>hw_info := hw_info u @ [code]\<rparr>, None)
      else (u\<lparr>hw_wroteHeader := True, hw_status := code\<rparr>, None))"

definition http_implicit_ok :: "http_response \<Rightarrow> http_response" where
  "http_implicit_ok u = fst (http_WriteHeader StatusOK u)"

text \<open>\<open>Write\<close> (and \<open>ReadFrom\<close>, which takes its bytes from elsewhere) with the number of bytes the connection took.\<close>

definition http_Write :: "nat \<Rightarrow> http_response \<Rightarrow> http_response" where
  "http_Write n u = (if hw_hijacked u then u else (http_implicit_ok u)\<lparr>hw_body := hw_body u + n\<rparr>)"

definition http_Flush :: "http_response \<Rightarrow> http_response" where
  "http_Flush u = (if hw_hijacked u then u else http_implicit_ok u)"

definition http_Hijack :: "http_response \<Rightarrow> http_response" where
  "http_Hijack u = u\<lparr>hw_hijacked := True\<rparr>"

section \<open>The recorder\<close>

record response_recorder =
  rr_w :: http_response
  rr_status :: int
  rr_bytes :: i64
  rr_wroteHeader :: bool

definition statusCode :: "response_recorder \<Rightarrow> int" where
  "statusCode rw = (if \<not> rr_wroteHeader rw then StatusOK else rr_status rw)"

text \<open>The second component is a panic of the wrapped writer, with the recorder as it is then.\<close>

definition rr_WriteHeader :: "int \<Rightarrow> response_recorder \<Rightarrow> response_recorder \<times> panic_value option" where
  "rr_WriteHeader code rw =
     (if rr_wroteHeader rw then (rw, None)
      else (let rw = rw\<lparr>rr_wroteHeader := True\<rparr>;
                rw = rw\<lparr>rr_status := code\<rparr>;
                (u, p) = http_WriteHeader code (rr_w rw)
            in (rw\<lparr>rr_w := u\<rparr>, p)))"

definition rr_Write :: "nat \<Rightarrow> response_recorder \<Rightarrow> response_recorder \<times> panic_value option" where
  "rr_Write n rw =
     (let (rw, p) = (if \<not> rr_wroteHeader rw then rr_WriteHeader StatusOK rw else (rw, None)) in
      case p of
        Some p \<Rightarrow> (rw, Some p)
      | None \<Rightarrow> (rw\<lparr>rr_w := http_Write n (rr_w rw), rr_bytes := rr_bytes rw + of_nat n\<rparr>, None))"

definition rr_Flush :: "response_recorder \<Rightarrow> response_recorder" where
  "rr_Flush rw = (if hw_canFlush (rr_w rw) then rw\<lparr>rr_w := http_Flush (rr_w rw)\<rparr> else rw)"

text \<open>\<open>Hijack\<close> and \<open>Push\<close> report whether the wrapped writer supports the operation.\<close>

definition rr_Hijack :: "response_recorder \<Rightarrow> response_recorder \<times> bool" where
  "rr_Hijack rw =
     (if hw_canHijack (rr_w rw) then (rw\<lparr>rr_w := http_Hijack (rr_w rw)\<rparr>, True) else (rw, False))"

definition rr_Push :: "response_recorder \<Rightarrow> response_recorder \<times> bool" where
  "rr_Push rw = (if hw_canPush (rr_w rw) then (rw, True) else (rw, False))"

text \<open>Both ways of copying end in the wrapped writer; \<open>n\<close> is what was copied.\<close>

definition rr_ReadFrom :: "nat \<Rightarrow> response_recorder \<Rightarrow> response_recorder \<times> panic_value option" where
  "rr_ReadFrom n rw =
     (let (rw, p) = (if \<not> rr_wroteHeader rw then rr_WriteHeader StatusOK rw else (rw, None)) in
      case p of
        Some p \<Rightarrow> (rw, Some p)
      | None \<Rightarrow>
          if hw_canReadFrom (rr_w rw)
          then (let rw = rw\<lparr>rr_w := http_Write n (rr_w rw)\<rparr> in (rw\<lparr>rr_bytes := rr_bytes rw + of_nat n\<rparr>, None))
          else (let rw = rw\<lparr>rr_w := http_Write n (rr_w rw)\<rparr> in (rw\<lparr>rr_bytes := rr_bytes rw + of_nat n\<rparr>, None)))"

section \<open>Handlers\<close>

datatype handler_op =
    OpWriteHeader int
  | OpWrite nat
  | OpFlush
  | OpHijack
  | OpPush
  | OpReadFrom nat

text \<open>An operation on the recorder, and on the bare writer.\<close>

fun rr_op :: "handler_op \<Rightarrow> response_recorder \<Rightarrow> response_recorder \<times> panic_value option" where
  "rr_op (OpWriteHeader code) rw = rr_WriteHeader code rw"
| "rr_op (OpWrite n) rw = rr_Write n rw"
| "rr_op OpFlush rw = (rr_Flush rw, None)"
| "rr_op OpHijack rw = (fst (rr_Hijack rw), None)"
| "rr_op OpPush rw = (fst (rr_Push rw), None)"
| "rr_op (OpReadFrom n) rw = rr_ReadFrom n rw"

fun bare_op :: "handler_op \<Rightarrow> http_response \<Rightarrow> http_response \<times> panic_value option" where
  "bare_op (OpWriteHeader code) u = http_WriteHeader code u"
| "bare_op (OpWrite n) u = (http_Write n u, None)"
| "bare_op OpFlush u = ((if hw_canFlush u then http_Flush u else u), None)"
| "bare_op OpHijack u = ((if hw_canHijack u then http_Hijack u else u), None)"
| "bare_op OpPush u = (u, None)"
| "bare_op (OpReadFrom n) u = (http_Write n u, None)"

text \<open>A handler runs until one of its operations panics, or ends as it wants.\<close>

fun run_handler ::
  "('o \<Rightarrow> 'w \<Rightarrow> 'w \<times> panic_value option) \<Rightarrow> 'o list \<Rightarrow> panic_value option \<Rightarrow> 'w \<Rightarrow> 'w \<times> panic_value option" where
  "run_handler op [] fin w = (w, fin)"
| "run_handler op (x # xs) fin w =
     (case op x w of (w, Some p) \<Rightarrow> (w, Some p) | (w, None) \<Rightarrow> run_handler op xs fin w)"

section \<open>The middleware\<close>

definition defaultLevelFor :: "int \<Rightarrow> int" where
  "defaultLevelFor status =
     (if status \<ge> StatusInternalServerError then LevelError
      else if status \<ge> StatusBadRequest then LevelWarn
      else LevelInfo)"

definition panicValue :: "panic_value \<Rightarrow> bytes" where
  "panicValue rec =
     (case rec of AbortHandler \<Rightarrow> ''net/http: abort Handler'' | PanicError e \<Rightarrow> e | PanicOther t \<Rightarrow> t)"

record mw_options =
  mo_RequestIDHeader :: bytes
  mo_DisableResponseIDHeader :: bool
  mo_IDGen :: "gen_result option"
  mo_LevelFor :: "(int \<Rightarrow> int) option"
  mo_SkipPaths :: "bytes list"

text \<open>A request: \<open>Header.Get\<close> as a function, and what the clock and the context say when the handler has ended.\<close>

record http_request =
  hr_header :: "bytes \<Rightarrow> bytes"
  hr_method :: bytes
  hr_path :: bytes
  hr_elapsed_ms :: int
  hr_ctx_err :: "bytes option"
  hr_stack :: bytes

text \<open>What the middleware does to a request: response headers, calls of the logger, the writer, a panic that goes on.\<close>

record mw_result =
  mr_headers :: "(bytes \<times> bytes) list"
  mr_ctx :: http_ctx
  mr_logged :: "(int \<times> bytes \<times> go_value list) list"
  mr_recorder :: response_recorder
  mr_panic :: "panic_value option"

definition field :: "bytes \<Rightarrow> slog_value \<Rightarrow> go_value list" where
  "field k v = [GoString k, (case v of StringValue s \<Rightarrow> GoString s | _ \<Rightarrow> GoOther v)]"

definition request_fields :: "http_request \<Rightarrow> int \<Rightarrow> i64 \<Rightarrow> bytes \<Rightarrow> go_value list" where
  "request_fields r status bytes_written requestID =
     (let fields = field ''method'' (StringValue (hr_method r)) @ field ''path'' (StringValue (hr_path r)) @
        field ''status'' (Int64Value status) @ field ''duration_ms'' (Int64Value (hr_elapsed_ms r)) @
        field ''bytes_written'' (Int64Value (sint bytes_written)) @ field ''request_id'' (StringValue requestID)
      in case hr_ctx_err r of Some e \<Rightarrow> fields @ field ''context_err'' (StringValue e) | None \<Rightarrow> fields)"

definition httpmw_New ::
  "bytes option \<Rightarrow> mw_options \<Rightarrow> handler_op list \<Rightarrow> panic_value option \<Rightarrow> http_response \<Rightarrow> http_request \<Rightarrow> mw_result" where
  "httpmw_New ulid_new opts ops fin u r =
     (let header = (if mo_RequestIDHeader opts = [] then DefaultRequestIDHeader else mo_RequestIDHeader opts);
          idGen = (case mo_IDGen opts of None \<Rightarrow> newULID ulid_new | Some g \<Rightarrow> g);
          levelFor = (case mo_LevelFor opts of None \<Rightarrow> defaultLevelFor | Some f \<Rightarrow> f);
          skip = set (mo_SkipPaths opts);
          requestID = resolveRequestID (hr_header r header) idGen;
          headers = (if \<not> mo_DisableResponseIDHeader opts \<and> requestID \<noteq> [] then [(header, requestID)] else []);
          ctx = \<lparr>hc_requestID = Some requestID, hc_err = hr_ctx_err r\<rparr>;
          rr = \<lparr>rr_w = u, rr_status = 0, rr_bytes = 0, rr_wroteHeader = False\<rparr>;
          skipped = (hr_path r \<in> skip);
          (rr, rec) = run_handler rr_op ops fin rr
      in if skipped
         then \<lparr>mr_headers = headers, mr_ctx = ctx, mr_logged = [], mr_recorder = rr, mr_panic = rec\<rparr>
         else (let status = statusCode rr;
                   status = (if rec \<noteq> None \<and> \<not> rr_wroteHeader rr then StatusInternalServerError else status);
                   fields = request_fields r status (rr_bytes rr) requestID
               in case rec of
                    None \<Rightarrow> \<lparr>mr_headers = headers, mr_ctx = ctx, mr_logged = [(levelFor status, ''http_request'', fields)],
                             mr_recorder = rr, mr_panic = None\<rparr>
                  | Some p \<Rightarrow>
                      (let fields = fields @ field ''panic'' (StringValue (panicValue p));
                           fields = (if p \<noteq> AbortHandler then fields @ field ''stack'' (StringValue (hr_stack r))
                                     else fields)
                       in \<lparr>mr_headers = headers, mr_ctx = ctx, mr_logged = [(LevelError, ''http_request'', fields)],
                           mr_recorder = rr, mr_panic = Some p\<rparr>)))"

text \<open>The deprecated \<open>Middleware\<close>, with the zero \<open>Options\<close>.\<close>

definition httpmw_Middleware ::
  "bytes option \<Rightarrow> handler_op list \<Rightarrow> panic_value option \<Rightarrow> http_response \<Rightarrow> http_request \<Rightarrow> mw_result" where
  "httpmw_Middleware ulid_new =
     httpmw_New ulid_new
       \<lparr>mo_RequestIDHeader = [], mo_DisableResponseIDHeader = False, mo_IDGen = None, mo_LevelFor = None, mo_SkipPaths = []\<rparr>"

section \<open>Request IDs are safe to log\<close>

text \<open>Safe in a header and in a line: not empty, bounded, printable ASCII.\<close>

definition log_safe :: "bytes \<Rightarrow> bool" where
  "log_safe s \<longleftrightarrow> s \<noteq> [] \<and> length s \<le> 200 \<and> (\<forall>c \<in> set s. 0x20 \<le> byte c \<and> byte c \<le> 0x7e)"

lemma printable_iff: "printable s \<longleftrightarrow> (\<forall>c \<in> set s. 0x20 \<le> byte c \<and> byte c \<le> 0x7e)"
  by (induction s) auto

lemma usable_iff: "usableRequestID s \<longleftrightarrow> log_safe s"
  by (auto simp: usableRequestID_def log_safe_def printable_iff maxRequestIDLen_def)

lemma resolve_eq:
  "resolveRequestID inbound gen =
     (if log_safe inbound then inbound
      else case gen of GenOk rid \<Rightarrow> if log_safe rid then rid else [] | _ \<Rightarrow> [])"
  by (simp add: resolveRequestID_def safeGen_def usable_iff split: gen_result.splits)

lemma resolve_safe: "resolveRequestID inbound gen = [] \<or> log_safe (resolveRequestID inbound gen)"
  by (simp add: resolve_eq split: gen_result.splits)

lemma httpmw_New_common:
  assumes "res = httpmw_New ulid_new opts ops fin u r"
    "rid = resolveRequestID (hr_header r (if mo_RequestIDHeader opts = [] then DefaultRequestIDHeader else mo_RequestIDHeader opts))
       (case mo_IDGen opts of None \<Rightarrow> newULID ulid_new | Some g \<Rightarrow> g)"
  shows "hc_requestID (mr_ctx res) = Some rid"
    "map snd (mr_headers res) = (if \<not> mo_DisableResponseIDHeader opts \<and> rid \<noteq> [] then [rid] else [])"
  unfolding assms httpmw_New_def Let_def by (auto split: prod.splits option.splits)

text \<open>
  C27. Whatever a client sends and whatever the generator does, panics included, the request ID that goes into the
  context, the log line and the response header is empty or at most 200 bytes of printable ASCII, an empty one is not
  written back, and a usable inbound ID is kept as it is.
\<close>

theorem request_id_safe:
  "\<exists>rid. RequestIDFrom (Some (mr_ctx (httpmw_New ulid_new opts ops fin u r))) = (rid, True) \<and> (rid = [] \<or> log_safe rid) \<and>
     list_all log_safe (map snd (mr_headers (httpmw_New ulid_new opts ops fin u r))) \<and>
     resolveRequestID inbound gen =
       (if log_safe inbound then inbound
        else case gen of GenOk rid \<Rightarrow> if log_safe rid then rid else [] | _ \<Rightarrow> [])"
proof -
  define rid where "rid = resolveRequestID (hr_header r (if mo_RequestIDHeader opts = [] then DefaultRequestIDHeader
      else mo_RequestIDHeader opts)) (case mo_IDGen opts of None \<Rightarrow> newULID ulid_new | Some g \<Rightarrow> g)"
  note common = httpmw_New_common [OF HOL.refl rid_def, of ops fin u]
  have safe: "rid = [] \<or> log_safe rid" unfolding rid_def by (rule resolve_safe)
  have "RequestIDFrom (Some (mr_ctx (httpmw_New ulid_new opts ops fin u r))) = (rid, True)"
    using common(1) by (simp add: RequestIDFrom_def)
  moreover have "list_all log_safe (map snd (mr_headers (httpmw_New ulid_new opts ops fin u r)))"
    unfolding common(2) using safe by auto
  ultimately show ?thesis using safe resolve_eq [of inbound gen] by blast
qed

section \<open>One line per request\<close>

definition new_recorder :: "http_response \<Rightarrow> response_recorder" where
  "new_recorder u = \<lparr>rr_w = u, rr_status = 0, rr_bytes = 0, rr_wroteHeader = False\<rparr>"

text \<open>The status the line reports: the one written, 500 for a panic before any, 200 for a handler that wrote nothing.\<close>

definition reported_status :: "response_recorder \<Rightarrow> panic_value option \<Rightarrow> int" where
  "reported_status rr rec = (if rr_wroteHeader rr then rr_status rr else if rec \<noteq> None then 500 else 200)"

text \<open>What a panic adds to the line: its value, and the stack unless the handler only aborted.\<close>

definition panic_report :: "http_request \<Rightarrow> panic_value option \<Rightarrow> go_value list" where
  "panic_report r rec =
     (case rec of None \<Rightarrow> []
      | Some p \<Rightarrow> field ''panic'' (StringValue (panicValue p)) @
          (if p = AbortHandler then [] else field ''stack'' (StringValue (hr_stack r))))"

definition line_level :: "mw_options \<Rightarrow> int \<Rightarrow> panic_value option \<Rightarrow> int" where
  "line_level opts status rec =
     (if rec \<noteq> None then LevelError else (case mo_LevelFor opts of None \<Rightarrow> defaultLevelFor | Some f \<Rightarrow> f) status)"

lemma httpmw_New_eq:
  assumes "run_handler rr_op ops fin (new_recorder u) = (rr, rec)"
  shows "mr_recorder (httpmw_New ulid_new opts ops fin u r) = rr" "mr_panic (httpmw_New ulid_new opts ops fin u r) = rec"
    "mr_logged (httpmw_New ulid_new opts ops fin u r) =
       (if hr_path r \<in> set (mo_SkipPaths opts) then []
        else [(line_level opts (reported_status rr rec) rec, ''http_request'',
               request_fields r (reported_status rr rec) (rr_bytes rr)
                 (fst (RequestIDFrom (Some (mr_ctx (httpmw_New ulid_new opts ops fin u r))))) @ panic_report r rec)])"
  using assms unfolding httpmw_New_def Let_def new_recorder_def [symmetric]
  by (auto simp: statusCode_def reported_status_def status_defs RequestIDFrom_def panic_report_def line_level_def
      split: option.splits)

text \<open>
  C29. However the handler ends, the middleware logs exactly one line for it, and none for a skipped path; a panic is
  logged at Error, goes on with its own value, and is never swallowed.
\<close>

theorem one_line_per_request:
  "length (mr_logged (httpmw_New ulid_new opts ops fin u r)) = (if hr_path r \<in> set (mo_SkipPaths opts) then 0 else 1) \<and>
   mr_panic (httpmw_New ulid_new opts ops fin u r) = snd (run_handler rr_op ops fin (new_recorder u)) \<and>
   list_all (\<lambda>(level, msg, fields). msg = ''http_request'' \<and>
       (mr_panic (httpmw_New ulid_new opts ops fin u r) = None \<or> level = LevelError))
     (mr_logged (httpmw_New ulid_new opts ops fin u r))"
proof -
  obtain rr rec where run: "run_handler rr_op ops fin (new_recorder u) = (rr, rec)" by fastforce
  show ?thesis
    unfolding httpmw_New_eq(2,3) [OF run] run by (cases rec) (simp_all add: line_level_def)
qed

section \<open>The recorder and the wire\<close>

definition final_status :: "int \<Rightarrow> bool" where
  "final_status code \<longleftrightarrow> (200 \<le> code \<and> code \<le> 999) \<or> code = 101"

text \<open>
  A handler that sends its final status first: no informational or invalid status and no flush before the header, and
  no hijacking.
\<close>

fun status_first :: "bool \<Rightarrow> handler_op list \<Rightarrow> bool" where
  "status_first started [] = True"
| "status_first started (OpWriteHeader code # ops) = ((started \<or> final_status code) \<and> status_first True ops)"
| "status_first started (OpWrite n # ops) = status_first True ops"
| "status_first started (OpFlush # ops) = (started \<and> status_first started ops)"
| "status_first started (OpHijack # ops) = False"
| "status_first started (OpPush # ops) = status_first started ops"
| "status_first started (OpReadFrom n # ops) = status_first True ops"

definition in_step :: "response_recorder \<Rightarrow> http_response \<Rightarrow> bool" where
  "in_step rr u \<longleftrightarrow> rr_w rr = u \<and> \<not> hw_hijacked u \<and> rr_wroteHeader rr = hw_wroteHeader u \<and>
     (hw_wroteHeader u \<longrightarrow> rr_status rr = hw_status u) \<and> rr_bytes rr = of_nat (hw_body u)"

lemmas http_defs = http_WriteHeader_def http_implicit_ok_def http_Write_def http_Flush_def
lemmas rr_defs = rr_WriteHeader_def rr_Write_def rr_Flush_def rr_Push_def rr_ReadFrom_def

lemma op_in_step:
  assumes "in_step rr u" "status_first (hw_wroteHeader u) (x # xs)"
  obtains rr' u' where "rr_op x rr = (rr', None)" "bare_op x u = (u', None)" "in_step rr' u'"
    "status_first (hw_wroteHeader u') xs"
proof (cases x)
  case (OpWriteHeader code)
  with assms show thesis
    by (intro that [of "fst (rr_op x rr)" "fst (bare_op x u)"])
       (auto simp: in_step_def final_status_def http_defs rr_defs Let_def)
next
  case (OpWrite n)
  with assms show thesis
    by (intro that [of "fst (rr_op x rr)" "fst (bare_op x u)"])
       (auto simp: in_step_def http_defs rr_defs status_defs Let_def)
next
  case (OpReadFrom n)
  with assms show thesis
    by (intro that [of "fst (rr_op x rr)" "fst (bare_op x u)"])
       (auto simp: in_step_def http_defs rr_defs status_defs Let_def)
next
  case OpFlush
  with assms show thesis
    by (intro that [of "fst (rr_op x rr)" "fst (bare_op x u)"])
       (auto simp: in_step_def http_defs rr_defs Let_def)
next
  case OpPush
  with assms show thesis
    by (intro that [of rr u]) (auto simp: rr_defs)
qed (use assms in simp)

lemma run_in_step:
  assumes "in_step rr u" "status_first (hw_wroteHeader u) ops"
  shows "in_step (fst (run_handler rr_op ops fin rr)) (fst (run_handler bare_op ops fin u)) \<and>
    snd (run_handler rr_op ops fin rr) = snd (run_handler bare_op ops fin u)"
  using assms
proof (induction ops arbitrary: rr u)
  case (Cons x xs)
  from op_in_step [OF Cons.prems] obtain rr' u' where
    step: "rr_op x rr = (rr', None)" "bare_op x u = (u', None)" and rest: "in_step rr' u'" "status_first (hw_wroteHeader u') xs"
    by blast
  from Cons.IH [OF rest] step show ?case by simp
qed simp

definition untouched :: "http_response \<Rightarrow> bool" where
  "untouched u \<longleftrightarrow> \<not> hw_wroteHeader u \<and> \<not> hw_hijacked u \<and> hw_body u = 0"

text \<open>The status the client gets: the one sent, 500 for a panic before any, and the server's 200 when nothing was sent.\<close>

definition client_status :: "http_response \<Rightarrow> panic_value option \<Rightarrow> int" where
  "client_status u rec = (if hw_wroteHeader u then hw_status u else if rec \<noteq> None then 500 else 200)"

text \<open>
  C28. The middleware observes and never alters, for a handler that sends no informational status (1xx except 101) and
  no invalid one, does not flush before its header and does not hijack (\<open>status_first\<close>), on a response nobody has written
  to: the response it leaves on the wire and the panic it ends with are what the bare handler leaves, and, unless the path is
  skipped, there is one line, which holds the status the client gets and the bytes written, counted in an \<open>int64\<close>, at
  the level of that status, or at Error with the panic's value. What goes wrong with the handlers left out is shown below.
\<close>

theorem recorder_transparent:
  assumes "untouched u" "status_first False ops" and "run_handler bare_op ops fin u = (u', rec)"
  shows "rr_w (mr_recorder (httpmw_New ulid_new opts ops fin u r)) = u' \<and>
    mr_panic (httpmw_New ulid_new opts ops fin u r) = rec \<and>
    mr_logged (httpmw_New ulid_new opts ops fin u r) =
      (if hr_path r \<in> set (mo_SkipPaths opts) then []
       else [(line_level opts (client_status u' rec) rec, ''http_request'',
              request_fields r (client_status u' rec) (of_nat (hw_body u'))
                (fst (RequestIDFrom (Some (mr_ctx (httpmw_New ulid_new opts ops fin u r))))) @ panic_report r rec)])"
proof -
  obtain rr rec' where run: "run_handler rr_op ops fin (new_recorder u) = (rr, rec')" by fastforce
  have "in_step (new_recorder u) u" using assms(1) by (simp add: in_step_def new_recorder_def untouched_def)
  moreover have "status_first (hw_wroteHeader u) ops" using assms by (simp add: untouched_def)
  ultimately have step: "in_step rr u'" and rec: "rec' = rec"
    using run_in_step [of "new_recorder u" u ops fin] run assms(3) by simp_all
  from step have "reported_status rr rec = client_status u' rec" "rr_bytes rr = of_nat (hw_body u')" "rr_w rr = u'"
    by (simp_all add: in_step_def reported_status_def client_status_def)
  then show ?thesis using httpmw_New_eq [OF run, of ulid_new opts r] rec by simp
qed

definition example_response :: http_response where
  "example_response =
     \<lparr>hw_wroteHeader = False, hw_status = 0, hw_info = [], hw_body = 0, hw_hijacked = False, hw_canFlush = True,
      hw_canHijack = False, hw_canPush = False, hw_canReadFrom = False\<rparr>"

definition example_request :: http_request where
  "example_request =
     \<lparr>hr_header = (\<lambda>k. ''req-1''), hr_method = ''GET'', hr_path = ''/'', hr_elapsed_ms = 3, hr_ctx_err = None, hr_stack = []\<rparr>"

definition example_options :: mw_options where
  "example_options =
     \<lparr>mo_RequestIDHeader = [], mo_DisableResponseIDHeader = False, mo_IDGen = None, mo_LevelFor = None, mo_SkipPaths = []\<rparr>"

lemmas http_example_defs = example_response_def example_request_def example_options_def new_recorder_def http_defs rr_defs
  status_defs

theorem recorder_transparent_witness:
  "hw_status (rr_w (mr_recorder (httpmw_New None example_options [OpWriteHeader 404, OpWrite 5, OpFlush, OpWriteHeader 500] None
      example_response example_request))) = 404 \<and>
   mr_logged (httpmw_New None example_options [OpWriteHeader 404, OpWrite 5, OpFlush, OpWriteHeader 500] None
      example_response example_request) = [(LevelWarn, ''http_request'', request_fields example_request 404 5 ''req-1'')]"
proof -
  let ?ops = "[OpWriteHeader 404, OpWrite 5, OpFlush, OpWriteHeader 500]"
  let ?u = "example_response\<lparr>hw_wroteHeader := True, hw_status := 404, hw_body := 5\<rparr>"
  let ?mw = "httpmw_New None example_options ?ops None example_response example_request"
  have "untouched example_response" by (simp add: untouched_def example_response_def)
  moreover have "status_first False ?ops" by (simp add: final_status_def)
  moreover have "run_handler bare_op ?ops None example_response = (?u, None)" by (simp add: http_example_defs)
  ultimately have eq: "rr_w (mr_recorder ?mw) = ?u \<and> mr_panic ?mw = None \<and> mr_logged ?mw =
      (if hr_path example_request \<in> set (mo_SkipPaths example_options) then []
       else [(line_level example_options (client_status ?u None) None, ''http_request'',
              request_fields example_request (client_status ?u None) (of_nat (hw_body ?u))
                (fst (RequestIDFrom (Some (mr_ctx ?mw)))) @ panic_report example_request None)])"
    by (rule recorder_transparent)
  have "log_safe ''req-1''" by (simp add: log_safe_def byte_def)
  then have "hc_requestID (mr_ctx ?mw) = Some ''req-1''"
    using httpmw_New_common(1) [OF HOL.refl HOL.refl, of None example_options ?ops None example_response example_request]
    by (simp add: resolve_eq example_request_def example_options_def)
  then have "fst (RequestIDFrom (Some (mr_ctx ?mw))) = ''req-1''" by (simp add: RequestIDFrom_def)
  moreover have "client_status ?u None = 404" "hw_body ?u = 5" "line_level example_options 404 None = LevelWarn"
    by (simp_all add: client_status_def line_level_def example_options_def defaultLevelFor_def status_defs)
  ultimately show ?thesis
    using eq by (simp add: panic_report_def example_options_def del: run_handler.simps)
qed

section \<open>Where the recorder and the wire part\<close>

text \<open>
  An informational status is recorded as the final one, and the real one is then dropped: a handler that sends early
  hints and then 404 answers 404 on the bare writer, but through the recorder no final status is sent (the server then
  makes it 200), and the line says 103.
\<close>

lemma early_hints_lose_the_status:
  "hw_status (fst (run_handler bare_op [OpWriteHeader 103, OpWriteHeader 404, OpWrite 9] None example_response)) = 404"
  "hw_status (rr_w (fst (run_handler rr_op [OpWriteHeader 103, OpWriteHeader 404, OpWrite 9] None
     (new_recorder example_response)))) = 200"
  "reported_status (fst (run_handler rr_op [OpWriteHeader 103, OpWriteHeader 404, OpWrite 9] None
     (new_recorder example_response))) None = 103"
  by (simp_all add: http_example_defs reported_status_def)

text \<open>A flush before the header sends 200, which the recorder does not notice: the line reports the later status.\<close>

lemma flush_first_misreports:
  "hw_status (rr_w (fst (run_handler rr_op [OpFlush, OpWriteHeader 500] None (new_recorder example_response)))) = 200"
  "reported_status (fst (run_handler rr_op [OpFlush, OpWriteHeader 500] None (new_recorder example_response))) None = 500"
  by (simp_all add: http_example_defs reported_status_def)

text \<open>An invalid code panics in the server before anything is sent, and yet it is the status the line reports.\<close>

lemma invalid_code_is_reported:
  "snd (run_handler rr_op [OpWriteHeader 42] None (new_recorder example_response)) \<noteq> None"
  "\<not> hw_wroteHeader (rr_w (fst (run_handler rr_op [OpWriteHeader 42] None (new_recorder example_response))))"
  "reported_status (fst (run_handler rr_op [OpWriteHeader 42] None (new_recorder example_response)))
     (snd (run_handler rr_op [OpWriteHeader 42] None (new_recorder example_response))) = 42"
  by (simp_all add: http_example_defs reported_status_def)

end
