(* ===== verification/GrpcInterceptor.thy ===== *)
theory GrpcInterceptor
  imports HttpMiddleware
begin

text \<open>
  \<open>grpc/interceptor.go\<close>: the four interceptors, the correlation ID they read and pass on, and the client stream that
  logs once.

  The gRPC library is not part of the repository. What the code uses of it is an argument: \<open>grpc_lib\<close> has the
  functions of \<open>status\<close> and \<open>codes\<close>, \<open>grpc_ctx\<close> what the code reads from a context, and handlers, invokers and streams
  are given by how they end.
\<close>

section \<open>The library and the context\<close>

datatype code =
    OK | Canceled | Unknown | InvalidArgument | DeadlineExceeded | NotFound | AlreadyExists | PermissionDenied
  | ResourceExhausted | FailedPrecondition | Aborted | OutOfRange | Unimplemented | Internal | Unavailable
  | DataLoss | Unauthenticated | OtherCode nat

record ('e, 'p) grpc_lib =
  gr_convert :: "'e \<Rightarrow> code"
  gr_fromContext :: "'e \<Rightarrow> code"
  gr_codeString :: "code \<Rightarrow> bytes"
  gr_errorText :: "'e \<Rightarrow> bytes"
  gr_isEOF :: "'e \<Rightarrow> bool"
  gr_isContext :: "'e \<Rightarrow> bool"
  gr_internalError :: 'e
  gr_payload :: "'p \<Rightarrow> go_value"

text \<open>
  Metadata keys are ASCII and not case-sensitive, by gRPC's documentation: an upper-case letter is converted when a key
  is put into metadata, and \<open>MD.Get\<close> converts the key it is asked for.
\<close>

definition md_key :: "bytes \<Rightarrow> bytes" where
  "md_key k = map (\<lambda>c. if 65 \<le> byte c \<and> byte c \<le> 90 then char_of (byte c + 32) else c) k"

definition MD_Get :: "(bytes \<Rightarrow> bytes list) \<Rightarrow> bytes \<Rightarrow> bytes list" where
  "MD_Get md k = md (md_key k)"

text \<open>
  Of a context: the incoming metadata, the value under the package's key, the peer (whose address may be nil), the
  deadline, the time at which a line is built, and the outgoing metadata.
\<close>

record grpc_ctx =
  gc_incoming :: "(bytes \<Rightarrow> bytes list) option"
  gc_requestID :: "bytes option"
  gc_peer :: "bytes option option"
  gc_deadline :: "time option"
  gc_now :: time
  gc_outgoing :: "(bytes \<times> bytes) list"

section \<open>Options\<close>

definition DefaultMetadataKeys :: "bytes list" where
  "DefaultMetadataKeys = [''x-request-id'', ''x-correlation-id'']"

definition grpc_defaultLevelFor :: "code \<Rightarrow> int" where
  "grpc_defaultLevelFor c =
     (if c = OK then LevelInfo
      else if c \<in> {Canceled, DeadlineExceeded, Unavailable, ResourceExhausted,
                   InvalidArgument, NotFound, AlreadyExists, PermissionDenied,
                   Unauthenticated, FailedPrecondition, OutOfRange, Aborted} then LevelWarn
      else LevelError)"

record grpc_options =
  go_LevelFor :: "(code \<Rightarrow> int) option"
  go_MetadataKeys :: "bytes list"
  go_DisablePanicRecovery :: bool
  go_SkipMethods :: "bytes list"
  go_LogPayloads :: bool

record resolved =
  re_levelFor :: "code \<Rightarrow> int"
  re_keys :: "bytes list"
  re_skip :: "bytes set"

definition resolve :: "grpc_options \<Rightarrow> resolved" where
  "resolve opts =
     (let levelFor = (case go_LevelFor opts of None \<Rightarrow> grpc_defaultLevelFor | Some f \<Rightarrow> f);
          ks = go_MetadataKeys opts;
          ks = (if length ks = 0 then DefaultMetadataKeys else ks);
          skip = fold (\<lambda>m skip. insert m skip) (go_SkipMethods opts) {}
      in \<lparr>re_levelFor = levelFor, re_keys = ks, re_skip = skip\<rparr>)"

definition skipped :: "resolved \<Rightarrow> bytes \<Rightarrow> bool" where
  "skipped r method = (method \<in> re_skip r)"

definition grpc_RequestIDFrom :: "grpc_ctx option \<Rightarrow> bytes \<times> bool" where
  "grpc_RequestIDFrom ctx =
     (case ctx of None \<Rightarrow> ([], False)
      | Some c \<Rightarrow> (case gc_requestID c of Some rid \<Rightarrow> (rid, True) | None \<Rightarrow> ([], False)))"

fun first_key :: "(bytes \<Rightarrow> bytes list) \<Rightarrow> bytes list \<Rightarrow> bytes \<times> bool" where
  "first_key get [] = ([], False)"
| "first_key get (k # ks) =
     (case get k of v # vs \<Rightarrow> if v \<noteq> [] then (v, True) else first_key get ks | [] \<Rightarrow> first_key get ks)"

definition extractRequestID :: "grpc_ctx \<Rightarrow> bytes list \<Rightarrow> bytes \<times> bool" where
  "extractRequestID ctx ks = (case gc_incoming ctx of None \<Rightarrow> ([], False) | Some md \<Rightarrow> first_key (MD_Get md) ks)"

section \<open>Server\<close>

datatype ('p, 'e) call_end = Returns "'p option" "'e option" | Panics panic_value

text \<open>What an interceptor makes of a call: how it ends for its caller, and the calls of the logger.\<close>

type_synonym log_lines = "(int \<times> bytes \<times> go_value list) list"

definition id_fields :: "bytes \<Rightarrow> bool \<Rightarrow> go_value list" where
  "id_fields requestID hasID = (if hasID then field ''request_id'' (StringValue requestID) else [])"

definition peerAddr :: "grpc_ctx \<Rightarrow> bytes \<times> bool" where
  "peerAddr ctx =
     (case gc_peer ctx of
        None \<Rightarrow> ([], False)
      | Some addr \<Rightarrow> (case addr of None \<Rightarrow> ([], False) | Some a \<Rightarrow> (a, True)))"

text \<open>\<open>Duration.Milliseconds\<close> rounds towards zero, and \<open>time.Until\<close> is negative after the deadline.\<close>

definition Milliseconds :: "duration \<Rightarrow> int" where
  "Milliseconds d = (if d < 0 then - (- d div 1000000) else d div 1000000)"

definition deadlineMillis :: "grpc_ctx \<Rightarrow> int \<times> bool" where
  "deadlineMillis ctx =
     (case gc_deadline ctx of None \<Rightarrow> (0, False) | Some d \<Rightarrow> (Milliseconds (time_Sub d (gc_now ctx)), True))"

definition deadline_fields :: "grpc_ctx \<Rightarrow> go_value list" where
  "deadline_fields ctx = (let (ms, ok) = deadlineMillis ctx in if ok then field ''deadline_ms'' (Int64Value ms) else [])"

definition peer_fields :: "grpc_ctx \<Rightarrow> go_value list" where
  "peer_fields ctx = (let (addr, ok) = peerAddr ctx in if ok then field ''peer'' (StringValue addr) else [])"

definition code_field :: "('e, 'p) grpc_lib \<Rightarrow> code \<Rightarrow> go_value list" where
  "code_field lib c = field ''code'' (StringValue (gr_codeString lib c))"

text \<open>\<open>status.Convert(err).Code()\<close>, which is \<open>OK\<close> for a nil error.\<close>

definition status_code :: "('e, 'p) grpc_lib \<Rightarrow> 'e option \<Rightarrow> code" where
  "status_code lib err = (case err of None \<Rightarrow> OK | Some e \<Rightarrow> gr_convert lib e)"

definition grpc_panicValue :: "panic_value \<Rightarrow> bytes" where
  "grpc_panicValue rec =
     (case rec of AbortHandler \<Rightarrow> ''net/http: abort Handler'' | PanicError text \<Rightarrow> text | PanicOther text \<Rightarrow> text)"

definition panic_fields :: "('e, 'p) grpc_lib \<Rightarrow> panic_value \<Rightarrow> bytes \<Rightarrow> go_value list" where
  "panic_fields lib rec stack =
     code_field lib Internal @ field ''panic'' (StringValue (grpc_panicValue rec)) @ field ''stack'' (StringValue stack)"

definition UnaryServerInterceptor ::
  "('e, 'p) grpc_lib \<Rightarrow> grpc_options \<Rightarrow> grpc_ctx \<Rightarrow> 'p \<Rightarrow> bytes \<Rightarrow> int \<Rightarrow> bytes \<Rightarrow>
   (grpc_ctx \<Rightarrow> 'p \<Rightarrow> ('p, 'e) call_end) \<Rightarrow> ('p, 'e) call_end \<times> log_lines" where
  "UnaryServerInterceptor lib opts ctx req method elapsed stack handler =
     (let r = resolve opts in
      if skipped r method then (handler ctx req, [])
      else (let (requestID, hasID) = extractRequestID ctx (re_keys r);
                ctx = (if hasID then ctx\<lparr>gc_requestID := Some requestID\<rparr> else ctx);
                fields = field ''method'' (StringValue method) @ field ''duration_ms'' (Int64Value elapsed);
                fields = fields @ id_fields requestID hasID;
                fields = fields @ peer_fields ctx;
                fields = fields @ deadline_fields ctx
            in case handler ctx req of
                 Panics rec \<Rightarrow>
                   (let fields = fields @ panic_fields lib rec stack in
                    (if go_DisablePanicRecovery opts then Panics rec else Returns None (Some (gr_internalError lib)),
                     [(LevelError, ''grpc_call'', fields)]))
               | Returns resp err \<Rightarrow>
                   (let st = status_code lib err;
                        fields = fields @ code_field lib st;
                        fields = (case err of
                            Some e \<Rightarrow> fields @ field ''error'' (StringValue (gr_errorText lib e))
                          | None \<Rightarrow>
                              if go_LogPayloads opts
                              then fields @ [GoString ''request'', gr_payload lib req, GoString ''response'',
                                     case resp of Some p \<Rightarrow> gr_payload lib p | None \<Rightarrow> GoOther (AnyValue None)]
                              else fields)
                    in (Returns resp err, [(re_levelFor r st, ''grpc_call'', fields)]))))"

text \<open>A server stream: what the wrapped stream's operations return, and the counters of the wrapper.\<close>

datatype 'e stream_op = StreamRecv "'e option" | StreamSend "'e option"

record stream_counts =
  st_recvMsgs :: i64
  st_sentMsgs :: i64

fun wrapped_server_op :: "'e stream_op \<Rightarrow> stream_counts \<Rightarrow> stream_counts \<times> 'e option" where
  "wrapped_server_op (StreamRecv err) w =
     ((if err = None then w\<lparr>st_recvMsgs := st_recvMsgs w + 1\<rparr> else w), err)"
| "wrapped_server_op (StreamSend err) w =
     ((if err = None then w\<lparr>st_sentMsgs := st_sentMsgs w + 1\<rparr> else w), err)"

definition StreamServerInterceptor ::
  "('e, 'p) grpc_lib \<Rightarrow> grpc_options \<Rightarrow> grpc_ctx \<Rightarrow> bytes \<Rightarrow> int \<Rightarrow> bytes \<Rightarrow>
   (grpc_ctx \<Rightarrow> 'e stream_op list \<times> ('p, 'e) call_end) \<Rightarrow> ('p, 'e) call_end \<times> log_lines" where
  "StreamServerInterceptor lib opts ctx method elapsed stack handler =
     (let r = resolve opts in
      if skipped r method then (snd (handler ctx), [])
      else (let (requestID, hasID) = extractRequestID ctx (re_keys r);
                ctx = (if hasID then ctx\<lparr>gc_requestID := Some requestID\<rparr> else ctx);
                (ops, fin) = handler ctx;
                wrapped = fold (\<lambda>x w. fst (wrapped_server_op x w)) ops \<lparr>st_recvMsgs = 0, st_sentMsgs = 0\<rparr>;
                fields = field ''method'' (StringValue method) @ field ''duration_ms'' (Int64Value elapsed) @
                  field ''msg_received'' (Int64Value (sint (st_recvMsgs wrapped))) @ field ''msg_sent'' (Int64Value (sint (st_sentMsgs wrapped)));
                fields = fields @ id_fields requestID hasID;
                fields = fields @ peer_fields ctx;
                fields = fields @ deadline_fields ctx
            in case fin of
                 Panics rec \<Rightarrow>
                   (let fields = fields @ panic_fields lib rec stack in
                    (if go_DisablePanicRecovery opts then Panics rec else Returns None (Some (gr_internalError lib)),
                     [(LevelError, ''grpc_call'', fields)]))
               | Returns resp err \<Rightarrow>
                   (let st = status_code lib err;
                        fields = fields @ code_field lib st;
                        fields = (case err of
                            Some e \<Rightarrow> fields @ field ''error'' (StringValue (gr_errorText lib e)) | None \<Rightarrow> fields)
                    in (Returns resp err, [(re_levelFor r st, ''grpc_call'', fields)]))))"

definition UnaryLoggingInterceptor ::
  "('e, 'p) grpc_lib \<Rightarrow> grpc_ctx \<Rightarrow> 'p \<Rightarrow> bytes \<Rightarrow> int \<Rightarrow> bytes \<Rightarrow>
   (grpc_ctx \<Rightarrow> 'p \<Rightarrow> ('p, 'e) call_end) \<Rightarrow> ('p, 'e) call_end \<times> log_lines" where
  "UnaryLoggingInterceptor lib =
     UnaryServerInterceptor lib
       \<lparr>go_LevelFor = None, go_MetadataKeys = [], go_DisablePanicRecovery = False, go_SkipMethods = [], go_LogPayloads = False\<rparr>"

section \<open>Client\<close>

definition AppendToOutgoingContext :: "grpc_ctx \<Rightarrow> bytes \<Rightarrow> bytes \<Rightarrow> grpc_ctx" where
  "AppendToOutgoingContext ctx k v = ctx\<lparr>gc_outgoing := gc_outgoing ctx @ [(md_key k, v)]\<rparr>"

definition client_ctx :: "resolved \<Rightarrow> grpc_ctx \<Rightarrow> grpc_ctx" where
  "client_ctx r ctx =
     (let (requestID, hasID) = grpc_RequestIDFrom (Some ctx)
      in if hasID then AppendToOutgoingContext ctx (re_keys r ! 0) requestID else ctx)"

definition UnaryClientInterceptor ::
  "('e, 'p) grpc_lib \<Rightarrow> grpc_options \<Rightarrow> grpc_ctx \<Rightarrow> bytes \<Rightarrow> 'p \<Rightarrow> int \<Rightarrow>
   (grpc_ctx \<Rightarrow> 'p \<times> 'e option) \<Rightarrow> 'e option \<times> log_lines" where
  "UnaryClientInterceptor lib opts ctx method req elapsed invoker =
     (let r = resolve opts in
      if skipped r method then (snd (invoker ctx), [])
      else (let (requestID, hasID) = grpc_RequestIDFrom (Some ctx);
                ctx = client_ctx r ctx;
                (reply, err) = invoker ctx;
                st = status_code lib err;
                fields = field ''method'' (StringValue method) @ field ''duration_ms'' (Int64Value elapsed) @ code_field lib st;
                fields = fields @ id_fields requestID hasID;
                fields = fields @ deadline_fields ctx;
                fields = (case err of
                    Some e \<Rightarrow> fields @ field ''error'' (StringValue (gr_errorText lib e))
                  | None \<Rightarrow>
                      if go_LogPayloads opts
                      then fields @ [GoString ''request'', gr_payload lib req, GoString ''response'', gr_payload lib reply]
                      else fields)
            in (err, [(re_levelFor r st, ''grpc_call'', fields)])))"

text \<open>
  A client stream, with its once, its \<open>done\<close> channel and the goroutine that watches the context. An event is an
  operation of the caller with what the wrapped stream returned, the context's end, or the watcher seeing \<open>done\<close>.
\<close>

record client_stream =
  ws_serverStreams :: bool
  ws_once :: bool
  ws_done :: bool
  ws_watching :: bool
  ws_recvMsgs :: i64
  ws_sentMsgs :: i64
  ws_lines :: log_lines
  ws_closed_twice :: bool

datatype 'e stream_event = EvSend "'e option" | EvRecv "'e option" | EvCloseSend "'e option" | EvCtxDone 'e | EvWatchDone

record ('e, 'p) stream_call =
  sc_lib :: "('e, 'p) grpc_lib"
  sc_levelFor :: "code \<Rightarrow> int"
  sc_method :: bytes
  sc_elapsed :: int
  sc_requestID :: "bytes \<times> bool"

text \<open>The code a stream's error is logged with, and its text.\<close>

definition end_code :: "('e, 'p) grpc_lib \<Rightarrow> 'e option \<Rightarrow> code \<times> bytes" where
  "end_code lib streamErr =
     (case streamErr of
        None \<Rightarrow> (OK, [])
      | Some e \<Rightarrow>
          if gr_isEOF lib e then (OK, [])
          else if gr_isContext lib e then (gr_fromContext lib e, gr_errorText lib e)
          else (gr_convert lib e, gr_errorText lib e))"

definition logEnd :: "('e, 'p) stream_call \<Rightarrow> 'e option \<Rightarrow> client_stream \<Rightarrow> client_stream" where
  "logEnd c streamErr w =
     (let (cd, errMsg) = end_code (sc_lib c) streamErr;
          fields = field ''method'' (StringValue (sc_method c)) @ field ''duration_ms'' (Int64Value (sc_elapsed c)) @
            code_field (sc_lib c) cd @
            field ''msg_received'' (Int64Value (sint (ws_recvMsgs w))) @ field ''msg_sent'' (Int64Value (sint (ws_sentMsgs w)));
          fields = fields @ id_fields (fst (sc_requestID c)) (snd (sc_requestID c));
          fields = (if errMsg \<noteq> [] then fields @ field ''error'' (StringValue errMsg) else fields)
      in w\<lparr>ws_lines := ws_lines w @ [(sc_levelFor c cd, ''grpc_call'', fields)]\<rparr>)"

definition finalize :: "('e, 'p) stream_call \<Rightarrow> 'e option \<Rightarrow> client_stream \<Rightarrow> client_stream" where
  "finalize c err w =
     (if ws_once w then w
      else (let w = logEnd c err (w\<lparr>ws_once := True\<rparr>)
            in if ws_done w then w\<lparr>ws_closed_twice := True\<rparr> else w\<lparr>ws_done := True\<rparr>))"

fun client_stream_op :: "('e, 'p) stream_call \<Rightarrow> 'e stream_event \<Rightarrow> client_stream \<Rightarrow> client_stream" where
  "client_stream_op c (EvSend err) w =
     (case err of Some e \<Rightarrow> finalize c (Some e) w | None \<Rightarrow> w\<lparr>ws_sentMsgs := ws_sentMsgs w + 1\<rparr>)"
| "client_stream_op c (EvRecv err) w =
     (case err of
        Some e \<Rightarrow> finalize c (Some e) w
      | None \<Rightarrow>
          (let w = w\<lparr>ws_recvMsgs := ws_recvMsgs w + 1\<rparr>
           in if \<not> ws_serverStreams w then finalize c None w else w))"
| "client_stream_op c (EvCloseSend err) w = (case err of Some e \<Rightarrow> finalize c (Some e) w | None \<Rightarrow> w)"
| "client_stream_op c (EvCtxDone e) w =
     (if ws_watching w then (finalize c (Some e) w)\<lparr>ws_watching := False\<rparr> else w)"
| "client_stream_op c EvWatchDone w = (if ws_done w then w\<lparr>ws_watching := False\<rparr> else w)"

definition StreamClientInterceptor ::
  "('e, 'p) grpc_lib \<Rightarrow> grpc_options \<Rightarrow> grpc_ctx \<Rightarrow> bool \<Rightarrow> bytes \<Rightarrow> int \<Rightarrow> (grpc_ctx \<Rightarrow> 'e option) \<Rightarrow>
   'e option \<times> (('e, 'p) stream_call \<times> client_stream) option \<times> log_lines" where
  "StreamClientInterceptor lib opts ctx serverStreams method elapsed streamer =
     (let r = resolve opts in
      if skipped r method then (streamer ctx, None, [])
      else (let (requestID, hasID) = grpc_RequestIDFrom (Some ctx);
                ctx = client_ctx r ctx
            in case streamer ctx of
                 Some e \<Rightarrow>
                   (let st = status_code lib (Some e);
                        fields = field ''method'' (StringValue method) @ field ''duration_ms'' (Int64Value elapsed) @
                          code_field lib st @ field ''error'' (StringValue (gr_errorText lib e));
                        fields = fields @ id_fields requestID hasID
                    in (Some e, None, [(re_levelFor r st, ''grpc_call'', fields)]))
               | None \<Rightarrow>
                   (None,
                    Some (\<lparr>sc_lib = lib, sc_levelFor = re_levelFor r, sc_method = method, sc_elapsed = elapsed,
                           sc_requestID = (requestID, hasID)\<rparr>,
                          \<lparr>ws_serverStreams = serverStreams, ws_once = False, ws_done = False, ws_watching = True,
                           ws_recvMsgs = 0, ws_sentMsgs = 0, ws_lines = [], ws_closed_twice = False\<rparr>),
                    [])))"

section \<open>Servers\<close>

lemma resolve_skip [simp]: "re_skip (resolve opts) = set (go_SkipMethods opts)"
proof -
  have "fold (\<lambda>m skip. insert m skip) xs S = set xs \<union> S" for xs and S :: "bytes set"
    by (induction xs arbitrary: S) auto
  then show ?thesis by (simp add: resolve_def Let_def)
qed

lemma resolve_keys: "re_keys (resolve opts) = (if go_MetadataKeys opts = [] then DefaultMetadataKeys else go_MetadataKeys opts)"
  by (simp add: resolve_def Let_def)

definition with_request_id :: "grpc_options \<Rightarrow> grpc_ctx \<Rightarrow> grpc_ctx" where
  "with_request_id opts ctx =
     (case extractRequestID ctx (re_keys (resolve opts)) of
        (rid, True) \<Rightarrow> ctx\<lparr>gc_requestID := Some rid\<rparr> | (_, False) \<Rightarrow> ctx)"

text \<open>What a server interceptor makes of a handler's end.\<close>

definition recovered :: "('e, 'p) grpc_lib \<Rightarrow> grpc_options \<Rightarrow> ('p, 'e) call_end \<Rightarrow> ('p, 'e) call_end" where
  "recovered lib opts fin =
     (case fin of
        Panics rec \<Rightarrow> if go_DisablePanicRecovery opts then Panics rec else Returns None (Some (gr_internalError lib))
      | Returns resp err \<Rightarrow> Returns resp err)"

definition call_level :: "('e, 'p) grpc_lib \<Rightarrow> grpc_options \<Rightarrow> ('p, 'e) call_end \<Rightarrow> int" where
  "call_level lib opts fin =
     (case fin of Panics rec \<Rightarrow> LevelError | Returns resp err \<Rightarrow> re_levelFor (resolve opts) (status_code lib err))"

text \<open>
  A unary server call produces exactly one line (none when skipped), at Error for a panic and otherwise at the level of
  its status; the handler runs on the context with the correlation ID; and its result is passed on untouched, except that
  a panic becomes an Internal status, or goes on unchanged when recovery is disabled.
\<close>

theorem unary_server_exact:
  "fst (UnaryServerInterceptor lib opts ctx req method elapsed stack handler) =
     (if method \<in> set (go_SkipMethods opts) then handler ctx req
      else recovered lib opts (handler (with_request_id opts ctx) req)) \<and>
   map (\<lambda>(level, msg, fields). (level, msg)) (snd (UnaryServerInterceptor lib opts ctx req method elapsed stack handler)) =
     (if method \<in> set (go_SkipMethods opts) then []
      else [(call_level lib opts (handler (with_request_id opts ctx) req), ''grpc_call'')])"
  by (simp add: UnaryServerInterceptor_def with_request_id_def recovered_def call_level_def skipped_def Let_def
      split: prod.splits call_end.splits bool.splits)

lemma stream_counts:
  "fold (\<lambda>x w. fst (wrapped_server_op x w)) ops w =
     \<lparr>st_recvMsgs = st_recvMsgs w + of_nat (length (filter (\<lambda>x. x = StreamRecv None) ops)),
      st_sentMsgs = st_sentMsgs w + of_nat (length (filter (\<lambda>x. x = StreamSend None) ops))\<rparr>"
proof (induction ops arbitrary: w)
  case (Cons x ops)
  then show ?case by (cases x) auto
qed simp

section \<open>The correlation ID\<close>

text \<open>Specification: the first value of the first key that has a non-empty one.\<close>

definition first_present :: "(bytes \<Rightarrow> bytes list) \<Rightarrow> bytes list \<Rightarrow> bytes option" where
  "first_present get ks =
     map_option (\<lambda>k. hd (get k)) (List.find (\<lambda>k. get k \<noteq> [] \<and> hd (get k) \<noteq> []) ks)"

lemma first_key_spec:
  "first_key get ks = (case first_present get ks of None \<Rightarrow> ([], False) | Some v \<Rightarrow> (v, True))"
  by (induction ks) (auto simp: first_present_def split: list.splits)

lemma first_key_nonempty: "first_key get ks = (v, True) \<Longrightarrow> v \<noteq> []"
  by (induction ks) (auto split: list.splits if_splits)

text \<open>The metadata the next server reads: the outgoing pairs, grouped by key.\<close>

definition transported :: "grpc_ctx \<Rightarrow> bytes \<Rightarrow> bytes list" where
  "transported ctx k = map snd (filter (\<lambda>p. md_key (fst p) = k) (gc_outgoing ctx))"

lemma md_key_twice [simp]: "md_key (md_key k) = md_key k"
proof -
  have "byte c + 32 < 256" if "byte c \<le> 90" for c using that by simp
  then show ?thesis by (auto simp: md_key_def byte_def)
qed

text \<open>
  C31. End-to-end correlation: an ID that a server interceptor picks up rides along on a call its handler makes through a
  client interceptor, and the next server, which gets the metadata as it was sent (\<open>transported\<close>), picks up the same ID. Two
  things are needed: the client's first metadata key is the next server's first one, as with the same keys everywhere, in
  whatever case; and the handler put no value of its own under that key, in any spelling. \<open>with_request_id\<close> and
  \<open>client_ctx\<close> are what the interceptors make of the context for a method their options do not skip.
\<close>

theorem request_id_crosses_hop:
  assumes "extractRequestID ctx (re_keys (resolve server)) = (rid, True)"
    and "md_key (re_keys (resolve client) ! 0) = md_key (re_keys (resolve next_server) ! 0)"
    and "md_key (re_keys (resolve client) ! 0) \<notin> (md_key \<circ> fst) ` set (gc_outgoing ctx)"
    and "gc_incoming ctx' = Some (transported (client_ctx (resolve client) (with_request_id server ctx)))"
  shows "extractRequestID ctx' (re_keys (resolve next_server)) = (rid, True)"
proof -
  have some: "re_keys (resolve opts) \<noteq> []" for opts by (simp add: resolve_keys DefaultMetadataKeys_def)
  obtain k ks where ks: "re_keys (resolve next_server) = k # ks" using some by (cases "re_keys (resolve next_server)") simp_all
  let ?c = "re_keys (resolve client) ! 0"
  from assms(1) have rid: "rid \<noteq> []" by (auto simp: extractRequestID_def split: option.splits dest: first_key_nonempty)
  have "client_ctx (resolve client) (with_request_id server ctx) =
      ctx\<lparr>gc_requestID := Some rid, gc_outgoing := gc_outgoing ctx @ [(md_key ?c, rid)]\<rparr>"
    using assms(1) by (simp add: client_ctx_def with_request_id_def grpc_RequestIDFrom_def AppendToOutgoingContext_def)
  moreover have "filter (\<lambda>p. md_key (fst p) = md_key k) (gc_outgoing ctx) = []"
    using assms(2,3) by (auto simp: filter_empty_conv ks image_iff)
  ultimately have "MD_Get (transported (client_ctx (resolve client) (with_request_id server ctx))) k = [rid]"
    using assms(2) by (simp add: transported_def MD_Get_def ks)
  then show ?thesis using rid by (simp add: extractRequestID_def assms(4) ks)
qed

definition example_call_ctx :: grpc_ctx where
  "example_call_ctx =
     \<lparr>gc_incoming = Some (\<lambda>k. if k = ''x-correlation-id'' then [''abc''] else []), gc_requestID = None, gc_peer = None,
      gc_deadline = None, gc_now = 0, gc_outgoing = []\<rparr>"

definition example_call_options :: "bytes list \<Rightarrow> grpc_options" where
  "example_call_options ks =
     \<lparr>go_LevelFor = None, go_MetadataKeys = ks, go_DisablePanicRecovery = False, go_SkipMethods = [], go_LogPayloads = False\<rparr>"

lemma example_keys: "md_key ''X-Request-ID'' = ''x-request-id''" "md_key ''x-request-id'' = ''x-request-id''"
  by code_simp+

theorem request_id_crosses_hop_witness:
  "extractRequestID (example_call_ctx\<lparr>gc_incoming := Some (transported (client_ctx (resolve (example_call_options [''X-Request-ID'']))
       (with_request_id (example_call_options []) example_call_ctx)))\<rparr>) (re_keys (resolve (example_call_options []))) =
   (''abc'', True)"
proof (rule request_id_crosses_hop)
  show "extractRequestID example_call_ctx (re_keys (resolve (example_call_options []))) = (''abc'', True)"
    by (simp add: extractRequestID_def example_call_ctx_def resolve_keys example_call_options_def DefaultMetadataKeys_def
        MD_Get_def md_key_def byte_def)
  show "md_key (re_keys (resolve (example_call_options [''X-Request-ID''])) ! 0) =
      md_key (re_keys (resolve (example_call_options [])) ! 0)"
    by (simp add: resolve_keys example_call_options_def DefaultMetadataKeys_def example_keys)
qed (simp_all add: example_call_ctx_def)

section \<open>Client streams\<close>

text \<open>What ends a stream, with the error it is logged with.\<close>

fun stream_end :: "bool \<Rightarrow> 'e stream_event \<Rightarrow> 'e option option" where
  "stream_end many (EvSend err) = map_option Some err"
| "stream_end many (EvRecv err) = (case err of Some e \<Rightarrow> Some (Some e) | None \<Rightarrow> if many then None else Some None)"
| "stream_end many (EvCloseSend err) = map_option Some err"
| "stream_end many (EvCtxDone e) = Some (Some e)"
| "stream_end many EvWatchDone = None"

definition run_stream :: "('e, 'p) stream_call \<Rightarrow> 'e stream_event list \<Rightarrow> client_stream \<Rightarrow> client_stream" where
  "run_stream c evs w = fold (client_stream_op c) evs w"

definition new_stream :: "bool \<Rightarrow> client_stream" where
  "new_stream many =
     \<lparr>ws_serverStreams = many, ws_once = False, ws_done = False, ws_watching = True,
      ws_recvMsgs = 0, ws_sentMsgs = 0, ws_lines = [], ws_closed_twice = False\<rparr>"

text \<open>The level and the message of the one line.\<close>

definition end_level :: "('e, 'p) stream_call \<Rightarrow> 'e option \<Rightarrow> int" where
  "end_level c err = sc_levelFor c (fst (end_code (sc_lib c) err))"

definition stream_inv :: "('e, 'p) stream_call \<Rightarrow> bool \<Rightarrow> 'e stream_event list \<Rightarrow> client_stream \<Rightarrow> bool" where
  "stream_inv c many evs w \<longleftrightarrow>
     ws_serverStreams w = many \<and> ws_done w = ws_once w \<and> \<not> ws_closed_twice w \<and>
     (ws_once w \<or> ws_watching w) \<and>
     (case List.map_filter (stream_end many) evs of
        [] \<Rightarrow> \<not> ws_once w \<and> ws_lines w = []
      | err # _ \<Rightarrow> ws_once w \<and> map (\<lambda>(level, msg, fields). (level, msg)) (ws_lines w) = [(end_level c err, ''grpc_call'')])"

lemma map_filter_snoc: "List.map_filter f (xs @ [x]) = List.map_filter f xs @ (case f x of None \<Rightarrow> [] | Some y \<Rightarrow> [y])"
  by (simp add: List.map_filter_def split: option.splits)

lemma finalize_effect:
  assumes "stream_inv c many evs w" "stream_end many ev = Some err"
  shows "stream_inv c many (evs @ [ev]) (finalize c err w)"
  using assms
  by (auto simp: stream_inv_def finalize_def logEnd_def end_level_def map_filter_snoc Let_def
      split: list.splits prod.splits)

lemma op_stream_inv:
  assumes "stream_inv c many evs w"
  shows "stream_inv c many (evs @ [ev]) (client_stream_op c ev w)"
proof (cases "stream_end many ev")
  case None
  then have "List.map_filter (stream_end many) (evs @ [ev]) = List.map_filter (stream_end many) evs"
    by (simp add: map_filter_snoc)
  with None assms show ?thesis
    by (cases ev) (auto simp: stream_inv_def split: option.splits list.splits if_splits)
next
  case (Some err)
  note fin = finalize_effect [OF _ Some]
  show ?thesis
  proof (cases ev)
    case (EvRecv e)
    have "stream_inv c many evs (w\<lparr>ws_recvMsgs := ws_recvMsgs w + 1\<rparr>)"
      using assms by (simp add: stream_inv_def split: list.splits)
    note fin [OF this] fin [OF assms]
    moreover have "ws_serverStreams w = many" using assms by (simp add: stream_inv_def)
    ultimately show ?thesis using EvRecv Some by (cases e) (auto simp: Let_def split: if_splits)
  next
    case (EvCtxDone e)
    have "stream_inv c many (evs @ [ev]) (finalize c err w)" using fin assms by blast
    moreover have "ws_once (finalize c err w)" by (simp add: finalize_def logEnd_def Let_def split: prod.splits)
    moreover have "stream_inv c many (evs @ [ev]) w" if "\<not> ws_watching w"
      using that assms Some by (auto simp: stream_inv_def map_filter_snoc split: list.splits)
    ultimately show ?thesis using EvCtxDone Some by (auto simp: stream_inv_def split: list.splits)
  qed (use Some assms fin in \<open>auto split: option.splits\<close>)
qed

lemma run_stream_inv: "stream_inv c many evs w \<Longrightarrow> stream_inv c many (evs @ evs2) (run_stream c evs2 w)"
proof (induction evs2 arbitrary: evs w)
  case (Cons ev evs2)
  from Cons.IH [OF op_stream_inv [OF Cons.prems, of ev]] show ?case by (simp add: run_stream_def)
qed (simp add: run_stream_def)

lemma new_stream_inv: "stream_inv c many evs (run_stream c evs (new_stream many))"
  using run_stream_inv [of c many "[]" "new_stream many" evs]
  by (simp add: stream_inv_def new_stream_def List.map_filter_simps)

lemma client_stream_lines:
  "map (\<lambda>(level, msg, fields). (level, msg)) (ws_lines (run_stream c evs (new_stream many))) =
     (case List.map_filter (stream_end many) evs of [] \<Rightarrow> [] | err # _ \<Rightarrow> [(end_level c err, ''grpc_call'')])"
  using new_stream_inv [of c many evs] by (auto simp: stream_inv_def split: list.splits)

text \<open>
  C30. A client stream logs exactly once, whatever the order of sends, receives, closes and the context's end: nothing
  before the first event that ends the stream, and for that event one line with its code's level. \<open>done\<close> is closed
  once, at the same moment, so the watching goroutine can always exit afterwards.
\<close>

theorem client_stream_logs_once:
  "map (\<lambda>(level, msg, fields). (level, msg)) (ws_lines (run_stream c evs (new_stream many))) =
     (case List.map_filter (stream_end many) evs of [] \<Rightarrow> [] | err # _ \<Rightarrow> [(end_level c err, ''grpc_call'')]) \<and>
   (ws_done (run_stream c evs (new_stream many)) \<longleftrightarrow> List.map_filter (stream_end many) evs \<noteq> []) \<and>
   \<not> ws_closed_twice (run_stream c evs (new_stream many)) \<and>
   (ws_done (run_stream c evs (new_stream many)) \<longleftrightarrow>
      \<not> ws_watching (run_stream c (evs @ [EvWatchDone]) (new_stream many)))"
proof -
  note inv = new_stream_inv [of c many evs]
  have "run_stream c (evs @ [EvWatchDone]) (new_stream many) =
      client_stream_op c EvWatchDone (run_stream c evs (new_stream many))"
    by (simp add: run_stream_def)
  with inv show ?thesis by (auto simp: stream_inv_def split: list.splits)
qed

section \<open>A failed stream can be logged as a success\<close>

text \<open>
  When the server ends a stream with an error, the library's \<open>SendMsg\<close> returns \<open>io.EOF\<close> and the status comes from the next
  \<open>RecvMsg\<close>. The wrapper takes the \<open>io.EOF\<close> of a send for a clean end, so such a call is logged as OK.
\<close>

lemma send_eof_logs_ok:
  assumes "gr_isEOF (sc_lib c) eof" "sc_levelFor c = grpc_defaultLevelFor"
  shows "map (\<lambda>(level, msg, fields). (level, msg)) (ws_lines (run_stream c [EvSend (Some eof), EvRecv (Some e)] (new_stream many))) =
    [(LevelInfo, ''grpc_call'')]"
  using client_stream_lines [of c "[EvSend (Some eof), EvRecv (Some e)]" many] assms
  by (simp add: end_level_def end_code_def grpc_defaultLevelFor_def List.map_filter_simps)

end
