(* ===== verification/Strconv.thy ===== *)
theory Strconv
  imports Prelude
begin

text \<open>
  What the console handler (\<open>handler/console_handler.go\<close>) uses of \<open>unicode/utf8\<close>, \<open>unicode\<close> and \<open>strconv\<close>: the
  decomposition of a string into runes, \<open>unicode.IsSpace\<close>, \<open>unicode.IsControl\<close> and \<open>strconv.Quote\<close>, with
  a reader of quoted values (\<open>unquote\<close>) to state that nothing is lost.

  Only the table of printable runes beyond Latin-1 is a parameter (\<open>up\<close>).
\<close>

section \<open>Runes\<close>

text \<open>A rune of a string, with the bytes it was read from: an invalid byte reads as \<open>RuneError\<close> of width 1.\<close>

type_synonym rune = "nat \<times> bytes"

definition RuneError :: nat where
  "RuneError = 65533"

definition is_cont :: "nat \<Rightarrow> nat \<Rightarrow> char \<Rightarrow> bool" where
  "is_cont lo hi c \<longleftrightarrow> lo \<le> byte c \<and> byte c \<le> hi"

definition cont :: "char \<Rightarrow> nat" where
  "cont c = byte c mod 64"

text \<open>The range a second byte must be in, and how many bytes follow a first byte.\<close>

definition second_range :: "nat \<Rightarrow> nat \<times> nat" where
  "second_range b =
     (if b = 224 then (160, 191) else if b = 237 then (128, 159)
      else if b = 240 then (144, 191) else if b = 244 then (128, 143) else (128, 191))"

definition following :: "nat \<Rightarrow> nat" where
  "following b =
     (if 194 \<le> b \<and> b \<le> 223 then 1 else if 224 \<le> b \<and> b \<le> 239 then 2 else if 240 \<le> b \<and> b \<le> 244 then 3 else 0)"

definition well_followed :: "nat \<Rightarrow> bytes \<Rightarrow> bool" where
  "well_followed b s \<longleftrightarrow> length s = following b \<and> following b > 0 \<and>
     is_cont (fst (second_range b)) (snd (second_range b)) (hd s) \<and> list_all (is_cont 128 191) (tl s)"

text \<open>\<open>utf8.DecodeRuneInString\<close> on a non-empty string: the rune, and the number of bytes after the first.\<close>

definition DecodeRune :: "char \<Rightarrow> bytes \<Rightarrow> nat \<times> nat" where
  "DecodeRune c s =
     (let b = byte c; more = take (following b) s in
      if b < 128 then (b, 0)
      else if well_followed b more
        then (foldl (\<lambda>r d. 64 * r + cont d) (b mod (if following b = 1 then 32 else if following b = 2 then 16 else 8)) more,
              following b)
      else (RuneError, 0))"

fun runes :: "bytes \<Rightarrow> rune list" where
  "runes [] = []"
| "runes (c # s) =
     (let (r, n) = DecodeRune c s in (r, c # take n s) # runes (drop n s))"

declare runes.simps(2) [simp del]

lemma concat_runes: "concat (map snd (runes s)) = s"
  by (induction s rule: runes.induct) (auto simp: runes.simps(2) split: prod.splits)

text \<open>\<open>utf8.ValidRune\<close> and \<open>utf8.AppendRune\<close> (for a valid rune).\<close>

definition valid_rune :: "nat \<Rightarrow> bool" where
  "valid_rune r \<longleftrightarrow> r < 55296 \<or> 57343 < r \<and> r \<le> 1114111"

definition AppendRune :: "nat \<Rightarrow> bytes" where
  "AppendRune r =
     (if r < 128 then [char_of r]
      else if r < 2048 then map char_of [192 + r div 64, 128 + r mod 64]
      else if r < 65536 then map char_of [224 + r div 4096, 128 + r div 64 mod 64, 128 + r mod 64]
      else map char_of [240 + r div 262144, 128 + r div 4096 mod 64, 128 + r div 64 mod 64, 128 + r mod 64])"

text \<open>
  A rune is an ASCII byte, an invalid byte, or a valid rune outside ASCII with its encoding: decoding is exact.
\<close>

definition proper_rune :: "rune \<Rightarrow> bool" where
  "proper_rune ru \<longleftrightarrow>
     (\<exists>c. ru = (byte c, [c]) \<and> byte c < 128) \<or> (\<exists>c. ru = (RuneError, [c]) \<and> 128 \<le> byte c) \<or>
     128 \<le> fst ru \<and> valid_rune (fst ru) \<and> snd ru = AppendRune (fst ru)"

lemma mod_block: "m * k \<le> (b :: nat) \<Longrightarrow> b < m * k + k \<Longrightarrow> b mod k = b - m * k"
  by (auto simp: le_iff_add)

lemma byte_less [simp]: "byte c < 256"
  by (simp add: byte_def)

lemma char_of_byte [simp]: "char_of (byte c) = c"
  by (simp add: byte_def)

lemma byte_char_of [simp]: "n < 256 \<Longrightarrow> byte (char_of n) = n"
  by (simp add: byte_def)

lemma cont_block: "is_cont lo hi c \<Longrightarrow> 128 \<le> lo \<Longrightarrow> hi \<le> 191 \<Longrightarrow> byte c = 128 + cont c \<and> cont c < 64"
  using mod_block [of 2 64 "byte c"] by (simp add: is_cont_def cont_def)

lemma second_range_bounds: "128 \<le> fst (second_range b)" "snd (second_range b) \<le> 191"
  by (simp_all add: second_range_def)

lemma six_bits: "(y :: nat) < 64 \<Longrightarrow> (64 * q + y) div 64 = q" "y < 64 \<Longrightarrow> (64 * q + y) mod 64 = y"
  by simp_all

lemma shift_bits: "(r :: nat) div 4096 = r div 64 div 64" "r div 262144 = r div 64 div 64 div 64"
  by (simp_all add: div_mult2_eq [symmetric])

lemma decode2:
  assumes "2 \<le> a" "a < 32" "x < 64"
  shows "128 \<le> 64 * a + x \<and> valid_rune (64 * a + x) \<and> AppendRune (64 * a + x) = map char_of [192 + a, 128 + x]"
  using assms by (simp add: valid_rune_def AppendRune_def)

lemma decode3:
  assumes "a < 16" "x < 64" "y < 64" "a = 0 \<Longrightarrow> 32 \<le> x" "a = 13 \<Longrightarrow> x < 32"
  defines "r \<equiv> 64 * (64 * a + x) + y"
  shows "128 \<le> r \<and> valid_rune r \<and> AppendRune r = map char_of [224 + a, 128 + x, 128 + y]"
proof -
  have "2048 \<le> r" using assms(4) by (cases "a = 0") (simp_all add: r_def)
  moreover have "r < 65536" using assms(1-3) by (simp add: r_def)
  moreover have "valid_rune r"
    using assms(1-3,5) by (cases "a = 13"; cases "a < 13") (simp_all add: r_def valid_rune_def)
  moreover have "r div 64 = 64 * a + x" "r mod 64 = y" using assms(3) by (simp_all only: r_def six_bits)
  ultimately show ?thesis using assms(1-3) by (simp add: AppendRune_def shift_bits six_bits)
qed

lemma decode4:
  assumes "a \<le> 4" "x < 64" "y < 64" "z < 64" "a = 0 \<Longrightarrow> 16 \<le> x" "a = 4 \<Longrightarrow> x < 16"
  defines "r \<equiv> 64 * (64 * (64 * a + x) + y) + z"
  shows "128 \<le> r \<and> valid_rune r \<and> AppendRune r = map char_of [240 + a, 128 + x, 128 + y, 128 + z]"
proof -
  have "65536 \<le> r" using assms(5) by (cases "a = 0") (simp_all add: r_def)
  moreover have "r \<le> 1114111" using assms(1-4,6) by (cases "a = 4") (simp_all add: r_def)
  moreover have "r div 64 div 64 div 64 = a" "r div 64 div 64 mod 64 = x" "r div 64 mod 64 = y" "r mod 64 = z"
    using assms(2-4) by (simp_all only: r_def six_bits)
  ultimately show ?thesis by (simp add: AppendRune_def valid_rune_def shift_bits)
qed

lemma following_blocks:
  "following b = 1 \<Longrightarrow> \<exists>a. b = 192 + a \<and> 2 \<le> a \<and> a < 32 \<and> b mod 32 = a"
  "following b = 2 \<Longrightarrow> \<exists>a. b = 224 + a \<and> a < 16 \<and> b mod 16 = a"
  "following b = 3 \<Longrightarrow> \<exists>a. b = 240 + a \<and> a \<le> 4 \<and> b mod 8 = a"
proof -
  show "\<exists>a. b = 192 + a \<and> 2 \<le> a \<and> a < 32 \<and> b mod 32 = a" if "following b = 1"
    using that mod_block [of 6 32 b] by (intro exI [of _ "b - 192"]) (auto simp: following_def split: if_splits)
  show "\<exists>a. b = 224 + a \<and> a < 16 \<and> b mod 16 = a" if "following b = 2"
    using that mod_block [of 14 16 b] by (intro exI [of _ "b - 224"]) (simp add: following_def split: if_splits)
  show "\<exists>a. b = 240 + a \<and> a \<le> 4 \<and> b mod 8 = a" if "following b = 3"
    using that mod_block [of 30 8 b] by (intro exI [of _ "b - 240"]) (simp add: following_def split: if_splits)
qed

lemma decode_exact:
  assumes "well_followed b more"
  defines "r \<equiv> foldl (\<lambda>r d. 64 * r + cont d) (b mod (if following b = 1 then 32 else if following b = 2 then 16 else 8)) more"
  shows "128 \<le> r \<and> valid_rune r \<and> AppendRune r = char_of b # more"
proof -
  from assms(1) obtain d s where more: "more = d # s" and len: "length s = following b - 1"
    by (cases more) (auto simp: well_followed_def)
  have d: "is_cont (fst (second_range b)) (snd (second_range b)) d" and s: "list_all (is_cont 128 191) s"
    using assms(1) by (simp_all add: well_followed_def more)
  have cd: "byte d = 128 + cont d" "cont d < 64" using cont_block [OF d second_range_bounds] by simp_all
  have cs: "x \<in> set s \<Longrightarrow> byte x = 128 + cont x \<and> cont x < 64" for x
    using cont_block [of 128 191 x] s by (simp add: list_all_iff)
  have bytes: "map char_of [128 + cont c] = [c]" if "byte c = 128 + cont c" for c
    using char_of_byte [of c] that by simp
  consider "following b = 1" | "following b = 2" | "following b = 3"
    using assms(1) by (auto simp: well_followed_def following_def split: if_splits)
  then show ?thesis
  proof cases
    case 1
    then obtain a where b: "b = 192 + a" "2 \<le> a" "a < 32" "b mod 32 = a" using following_blocks(1) by blast
    from decode2 [OF b(2,3) cd(2)] b(1,4) bytes [OF cd(1)] 1 len show ?thesis by (simp add: r_def more)
  next
    case 2
    then obtain a where b: "b = 224 + a" "a < 16" "b mod 16 = a" using following_blocks(2) by blast
    obtain x where x: "s = [x]" using len 2 by (auto simp: length_Suc_conv numeral_2_eq_2)
    have "a = 0 \<Longrightarrow> 32 \<le> cont d" "a = 13 \<Longrightarrow> cont d < 32"
      using d cd by (auto simp: is_cont_def second_range_def b(1))
    from decode3 [OF b(2) cd(2) _ this] cs [of x] bytes [OF cd(1)] bytes [of x] b(1,3) 2 show ?thesis
      by (simp add: r_def more x)
  next
    case 3
    then obtain a where b: "b = 240 + a" "a \<le> 4" "b mod 8 = a" using following_blocks(3) by blast
    obtain x y where x: "s = [x, y]" using len 3 by (auto simp: length_Suc_conv numeral_2_eq_2 numeral_3_eq_3)
    have "a = 0 \<Longrightarrow> 16 \<le> cont d" "a = 4 \<Longrightarrow> cont d < 16"
      using d cd by (auto simp: is_cont_def second_range_def b(1))
    from decode4 [OF b(2) cd(2) _ _ this] cs [of x] cs [of y] bytes [OF cd(1)] bytes [of x] bytes [of y] b(1,3) 3
    show ?thesis by (simp add: r_def more x)
  qed
qed

lemma DecodeRune_proper:
  assumes "DecodeRune c s = (r, n)"
  shows "proper_rune (r, c # take n s)"
proof (cases "byte c < 128")
  case True
  with assms show ?thesis by (auto simp: DecodeRune_def proper_rune_def)
next
  case far: False
  show ?thesis
  proof (cases "well_followed (byte c) (take (following (byte c)) s)")
    case True
    with far assms decode_exact [OF True] show ?thesis
      by (auto simp: DecodeRune_def Let_def proper_rune_def)
  next
    case False
    with far assms show ?thesis by (auto simp: DecodeRune_def Let_def proper_rune_def)
  qed
qed

lemma runes_proper: "list_all proper_rune (runes s)"
  by (induction s rule: runes.induct) (auto simp: runes.simps(2) DecodeRune_proper split: prod.splits)

lemma runes_ascii_byte: "byte c < 128 \<Longrightarrow> runes (c # s) = (byte c, [c]) # runes s"
  by (simp add: runes.simps(2) DecodeRune_def)

section \<open>Classes of runes\<close>

text \<open>\<open>unicode.IsSpace\<close> (the White\_Space property) and \<open>unicode.IsControl\<close> (Cc, all of it in Latin-1).\<close>

definition IsSpace :: "nat \<Rightarrow> bool" where
  "IsSpace r \<longleftrightarrow> 9 \<le> r \<and> r \<le> 13 \<or> r \<in> {32, 133, 160, 5760, 8232, 8233, 8239, 8287, 12288} \<or> 8192 \<le> r \<and> r \<le> 8202"

definition IsControl :: "nat \<Rightarrow> bool" where
  "IsControl r \<longleftrightarrow> r < 32 \<or> 127 \<le> r \<and> r < 160"

text \<open>\<open>strconv.IsPrint\<close>: Latin-1 is spelled out in the code, the rest is the table \<open>up\<close>.\<close>

definition IsPrint :: "(nat \<Rightarrow> bool) \<Rightarrow> nat \<Rightarrow> bool" where
  "IsPrint up r \<longleftrightarrow>
     (if r \<le> 255 then 32 \<le> r \<and> r < 127 \<or> 161 \<le> r \<and> r \<noteq> 173 else up r)"

section \<open>Quoting\<close>

definition hex_digit :: "nat \<Rightarrow> char" where
  "hex_digit d = (if d < 10 then char_of (48 + d) else char_of (87 + d))"

fun hex :: "nat \<Rightarrow> nat \<Rightarrow> bytes" where
  "hex 0 n = []"
| "hex (Suc k) n = hex k (n div 16) @ [hex_digit (n mod 16)]"

definition backslash :: char where
  "backslash = CHR 0x5C"

text \<open>
  \<open>appendEscapedRune\<close> for the quote \<open>"\<close>.
\<close>

definition escape_rune :: "(nat \<Rightarrow> bool) \<Rightarrow> nat \<Rightarrow> bytes" where
  "escape_rune up r =
     (if r = 34 \<or> r = 92 then [backslash, char_of r]
      else if IsPrint up r then AppendRune r
      else if r = 7 then [backslash, CHR ''a'']
      else if r = 8 then [backslash, CHR ''b'']
      else if r = 12 then [backslash, CHR ''f'']
      else if r = 10 then [backslash, CHR ''n'']
      else if r = 13 then [backslash, CHR ''r'']
      else if r = 9 then [backslash, CHR ''t'']
      else if r = 11 then [backslash, CHR ''v'']
      else if r < 32 \<or> r = 127 then [backslash, CHR ''x''] @ hex 2 r
      else if \<not> valid_rune r then [backslash, CHR ''u''] @ hex 4 RuneError
      else if r < 65536 then [backslash, CHR ''u''] @ hex 4 r
      else [backslash, CHR ''U''] @ hex 8 r)"

definition quote_rune :: "(nat \<Rightarrow> bool) \<Rightarrow> rune \<Rightarrow> bytes" where
  "quote_rune up ru =
     (if fst ru = RuneError \<and> length (snd ru) = 1
      then [backslash, CHR ''x''] @ hex 2 (byte (hd (snd ru)))
      else escape_rune up (fst ru))"

definition Quote :: "(nat \<Rightarrow> bool) \<Rightarrow> bytes \<Rightarrow> bytes" where
  "Quote up s = CHR 0x22 # concat (map (quote_rune up) (runes s)) @ [CHR 0x22]"

definition is_ctl :: "char \<Rightarrow> bool" where
  "is_ctl c \<longleftrightarrow> byte c < 32 \<or> byte c = 127"

text \<open>Runes outside ASCII are written with bytes outside ASCII.\<close>

lemma AppendRune_far: "128 \<le> r \<Longrightarrow> valid_rune r \<Longrightarrow> list_all (\<lambda>c. 128 \<le> byte c) (AppendRune r)"
  using div_le_mono [of r 1114111 262144] by (auto simp: AppendRune_def valid_rune_def less_mult_imp_div_less)

lemma hex_digit_byte: "d < 16 \<Longrightarrow> byte (hex_digit d) = (if d < 10 then 48 + d else 87 + d)"
  by (simp add: hex_digit_def)

lemma hex_digit_no_ctl: "d < 16 \<Longrightarrow> \<not> is_ctl (hex_digit d)"
  by (simp add: is_ctl_def hex_digit_byte)

lemma hex_no_ctl: "list_all (\<lambda>c. \<not> is_ctl c) (hex k n)"
  by (induction k arbitrary: n) (simp_all add: hex_digit_no_ctl)

lemma escape_no_ctl: "r < 128 \<or> 128 \<le> r \<and> valid_rune r \<Longrightarrow> list_all (\<lambda>c. \<not> is_ctl c) (escape_rune up r)"
  using AppendRune_far [of r] hex_no_ctl
  by (auto simp: escape_rune_def IsPrint_def is_ctl_def AppendRune_def [of r] list_all_iff backslash_def byte_def)

lemma quote_no_ctl: "list_all (\<lambda>c. \<not> is_ctl c) (Quote up s)"
proof -
  have "list_all (\<lambda>c. \<not> is_ctl c) (quote_rune up ru)" if "proper_rune ru" for ru
    using that escape_no_ctl [of "fst ru" up] hex_no_ctl
    by (auto simp: proper_rune_def quote_rune_def is_ctl_def backslash_def byte_def)
  with runes_proper [of s] have "list_all (\<lambda>c. \<not> is_ctl c) (concat (map (quote_rune up) (runes s)))"
    by (auto simp: list_all_iff)
  then show ?thesis by (simp add: Quote_def is_ctl_def byte_def)
qed

section \<open>Reading a quoted value back\<close>

definition hexval :: "char \<Rightarrow> nat" where
  "hexval c = (if byte c < 58 then byte c - 48 else byte c - 87)"

definition unhex :: "bytes \<Rightarrow> nat" where
  "unhex s = foldl (\<lambda>n c. 16 * n + hexval c) 0 s"

definition simple_escape :: "char \<Rightarrow> char" where
  "simple_escape e =
     (if e = CHR ''a'' then char_of (7 :: nat) else if e = CHR ''b'' then char_of (8 :: nat)
      else if e = CHR ''f'' then char_of (12 :: nat) else if e = CHR ''n'' then char_of (10 :: nat)
      else if e = CHR ''r'' then char_of (13 :: nat) else if e = CHR ''t'' then char_of (9 :: nat)
      else if e = CHR ''v'' then char_of (11 :: nat) else e)"

fun unescape :: "bytes \<Rightarrow> bytes option" where
  "unescape [] = None"
| "unescape (c # s) =
     (if c = CHR 0x22 then (if s = [] then Some [] else None)
      else if c \<noteq> backslash then map_option ((#) c) (unescape s)
      else (case s of
              [] \<Rightarrow> None
            | e # s \<Rightarrow>
                if e = CHR ''x'' then map_option ((#) (char_of (unhex (take 2 s)))) (unescape (drop 2 s))
                else if e = CHR ''u'' then map_option ((@) (AppendRune (unhex (take 4 s)))) (unescape (drop 4 s))
                else if e = CHR ''U'' then map_option ((@) (AppendRune (unhex (take 8 s)))) (unescape (drop 8 s))
                else map_option ((#) (simple_escape e)) (unescape s)))"

declare unescape.simps(2) [simp del]

definition unquote :: "bytes \<Rightarrow> bytes option" where
  "unquote s = (case s of [] \<Rightarrow> None | c # s \<Rightarrow> if c = CHR 0x22 then unescape s else None)"

lemma length_hex [simp]: "length (hex k n) = k"
  by (induction k arbitrary: n) simp_all

lemma unhex_hex: "n < 16 ^ k \<Longrightarrow> unhex (hex k n) = n"
proof (induction k arbitrary: n)
  case (Suc k)
  have "hexval (hex_digit (n mod 16)) = n mod 16" by (simp add: hexval_def hex_digit_byte)
  moreover have "n div 16 < 16 ^ k" using Suc.prems by (simp add: less_mult_imp_div_less mult.commute)
  ultimately show ?case using Suc.IH [of "n div 16"] by (simp add: unhex_def)
qed (simp add: unhex_def)

lemma unescape_hex:
  "n < 16 ^ 2 \<Longrightarrow> unescape (backslash # CHR ''x'' # hex 2 n @ rest) = map_option ((#) (char_of n)) (unescape rest)"
  "n < 16 ^ 4 \<Longrightarrow> unescape (backslash # CHR ''u'' # hex 4 n @ rest) = map_option ((@) (AppendRune n)) (unescape rest)"
  "n < 16 ^ 8 \<Longrightarrow> unescape (backslash # CHR ''U'' # hex 8 n @ rest) = map_option ((@) (AppendRune n)) (unescape rest)"
  using unhex_hex [of n 2] unhex_hex [of n 4] unhex_hex [of n 8]
  by (simp_all add: unescape.simps(2) backslash_def)

lemma unescape_plain: "c \<noteq> CHR 0x22 \<Longrightarrow> c \<noteq> backslash \<Longrightarrow> unescape (c # s) = map_option ((#) c) (unescape s)"
  by (simp add: unescape.simps(2))

lemma far_plain: "128 \<le> byte c \<Longrightarrow> c \<noteq> CHR 0x22 \<and> c \<noteq> backslash"
  by (auto simp: byte_def backslash_def)

lemma unescape_far:
  "list_all (\<lambda>c. 128 \<le> byte c) bs \<Longrightarrow> unescape (bs @ rest) = map_option ((@) bs) (unescape rest)"
  by (induction bs; cases "unescape rest") (simp_all add: unescape_plain far_plain)

lemma unescape_simple:
  "e \<notin> {CHR ''x'', CHR ''u'', CHR ''U''} \<Longrightarrow>
   unescape (backslash # e # s) = map_option ((#) (simple_escape e)) (unescape s)"
  by (simp add: unescape.simps(2) backslash_def)

lemma byte_inj: "byte c = byte d \<Longrightarrow> c = d"
  by (simp add: byte_def)

lemma unescape_ascii:
  assumes "byte c < 128"
  shows "unescape (escape_rune up (byte c) @ rest) = map_option ((#) c) (unescape rest)"
proof -
  show ?thesis
  proof (cases "32 \<le> byte c \<and> byte c < 127")
    case True
    show ?thesis
    proof (cases "byte c = 34 \<or> byte c = 92")
      case True
      then have "c = CHR 0x22 \<or> c = CHR 0x5C"
        using byte_inj [of c "CHR 0x22"] byte_inj [of c "CHR 0x5C"] by (auto simp: byte_def)
      then show ?thesis
        by (auto simp: escape_rune_def byte_def unescape_simple simple_escape_def)
    next
      case False
      then have "c \<noteq> CHR 0x22" "c \<noteq> backslash" by (auto simp: byte_def backslash_def)
      with True False show ?thesis by (simp add: escape_rune_def IsPrint_def AppendRune_def unescape_plain)
    qed
  next
    case False
    with assms have np: "\<not> IsPrint up (byte c)" "byte c < 32 \<or> byte c = 127" "byte c \<noteq> 34" "byte c \<noteq> 92"
      by (auto simp: IsPrint_def)
    show ?thesis
    proof (cases "byte c \<in> {7, 8, 9, 10, 11, 12, 13}")
      case True
      then obtain n :: nat where "n \<in> {7, 8, 9, 10, 11, 12, 13}" "c = char_of n"
        using char_of_byte [of c] by metis
      then show ?thesis
        by (auto simp: escape_rune_def IsPrint_def byte_def unescape_simple simple_escape_def)
    next
      case False
      with np unescape_hex(1) [of "byte c" rest] assms show ?thesis by (simp add: escape_rune_def)
    qed
  qed
qed

lemma unescape_rune:
  assumes "proper_rune ru"
  shows "unescape (quote_rune up ru @ rest) = map_option ((@) (snd ru)) (unescape rest)"
proof -
  consider (ascii) c where "ru = (byte c, [c])" "byte c < 128" | (invalid) c where "ru = (RuneError, [c])" "128 \<le> byte c"
    | (far) "128 \<le> fst ru" "valid_rune (fst ru)" "snd ru = AppendRune (fst ru)"
    using assms by (auto simp: proper_rune_def)
  then show ?thesis
  proof cases
    case ascii
    then show ?thesis
      using unescape_ascii [OF ascii(2)] by (cases "unescape rest") (simp_all add: quote_rune_def RuneError_def)
  next
    case invalid
    then show ?thesis using unescape_hex(1) [of "byte c" rest]
      by (cases "unescape rest") (simp_all add: quote_rune_def)
  next
    case far
    have len: "length (AppendRune (fst ru)) \<noteq> 1" using far by (simp add: AppendRune_def)
    have small: "fst ru < 16 ^ 8" using far(2) by (auto simp: valid_rune_def)
    show ?thesis
      using far len small unescape_far [OF AppendRune_far [OF far(1,2)], of rest]
        unescape_hex(2,3) [of "fst ru" rest]
      by (auto simp: quote_rune_def escape_rune_def)
  qed
qed

lemma unescape_runes:
  "list_all proper_rune rs \<Longrightarrow>
   unescape (concat (map (quote_rune up) rs) @ [CHR 0x22]) = Some (concat (map snd rs))"
  by (induction rs) (simp_all add: unescape_rune unescape.simps(2))

lemma unquote_Quote: "unquote (Quote up s) = Some s"
  using unescape_runes [OF runes_proper [of s], of up] by (simp add: unquote_def Quote_def concat_runes)

end
