(* ===== verification/ConsoleHandler.thy ===== *)
theory ConsoleHandler
  imports SourceHandler Strconv
begin

text \<open>
  \<open>handler/console_handler.go\<close>: the terminal handler for humans. \<open>Handle\<close> is modelled as the bytes of the one
  \<open>Write\<close> it makes, under the mutex, so calls of several goroutines do not interleave.

  Parameters: \<open>format_time layout t\<close>, the text of \<open>Time.Format\<close>; \<open>up\<close>, the printable runes beyond Latin-1;
  and whether the writer is a character device (\<open>isTerminal\<close> asks the operating system).
\<close>

section \<open>The handler\<close>

record console_handler =
  co_level :: int
  co_color :: bool
  co_tfmt :: bytes
  co_ops :: "held_op list"

text \<open>A nil \<open>Level\<close> is \<open>None\<close>.\<close>

record console_options =
  cp_Level :: "int option"
  cp_TimeFormat :: bytes
  cp_NoColor :: bool
  cp_ForceColor :: bool

text \<open>\<open>w.(*os.File)\<close> fails, \<open>Stat\<close> fails, or it reports a mode with the character device bit or without.\<close>

datatype console_writer = NoFile | StatFailed | FileMode bool

definition isTerminal :: "console_writer \<Rightarrow> bool" where
  "isTerminal w = (case w of NoFile \<Rightarrow> False | StatFailed \<Rightarrow> False | FileMode device \<Rightarrow> device)"

definition NewConsoleHandler :: "console_writer \<Rightarrow> console_options \<Rightarrow> console_handler" where
  "NewConsoleHandler w opts =
     (let level = (case cp_Level opts of None \<Rightarrow> LevelInfo | Some l \<Rightarrow> l);
          tfmt = (if cp_TimeFormat opts = [] then ''15:04:05.000'' else cp_TimeFormat opts);
          color = cp_ForceColor opts \<or> isTerminal w;
          color = (if cp_NoColor opts then False else color)
      in \<lparr>co_level = level, co_color = color, co_tfmt = tfmt, co_ops = []\<rparr>)"

definition ConsoleHandler_Enabled :: "console_handler \<Rightarrow> int \<Rightarrow> bool" where
  "ConsoleHandler_Enabled h level = (level \<ge> co_level h)"

definition console_derive :: "console_handler \<Rightarrow> held_op \<Rightarrow> console_handler" where
  "console_derive h op = h\<lparr>co_ops := co_ops h @ [op]\<rparr>"

definition ConsoleHandler_WithAttrs :: "console_handler \<Rightarrow> attr list \<Rightarrow> console_handler" where
  "ConsoleHandler_WithAttrs h attrs =
     (let attrs = filterValidAttrs attrs
      in if length attrs = 0 then h else console_derive h (HeldAttrs attrs))"

definition ConsoleHandler_WithGroup :: "console_handler \<Rightarrow> bytes \<Rightarrow> console_handler" where
  "ConsoleHandler_WithGroup h name = (if name = [] then h else console_derive h (HeldGroup name))"

lemmas console_derive_defs = ConsoleHandler_WithAttrs_def ConsoleHandler_WithGroup_def console_derive_def

interpretation console_holder:
  op_holder co_ops ConsoleHandler_WithAttrs ConsoleHandler_WithGroup "\<lambda>a. Key a \<noteq> []"
  by unfold_locales (auto simp: console_derive_defs Let_def)

section \<open>Rendering\<close>

definition ansiReset :: bytes where "ansiReset = CHR 0x1B # ''[0m''"
definition ansiDim :: bytes where "ansiDim = CHR 0x1B # ''[2m''"
definition ansiBold :: bytes where "ansiBold = CHR 0x1B # ''[1m''"
definition ansiRed :: bytes where "ansiRed = CHR 0x1B # ''[31m''"
definition ansiYellow :: bytes where "ansiYellow = CHR 0x1B # ''[33m''"
definition ansiGreen :: bytes where "ansiGreen = CHR 0x1B # ''[32m''"
definition ansiCyan :: bytes where "ansiCyan = CHR 0x1B # ''[36m''"

definition paint :: "bool \<Rightarrow> bytes \<Rightarrow> bytes \<Rightarrow> bytes \<Rightarrow> bytes" where
  "paint on buf color s = (if \<not> on then buf @ s else buf @ color @ s @ ansiReset)"

definition levelLabel :: "int \<Rightarrow> bytes" where
  "levelLabel l =
     (if l = LevelDebug then ''DBG'' else if l = LevelInfo then ''INF''
      else if l = LevelWarn then ''WRN'' else if l = LevelError then ''ERR'' else level_string l)"

definition levelColor :: "int \<Rightarrow> bytes" where
  "levelColor l =
     (if l \<ge> LevelError then ansiRed else if l \<ge> LevelWarn then ansiYellow
      else if l \<ge> LevelInfo then ansiGreen else ansiCyan)"

definition needs_quote :: "bytes \<Rightarrow> bool" where
  "needs_quote s = list_ex (\<lambda>(r, bs). IsSpace r \<or> r = 34 \<or> r = 61 \<or> IsControl r) (runes s)"

definition quoteIfNeeded :: "(nat \<Rightarrow> bool) \<Rightarrow> bytes \<Rightarrow> bytes" where
  "quoteIfNeeded up s =
     (if s = [] then [CHR 0x22, CHR 0x22] else if needs_quote s then Quote up s else s)"

text \<open>The loop of \<open>sourceLocation\<close> over the members, with the file and the line found so far.\<close>

fun source_members :: "attr list \<Rightarrow> bytes \<times> bytes \<Rightarrow> bytes \<times> bytes" where
  "source_members [] (file, line) = (file, line)"
| "source_members (m # ms) (file, line) =
     source_members ms
       (if Key m = ''file'' then (filepath_Base (value_string (Val m)), line)
        else if Key m = ''line'' then (file, value_string (Val m)) else (file, line))"

definition sourceLocation :: "attr list \<Rightarrow> bytes option" where
  "sourceLocation members =
     (let (file, line) = source_members members ([], []) in
      if file = [] then None else if line = [] then Some file else Some (file @ '':'' @ line))"

definition append_leaf :: "bool \<Rightarrow> (nat \<Rightarrow> bool) \<Rightarrow> bytes \<Rightarrow> bytes \<Rightarrow> bytes \<Rightarrow> slog_value \<Rightarrow> bytes" where
  "append_leaf on up buf prefix k v =
     (let buf = paint on (buf @ '' '') ansiDim (prefix @ k @ ''='');
          val = quoteIfNeeded up (value_string v)
      in if k = ''error'' \<or> k = ''err'' then paint on buf ansiRed val else buf @ val)"

function appendAttr :: "bool \<Rightarrow> (nat \<Rightarrow> bool) \<Rightarrow> bytes \<Rightarrow> attr \<Rightarrow> bytes \<times> bytes \<Rightarrow> bytes \<times> bytes"
  and appendAttrs :: "bool \<Rightarrow> (nat \<Rightarrow> bool) \<Rightarrow> bytes \<Rightarrow> attr list \<Rightarrow> bytes \<times> bytes \<Rightarrow> bytes \<times> bytes" where
  "appendAttr on up prefix (Attr k v0) (buf, source) =
     (let v = Resolve v0; members = group_members v in
      if is_group v then
        (if members = [] then (buf, source)
         else if prefix = [] \<and> k = ''source'' \<and> sourceLocation members \<noteq> None
           then (buf, paint on (source @ '' '') ansiDim (''source='' @ the (sourceLocation members)))
         else appendAttrs on up (if k \<noteq> [] then prefix @ k @ ''.'' else prefix) members (buf, source))
      else if Attr k v = zero_attr then (buf, source)
      else (append_leaf on up buf prefix k v, source))"
| "appendAttrs on up prefix [] bs = bs"
| "appendAttrs on up prefix (a # as) bs = appendAttrs on up prefix as (appendAttr on up prefix a bs)"
  by pat_completeness auto
termination
  by (relation "measure (\<lambda>x. case x of Inl (_, _, _, a, _) \<Rightarrow> size a | Inr (_, _, _, as, _) \<Rightarrow> size_list size as)")
     (auto dest: group_members_smaller)

declare appendAttr.simps [simp del]

text \<open>The loop of \<open>Handle\<close> over the held operations, with the prefix the open groups make.\<close>

fun append_ops :: "bool \<Rightarrow> (nat \<Rightarrow> bool) \<Rightarrow> held_op list \<Rightarrow> bytes \<Rightarrow> bytes \<times> bytes \<Rightarrow> bytes \<times> bytes \<times> bytes" where
  "append_ops on up [] prefix bs = (prefix, bs)"
| "append_ops on up (HeldGroup g # ops) prefix bs = append_ops on up ops (prefix @ g @ ''.'') bs"
| "append_ops on up (HeldAttrs as # ops) prefix bs =
     append_ops on up ops prefix (appendAttrs on up prefix as bs)"

definition console_header :: "(bytes \<Rightarrow> time \<Rightarrow> bytes) \<Rightarrow> console_handler \<Rightarrow> slog_record \<Rightarrow> bytes" where
  "console_header format_time h r =
     (let buf = [];
          buf = (if r_time r \<noteq> 0
                 then paint (co_color h) buf ansiDim (format_time (co_tfmt h) (r_time r)) @ '' '' else buf);
          buf = paint (co_color h) buf (levelColor (r_level r)) (levelLabel (r_level r)) @ '' ''
      in paint (co_color h) buf ansiBold (r_message r))"

definition ConsoleHandler_Handle ::
  "(bytes \<Rightarrow> time \<Rightarrow> bytes) \<Rightarrow> (nat \<Rightarrow> bool) \<Rightarrow> console_handler \<Rightarrow> slog_record \<Rightarrow> bytes" where
  "ConsoleHandler_Handle format_time up h r =
     (let buf = console_header format_time h r;
          (prefix, buf, source) = append_ops (co_color h) up (co_ops h) [] (buf, []);
          (buf, source) = appendAttrs (co_color h) up prefix (r_attrs r) (buf, source)
      in buf @ source @ [CHR 0x0A])"

section \<open>The line as a sequence of pieces\<close>

text \<open>
  What the line shows, without the buffers: a leaf under its dotted prefix, or the location of a top-level
  \<open>source\<close> group, which goes to the end of the line.
\<close>

datatype piece = Leaf bytes bytes slog_value | Location bytes

function pieces :: "bytes \<Rightarrow> attr list \<Rightarrow> piece list" and attr_pieces :: "bytes \<Rightarrow> attr \<Rightarrow> piece list" where
  "pieces prefix [] = []"
| "pieces prefix (a # as) = attr_pieces prefix a @ pieces prefix as"
| "attr_pieces prefix (Attr k v0) =
     (let v = Resolve v0; members = group_members v in
      if is_group v then
        (if prefix = [] \<and> k = ''source'' \<and> members \<noteq> [] \<and> sourceLocation members \<noteq> None
         then [Location (the (sourceLocation members))]
         else pieces (if k \<noteq> [] then prefix @ k @ ''.'' else prefix) members)
      else if Attr k v = zero_attr then [] else [Leaf prefix k v])"
  by pat_completeness auto
termination
  by (relation "measure (\<lambda>x. case x of Inl (_, as) \<Rightarrow> size_list size as | Inr (_, a) \<Rightarrow> size a)")
     (auto dest: group_members_smaller)

declare attr_pieces.simps [simp del]

fun leaf_text :: "bool \<Rightarrow> (nat \<Rightarrow> bool) \<Rightarrow> piece \<Rightarrow> bytes" where
  "leaf_text on up (Leaf prefix k v) = append_leaf on up [] prefix k v"
| "leaf_text on up (Location loc) = []"

fun location_text :: "bool \<Rightarrow> piece \<Rightarrow> bytes" where
  "location_text on (Leaf prefix k v) = []"
| "location_text on (Location loc) = paint on '' '' ansiDim (''source='' @ loc)"

definition show_pieces :: "bool \<Rightarrow> (nat \<Rightarrow> bool) \<Rightarrow> piece list \<Rightarrow> bytes \<times> bytes \<Rightarrow> bytes \<times> bytes" where
  "show_pieces on up ps bs =
     (fst bs @ concat (map (leaf_text on up) ps), snd bs @ concat (map (location_text on) ps))"

lemma show_pieces_simps [simp]:
  "show_pieces on up [] bs = bs"
  "show_pieces on up (ps @ qs) bs = show_pieces on up qs (show_pieces on up ps bs)"
  by (simp_all add: show_pieces_def)

lemma paint_prefix: "paint on (x @ y) c s = x @ paint on y c s"
  by (simp add: paint_def)

lemma append_leaf_buf: "append_leaf on up buf prefix k v = buf @ append_leaf on up [] prefix k v"
  by (simp add: append_leaf_def Let_def paint_def)

lemma append_pieces:
  "appendAttr on up prefix a bs = show_pieces on up (attr_pieces prefix a) bs"
  "appendAttrs on up prefix as bs = show_pieces on up (pieces prefix as) bs"
proof (induction on up prefix a bs and on up prefix as bs rule: appendAttr_appendAttrs.induct)
  case (1 on up prefix k v0 buf source)
  show ?case
    using 1 by (simp add: appendAttr.simps attr_pieces.simps Let_def)
      (auto simp: show_pieces_def append_leaf_buf [of on up buf] paint_prefix)
qed simp_all

lemma pieces_append [simp]: "pieces prefix (as @ bs) = pieces prefix as @ pieces prefix bs"
  by (induction as) simp_all

lemma empty_group_pieces: "is_empty_group (Val a) \<Longrightarrow> attr_pieces prefix a = []"
  by (cases a; cases "Val a" rule: is_empty_group.cases) (simp_all add: attr_pieces.simps Resolve_id)

lemma pieces_nonempty [simp]: "pieces prefix (filter nonempty_attr as) = pieces prefix as"
  by (induction as) (simp_all add: empty_group_pieces)

lemma close_group_pieces:
  "g \<noteq> [] \<Longrightarrow> prefix \<noteq> [] \<or> g \<noteq> ''source'' \<Longrightarrow> pieces prefix (close_group g as) = pieces (prefix @ g @ ''.'') as"
  by (auto simp: close_group_def attr_pieces.simps GroupValue_def Resolve_id)

fun starts_source :: "held_op list \<Rightarrow> bool" where
  "starts_source [] = False"
| "starts_source (HeldAttrs as # ops) = starts_source ops"
| "starts_source (HeldGroup g # ops) = (g = ''source'')"

lemma append_ops_pieces:
  "named_groups ops \<Longrightarrow> prefix \<noteq> [] \<or> \<not> starts_source ops \<Longrightarrow>
   (case append_ops on up ops prefix bs of (prefix', bs') \<Rightarrow> appendAttrs on up prefix' as bs') =
     show_pieces on up (pieces prefix (nest ops as)) bs"
proof (induction ops arbitrary: prefix bs)
  case (Cons op ops)
  then show ?case
    by (cases op) (auto simp: append_pieces close_group_pieces)
qed (simp add: append_pieces)

text \<open>The line is the header, the leaves in order, the locations and a newline.\<close>

definition line_pieces :: "console_handler \<Rightarrow> slog_record \<Rightarrow> piece list" where
  "line_pieces h r = pieces [] (nest (co_ops h) (r_attrs r))"

lemma Handle_pieces:
  assumes "named_groups (co_ops h)" "\<not> starts_source (co_ops h)"
  shows "ConsoleHandler_Handle ft up h r =
    console_header ft h r @ concat (map (leaf_text (co_color h) up) (line_pieces h r)) @
    concat (map (location_text (co_color h)) (line_pieces h r)) @ [CHR 0x0A]"
  using append_ops_pieces [OF assms(1), where prefix = "[]" and on = "co_color h" and up = up
      and bs = "(console_header ft h r, [])" and as = "r_attrs r"] assms(2)
  by (auto simp: ConsoleHandler_Handle_def Let_def line_pieces_def show_pieces_def split: prod.splits)

section \<open>Derived handlers\<close>

lemma derive_console:
  "named_groups ops \<Longrightarrow>
   derive ConsoleHandler_WithAttrs ConsoleHandler_WithGroup h ops =
     h\<lparr>co_ops := co_ops h @ filter (\<lambda>op. op \<noteq> HeldAttrs []) (kept (\<lambda>a. Key a \<noteq> []) ops)\<rparr>"
proof (induction ops arbitrary: h)
  case (Cons op ops)
  then show ?case by (cases op) (auto simp: console_derive_defs Let_def)
qed simp

lemma held_named: "named_groups ops \<Longrightarrow> named_groups (filter (\<lambda>op. op \<noteq> HeldAttrs []) (kept keep ops))"
  by (induction ops rule: named_groups.induct) auto

lemma held_starts: "starts_source (filter (\<lambda>op. op \<noteq> HeldAttrs []) (kept keep ops)) = starts_source ops"
  by (induction ops rule: starts_source.induct) auto

lemma held_nest: "nest (filter (\<lambda>op. op \<noteq> HeldAttrs []) (kept keep ops)) as = nest (kept keep ops) as"
  by (induction ops rule: named_groups.induct) simp_all

text \<open>
  C35. A console logger derived with \<open>With\<close> and \<open>WithGroup\<close> calls, no group without a name and none named \<open>source\<close>
  opened at the top, writes the line the underived one writes for the record with these attrs and groups inline: groups are
  flattened to dotted prefixes and nothing else. A \<open>With\<close> attr with an empty key is dropped (\<open>kept\<close>). A group \<open>source\<close>
  opened at the top is flattened like the others, where the inline group is read as a call site.
\<close>

theorem console_flattens_groups:
  assumes "co_ops h = []" "named_groups ops" "\<not> starts_source ops"
  shows "ConsoleHandler_Handle ft up (derive ConsoleHandler_WithAttrs ConsoleHandler_WithGroup h ops) r =
    ConsoleHandler_Handle ft up h (r\<lparr>r_attrs := nest (kept (\<lambda>a. Key a \<noteq> []) ops) (r_attrs r)\<rparr>)"
proof -
  let ?h = "derive ConsoleHandler_WithAttrs ConsoleHandler_WithGroup h ops"
  have ops: "co_ops ?h = filter (\<lambda>op. op \<noteq> HeldAttrs []) (kept (\<lambda>a. Key a \<noteq> []) ops)"
    "co_color ?h = co_color h" "co_tfmt ?h = co_tfmt h"
    using assms(1) by (simp_all add: derive_console [OF assms(2)])
  have "named_groups (co_ops ?h)" "\<not> starts_source (co_ops ?h)"
    using assms(2,3) by (simp_all only: ops held_named held_starts not_False_eq_True)
  from Handle_pieces [OF this] Handle_pieces [of h] show ?thesis
    by (simp add: assms(1) ops line_pieces_def held_nest console_header_def)
qed

section \<open>Values cannot break the line\<close>

definition ctl_free :: "bytes \<Rightarrow> bool" where
  "ctl_free s = list_all (\<lambda>c. \<not> is_ctl c) s"

lemma ctl_free_append [simp]: "ctl_free (s @ t) \<longleftrightarrow> ctl_free s \<and> ctl_free t"
  by (simp add: ctl_free_def)

lemma ctl_free_Cons [simp]: "ctl_free (c # s) \<longleftrightarrow> \<not> is_ctl c \<and> ctl_free s" "ctl_free []"
  by (simp_all add: ctl_free_def)

lemma ascii_rune_listed:
  assumes "c \<in> set s" "byte c < 128"
  shows "(byte c, [c]) \<in> set (runes s)"
proof -
  from assms(1) have "c \<in> set (concat (map snd (runes s)))" by (simp only: concat_runes)
  then obtain ru where ru: "ru \<in> set (runes s)" "c \<in> set (snd ru)" by auto
  moreover from ru(1) have "proper_rune ru" using runes_proper [of s] by (simp add: list_all_iff)
  ultimately show ?thesis
    using assms(2) AppendRune_far [of "fst ru"] by (fastforce simp: proper_rune_def list_all_iff)
qed

lemma unquoted_char:
  assumes "\<not> needs_quote s" "c \<in> set s"
  shows "\<not> is_ctl c \<and> c \<noteq> CHR 0x22 \<and> c \<noteq> CHR ''='' \<and> c \<noteq> CHR '' ''"
proof (cases "byte c < 128")
  case True
  from ascii_rune_listed [OF assms(2) True] assms(1)
  have "\<not> IsSpace (byte c)" "byte c \<noteq> 34" "byte c \<noteq> 61" "\<not> IsControl (byte c)"
    unfolding needs_quote_def list_ex_iff by (metis (mono_tags, lifting) case_prod_conv)+
  moreover have "byte CHR 0x22 = 34" "byte CHR ''='' = 61" "IsSpace (byte CHR '' '')"
    by (simp_all add: byte_def IsSpace_def)
  ultimately show ?thesis by (auto simp: IsControl_def is_ctl_def)
next
  case False
  then show ?thesis by (auto simp: is_ctl_def byte_def)
qed

lemma quoteIfNeeded_ctl_free: "ctl_free (quoteIfNeeded up s)"
  using quote_no_ctl [of up s] unquoted_char [of s]
  by (auto simp: quoteIfNeeded_def ctl_free_def list_all_iff is_ctl_def byte_def)

text \<open>A reader of one value: a quoted one is unquoted, any other one stands for itself.\<close>

definition read_value :: "bytes \<Rightarrow> bytes option" where
  "read_value t = (if t \<noteq> [] \<and> hd t = CHR 0x22 then unquote t else Some t)"

text \<open>
  C33. Whatever bytes a value has, valid UTF-8 or not, and whatever the table of printable runes is: what is written for
  it reads back as the value, has no control character, and has a space, a quote or an equals sign only when it is
  quoted.
\<close>

theorem console_value_roundtrip:
  "read_value (quoteIfNeeded up s) = Some s \<and> list_all (\<lambda>c. \<not> is_ctl c) (quoteIfNeeded up s) \<and>
   (hd (quoteIfNeeded up s) = CHR 0x22 \<or> set (quoteIfNeeded up s) \<inter> {CHR 0x22, CHR ''='', CHR '' ''} = {})"
proof (intro conjI)
  have "unquote [CHR 0x22, CHR 0x22] = Some []" by (simp add: unquote_def unescape.simps(2))
  then show "read_value (quoteIfNeeded up s) = Some s"
    using unquote_Quote [of up s] unquoted_char [of s "hd s"]
    by (auto simp: read_value_def quoteIfNeeded_def Quote_def)
  show "list_all (\<lambda>c. \<not> is_ctl c) (quoteIfNeeded up s)"
    using quoteIfNeeded_ctl_free [of up s] by (simp add: ctl_free_def)
  show "hd (quoteIfNeeded up s) = CHR 0x22 \<or> set (quoteIfNeeded up s) \<inter> {CHR 0x22, CHR ''='', CHR '' ''} = {}"
    using unquoted_char [of s] by (auto simp: quoteIfNeeded_def Quote_def)
qed

lemma ctl_free_utoa: "ctl_free (utoa n)"
proof (induction n rule: utoa.induct)
  case (1 n)
  have "\<not> is_ctl (digit d)" if "d < 10" for d using that by (simp add: digit_def is_ctl_def)
  with 1 show ?case by (cases "n < 10") (simp_all add: utoa.simps [of n])
qed

lemma ctl_free_label: "ctl_free (levelLabel l)"
  by (simp add: levelLabel_def level_string_def level_offset_def signed_def itoa_def ctl_free_utoa is_ctl_def byte_def)

lemma ctl_free_concat: "ctl_free (concat (map f xs)) \<longleftrightarrow> list_all (\<lambda>x. ctl_free (f x)) xs"
  by (induction xs) simp_all

text \<open>What the caller is trusted with: keys, group names and call sites, but no values.\<close>

fun piece_clean :: "piece \<Rightarrow> bool" where
  "piece_clean (Leaf prefix k v) = ctl_free (prefix @ k)"
| "piece_clean (Location loc) = ctl_free loc"

lemma piece_text_clean:
  "piece_clean p \<Longrightarrow> ctl_free (leaf_text False up p) \<and> ctl_free (location_text False p)"
  using quoteIfNeeded_ctl_free
  by (cases p) (auto simp: append_leaf_def paint_def Let_def is_ctl_def byte_def)

text \<open>
  C34. Without colors, and with no unnamed group open and no group \<open>source\<close> open at the top, a record is one line, free of
  control characters (ASCII ones) up to its final newline, whatever the values are: no value can forge a line or reach the
  terminal as an escape sequence. What is written as it is, and has to be free of control characters itself, is the time in
  the caller's format, the message, the keys with the names of their groups, and the location a \<open>source\<close> group names.
\<close>

theorem console_one_line:
  assumes "named_groups (co_ops h)" "\<not> starts_source (co_ops h)" "\<not> co_color h"
    "ctl_free (ft (co_tfmt h) (r_time r))" "ctl_free (r_message r)" "list_all piece_clean (line_pieces h r)"
  shows "\<exists>body. ConsoleHandler_Handle ft up h r = body @ [CHR 0x0A] \<and> ctl_free body"
proof -
  have "ctl_free (console_header ft h r)"
    using assms(3-5) by (simp add: console_header_def paint_def Let_def ctl_free_label is_ctl_def byte_def)
  moreover have "ctl_free (concat (map (leaf_text False up) (line_pieces h r)))"
    "ctl_free (concat (map (location_text False) (line_pieces h r)))"
    using assms(6) piece_text_clean by (auto simp: ctl_free_concat list_all_iff)
  ultimately show ?thesis using Handle_pieces [OF assms(1,2), of ft up r] assms(3) by simp
qed

section \<open>Concrete lines\<close>

definition example_console :: console_handler where
  "example_console =
     NewConsoleHandler NoFile \<lparr>cp_Level = None, cp_TimeFormat = [], cp_NoColor = False, cp_ForceColor = False\<rparr>"

definition example_console_record :: slog_record where
  "example_console_record =
     AddAttrs (NewRecord 0 LevelError ''payment failed'' 0)
       [String ''error'' (''no'' @ [CHR 0x0A] @ ''go''),
        source_attr \<lparr>fm_Function = ''pay.Do'', fm_File = ''/srv/pay.go'', fm_Line = 42\<rparr>]"

lemmas console_eval =
  ConsoleHandler_Handle_def console_header_def appendAttr.simps append_leaf_def paint_def levelLabel_def level_defs
  quoteIfNeeded_def needs_quote_def runes_ascii_byte Resolve_id GroupValue_def AddAttrs_def NewRecord_def String_def
  sourceLocation_def Let_def zero_attr_def example_console_def NewConsoleHandler_def isTerminal_def byte_def
  IsSpace_def IsControl_def Quote_def quote_rune_def escape_rune_def IsPrint_def AppendRune_def RuneError_def
  backslash_def

lemma example_line:
  "line_pieces example_console example_console_record =
     [Leaf [] ''error'' (StringValue (''no'' @ [CHR 0x0A] @ ''go'')), Location ''pay.go:42'']"
  by (simp add: line_pieces_def example_console_def NewConsoleHandler_def Let_def example_console_record_def
      AddAttrs_def NewRecord_def String_def attr_pieces.simps Resolve_id source_attr_def GroupValue_def
      sourceLocation_def zero_attr_def filepath_Base_def after_last_def itoa_def utoa.simps digit_def) code_simp

theorem console_one_line_witness:
  "\<exists>body. ConsoleHandler_Handle (\<lambda>l t. []) (\<lambda>r. False) example_console example_console_record = body @ [CHR 0x0A] \<and>
     ctl_free body"
proof -
  have "named_groups (co_ops example_console)" "\<not> starts_source (co_ops example_console)" "\<not> co_color example_console"
    "ctl_free []" "ctl_free (r_message example_console_record)"
    "list_all piece_clean (line_pieces example_console example_console_record)"
    by (simp_all add: example_line)
       (simp_all add: example_console_def NewConsoleHandler_def isTerminal_def Let_def example_console_record_def
        AddAttrs_def NewRecord_def is_ctl_def byte_def)
  from console_one_line [OF this(1-3), of "\<lambda>l t. []" example_console_record "\<lambda>r. False"] this(4-6) show ?thesis
    by simp
qed

theorem console_flattens_groups_witness:
  "ConsoleHandler_Handle (\<lambda>l t. []) (\<lambda>r. False)
     (derive ConsoleHandler_WithAttrs ConsoleHandler_WithGroup example_console
        [HeldAttrs [String ''svc'' ''api''], HeldGroup ''http'', HeldAttrs [String ''path'' ''/x'']])
     (NewRecord 0 LevelInfo ''done'' 0) = ''INF done svc=api http.path=/x'' @ [CHR 0x0A]"
proof -
  have "named_groups [HeldAttrs [String ''svc'' ''api''], HeldGroup ''http'', HeldAttrs [String ''path'' ''/x'']]"
    "\<not> starts_source [HeldAttrs [String ''svc'' ''api''], HeldGroup ''http'', HeldAttrs [String ''path'' ''/x'']]"
    "co_ops example_console = []"
    by (simp_all add: example_console_def NewConsoleHandler_def Let_def)
  from console_flattens_groups [OF this(3,1,2), of "\<lambda>l t. []" "\<lambda>r. False" "NewRecord 0 LevelInfo ''done'' 0"] show ?thesis
    by (simp add: close_group_def) (simp add: console_eval)
qed

text \<open>The message is written as it is, so it can forge a line, although the comment promises one line per record.\<close>

lemma message_forges_a_line:
  "ConsoleHandler_Handle (\<lambda>l t. []) (\<lambda>r. False) example_console
     (NewRecord 0 LevelInfo (''ok'' @ [CHR 0x0A] @ ''ERR forged'') 0) =
   ''INF ok'' @ [CHR 0x0A] @ ''ERR forged'' @ [CHR 0x0A]"
  by (simp add: console_eval)

end
