(* ===== verification/MockLogger.thy ===== *)
theory MockLogger
  imports HeldOps Lifecycle
begin

text \<open>
  \<open>kitlogtest/mocklogger.go\<close>: the test double that stores records and refuses them after a shutdown. Every method
  runs under the mutex, so a concurrent history is a sequence of calls. Arguments are of any type; a nil context,
  which the methods without a context pass on, is \<open>None\<close>.
\<close>

section \<open>State and operations\<close>

record ('a, 'c) log_entry =
  en_Level :: int
  en_Message :: bytes
  en_Args :: "'a list"
  en_Context :: "'c option"

record ('a, 'c) mock_logger =
  mk_Entries :: "('a, 'c) log_entry list"
  mk_FlushErr :: lc_result
  mk_ShutdownErr :: lc_result
  mk_flushCalls :: nat
  mk_shutdownCalls :: nat
  mk_shutdown :: bool
  mk_rejected :: "lifecycle_error list"

definition NewMockLogger :: "('a, 'c) mock_logger" where
  "NewMockLogger =
     \<lparr>mk_Entries = [], mk_FlushErr = None, mk_ShutdownErr = None, mk_flushCalls = 0, mk_shutdownCalls = 0,
      mk_shutdown = False, mk_rejected = []\<rparr>"

definition mock_log ::
  "'c option \<Rightarrow> int \<Rightarrow> bytes \<Rightarrow> 'a list \<Rightarrow> ('a, 'c) mock_logger \<Rightarrow> ('a, 'c) mock_logger" where
  "mock_log ctx level msg args m =
     (if mk_shutdown m then m\<lparr>mk_rejected := mk_rejected m @ [ErrLoggerShutdown]\<rparr>
      else m\<lparr>mk_Entries := mk_Entries m @ [\<lparr>en_Level = level, en_Message = msg, en_Args = args, en_Context = ctx\<rparr>]\<rparr>)"

definition MockLogger_Debug :: "bytes \<Rightarrow> 'a list \<Rightarrow> ('a, 'c) mock_logger \<Rightarrow> ('a, 'c) mock_logger" where
  "MockLogger_Debug msg args m = mock_log None LevelDebug msg args m"

definition MockLogger_Info :: "bytes \<Rightarrow> 'a list \<Rightarrow> ('a, 'c) mock_logger \<Rightarrow> ('a, 'c) mock_logger" where
  "MockLogger_Info msg args m = mock_log None LevelInfo msg args m"

definition MockLogger_Warn :: "bytes \<Rightarrow> 'a list \<Rightarrow> ('a, 'c) mock_logger \<Rightarrow> ('a, 'c) mock_logger" where
  "MockLogger_Warn msg args m = mock_log None LevelWarn msg args m"

definition MockLogger_Error :: "bytes \<Rightarrow> 'a list \<Rightarrow> ('a, 'c) mock_logger \<Rightarrow> ('a, 'c) mock_logger" where
  "MockLogger_Error msg args m = mock_log None LevelError msg args m"

definition MockLogger_DebugContext :: "'c option \<Rightarrow> bytes \<Rightarrow> 'a list \<Rightarrow> ('a, 'c) mock_logger \<Rightarrow> ('a, 'c) mock_logger" where
  "MockLogger_DebugContext ctx msg args m = mock_log ctx LevelDebug msg args m"

definition MockLogger_InfoContext :: "'c option \<Rightarrow> bytes \<Rightarrow> 'a list \<Rightarrow> ('a, 'c) mock_logger \<Rightarrow> ('a, 'c) mock_logger" where
  "MockLogger_InfoContext ctx msg args m = mock_log ctx LevelInfo msg args m"

definition MockLogger_WarnContext :: "'c option \<Rightarrow> bytes \<Rightarrow> 'a list \<Rightarrow> ('a, 'c) mock_logger \<Rightarrow> ('a, 'c) mock_logger" where
  "MockLogger_WarnContext ctx msg args m = mock_log ctx LevelWarn msg args m"

definition MockLogger_ErrorContext :: "'c option \<Rightarrow> bytes \<Rightarrow> 'a list \<Rightarrow> ('a, 'c) mock_logger \<Rightarrow> ('a, 'c) mock_logger" where
  "MockLogger_ErrorContext ctx msg args m = mock_log ctx LevelError msg args m"

definition MockLogger_Log ::
  "'c option \<Rightarrow> int \<Rightarrow> bytes \<Rightarrow> 'a list \<Rightarrow> ('a, 'c) mock_logger \<Rightarrow> ('a, 'c) mock_logger" where
  "MockLogger_Log ctx level msg args m = mock_log ctx level msg args m"

text \<open>Derivations return the receiver itself.\<close>

definition MockLogger_With :: "'a list \<Rightarrow> ('a, 'c) mock_logger \<Rightarrow> ('a, 'c) mock_logger" where
  "MockLogger_With args m = m"

definition MockLogger_WithContext :: "'c option \<Rightarrow> ('a, 'c) mock_logger \<Rightarrow> ('a, 'c) mock_logger" where
  "MockLogger_WithContext ctx m = m"

definition MockLogger_SetLevel :: "int \<Rightarrow> ('a, 'c) mock_logger \<Rightarrow> ('a, 'c) mock_logger" where
  "MockLogger_SetLevel level m = m"

definition MockLogger_Flush :: "('a, 'c) mock_logger \<Rightarrow> ('a, 'c) mock_logger \<times> lc_result" where
  "MockLogger_Flush m =
     (let m = m\<lparr>mk_flushCalls := mk_flushCalls m + 1\<rparr>
      in if mk_shutdown m then (m, Some ErrLoggerShutdown) else (m, mk_FlushErr m))"

definition MockLogger_Shutdown :: "('a, 'c) mock_logger \<Rightarrow> ('a, 'c) mock_logger \<times> lc_result" where
  "MockLogger_Shutdown m =
     (let m = m\<lparr>mk_shutdownCalls := mk_shutdownCalls m + 1, mk_shutdown := True\<rparr> in (m, mk_ShutdownErr m))"

definition MockLogger_Sync :: "('a, 'c) mock_logger \<Rightarrow> ('a, 'c) mock_logger \<times> lc_result" where
  "MockLogger_Sync m = MockLogger_Flush m"

definition FlushCalls :: "('a, 'c) mock_logger \<Rightarrow> nat" where
  "FlushCalls m = mk_flushCalls m"

definition ShutdownCalls :: "('a, 'c) mock_logger \<Rightarrow> nat" where
  "ShutdownCalls m = mk_shutdownCalls m"

definition RejectedErrors :: "('a, 'c) mock_logger \<Rightarrow> lifecycle_error list" where
  "RejectedErrors m = mk_rejected m"

fun entry_loop :: "bytes \<Rightarrow> ('a, 'c) log_entry list \<Rightarrow> bool" where
  "entry_loop expected [] = False"
| "entry_loop expected (e # es) = (if en_Message e = expected then True else entry_loop expected es)"

definition HasMessage :: "bytes \<Rightarrow> ('a, 'c) mock_logger \<Rightarrow> bool" where
  "HasMessage expected m = entry_loop expected (mk_Entries m)"

text \<open>\<open>Slog\<close>: a record logged through the \<open>*slog.Logger\<close>, derived by \<open>h\<close>, reaches the callback of a test handler.\<close>

definition MockLogger_Slog ::
  "'c option \<Rightarrow> test_handler \<Rightarrow> slog_record \<Rightarrow> (attr, 'c) mock_logger \<Rightarrow> (attr, 'c) mock_logger" where
  "MockLogger_Slog ctx h r m =
     (let r = TestHandler_Handle h r; args = fold (\<lambda>a args. args @ [a]) (r_attrs r) []
      in mock_log ctx (r_level r) (r_message r) args m)"

section \<open>Histories\<close>

datatype ('a, 'c) mock_call = MockLog "'c option" int bytes "'a list" | MockFlush | MockShutdown

fun mock_run :: "('a, 'c) mock_call list \<Rightarrow> ('a, 'c) mock_logger \<Rightarrow> ('a, 'c) mock_logger \<times> lc_result list" where
  "mock_run [] m = (m, [])"
| "mock_run (MockLog ctx level msg args # cs) m = mock_run cs (MockLogger_Log ctx level msg args m)"
| "mock_run (MockFlush # cs) m =
     (let (m, res) = MockLogger_Flush m; (m, rs) = mock_run cs m in (m, res # rs))"
| "mock_run (MockShutdown # cs) m =
     (let (m, res) = MockLogger_Shutdown m; (m, rs) = mock_run cs m in (m, res # rs))"

text \<open>The contract: what a history should have stored, refused and returned.\<close>

fun logged_entries :: "('a, 'c) mock_call list \<Rightarrow> ('a, 'c) log_entry list" where
  "logged_entries [] = []"
| "logged_entries (MockLog ctx level msg args # cs) =
     \<lparr>en_Level = level, en_Message = msg, en_Args = args, en_Context = ctx\<rparr> # logged_entries cs"
| "logged_entries (_ # cs) = logged_entries cs"

fun call_result :: "lc_result \<Rightarrow> lc_result \<Rightarrow> bool \<Rightarrow> ('a, 'c) mock_call \<Rightarrow> lc_result list" where
  "call_result fe se shut (MockLog ctx level msg args) = []"
| "call_result fe se shut MockFlush = [if shut then Some ErrLoggerShutdown else fe]"
| "call_result fe se shut MockShutdown = [se]"

definition before_shutdown :: "('a, 'c) mock_call list \<Rightarrow> ('a, 'c) mock_call list" where
  "before_shutdown cs = takeWhile (\<lambda>c. c \<noteq> MockShutdown) cs"

definition after_shutdown :: "('a, 'c) mock_call list \<Rightarrow> ('a, 'c) mock_call list" where
  "after_shutdown cs = dropWhile (\<lambda>c. c \<noteq> MockShutdown) cs"

lemma HasMessage_iff: "HasMessage expected m \<longleftrightarrow> expected \<in> en_Message ` set (mk_Entries m)"
proof -
  have "entry_loop expected es \<longleftrightarrow> expected \<in> en_Message ` set es" for es by (induction es) auto
  then show ?thesis by (simp add: HasMessage_def)
qed

lemmas mock_defs = MockLogger_Log_def mock_log_def MockLogger_Flush_def MockLogger_Shutdown_def

lemma mock_run_closed:
  "mk_shutdown m \<Longrightarrow> mock_run cs m =
     (m\<lparr>mk_rejected := mk_rejected m @ replicate (length (logged_entries cs)) ErrLoggerShutdown,
        mk_flushCalls := mk_flushCalls m + length (filter ((=) MockFlush) cs),
        mk_shutdownCalls := mk_shutdownCalls m + length (filter ((=) MockShutdown) cs)\<rparr>,
      concat (map (call_result (mk_FlushErr m) (mk_ShutdownErr m) True) cs))"
  by (induction cs m rule: mock_run.induct) (simp_all add: mock_defs Let_def)

lemma mock_run_open:
  "\<not> mk_shutdown m \<Longrightarrow> MockShutdown \<notin> set cs \<Longrightarrow> mock_run (cs @ ds) m =
     (let (m', rs) = mock_run ds
        (m\<lparr>mk_Entries := mk_Entries m @ logged_entries cs,
           mk_flushCalls := mk_flushCalls m + length (filter ((=) MockFlush) cs)\<rparr>)
      in (m', concat (map (call_result (mk_FlushErr m) (mk_ShutdownErr m) False) cs) @ rs))"
  by (induction cs m rule: mock_run.induct) (auto simp: mock_defs Let_def split: prod.splits)

text \<open>
  The mock is honest about every history of calls: it stores exactly the records logged before the first shutdown, in
  order, reports one refusal per later record, counts every call, and answers with the injected errors, and with
  \<open>ErrLoggerShutdown\<close> for a flush after the shutdown.
\<close>

theorem mock_history_exact:
  "mock_run cs (NewMockLogger\<lparr>mk_FlushErr := fe, mk_ShutdownErr := se\<rparr>) =
     (\<lparr>mk_Entries = logged_entries (before_shutdown cs), mk_FlushErr = fe, mk_ShutdownErr = se,
       mk_flushCalls = length (filter ((=) MockFlush) cs), mk_shutdownCalls = length (filter ((=) MockShutdown) cs),
       mk_shutdown = (MockShutdown \<in> set cs),
       mk_rejected = replicate (length (logged_entries (after_shutdown cs))) ErrLoggerShutdown\<rparr>,
      concat (map (call_result fe se False) (before_shutdown cs)) @ concat (map (call_result fe se True) (after_shutdown cs)))"
proof -
  have split: "cs = before_shutdown cs @ after_shutdown cs" by (simp add: before_shutdown_def after_shutdown_def)
  have open_part: "MockShutdown \<notin> set (before_shutdown cs)"
    by (auto simp: before_shutdown_def dest: set_takeWhileD)
  then have none: "filter ((=) MockShutdown) (before_shutdown cs) = []" by (auto simp: filter_empty_conv)
  show ?thesis
  proof (cases "after_shutdown cs")
    case Nil
    with open_part none split mock_run_open [of "NewMockLogger\<lparr>mk_FlushErr := fe, mk_ShutdownErr := se\<rparr>" "before_shutdown cs" "[]"]
    show ?thesis by (simp add: NewMockLogger_def)
  next
    case (Cons c ds)
    then have "c = MockShutdown" using hd_dropWhile [of "\<lambda>c. c \<noteq> MockShutdown" cs] by (simp add: after_shutdown_def)
    with Cons have after: "after_shutdown cs = MockShutdown # ds" by simp
    have count: "filter P cs = filter P (before_shutdown cs) @ filter P (after_shutdown cs)" for P
      by (subst split) simp
    have member: "MockShutdown \<in> set cs" using split after by (metis in_set_conv_decomp)
    from none mock_run_open [of "NewMockLogger\<lparr>mk_FlushErr := fe, mk_ShutdownErr := se\<rparr>" "before_shutdown cs" "after_shutdown cs"]
      open_part split member count show ?thesis
      by (simp add: after NewMockLogger_def mock_run_closed MockLogger_Shutdown_def Let_def)
  qed
qed

text \<open>A record that reaches the mock through its \<open>slog\<close> face lands like a direct call with its nested attrs.\<close>

lemma mock_slog_face:
  "MockLogger_Slog ctx h r m =
     MockLogger_Log ctx (r_level r) (r_message r) (filter nonempty_attr (nest (goas h) (r_attrs r))) m"
  by (simp add: MockLogger_Slog_def MockLogger_Log_def Let_def fold_snoc TestHandler_Handle_attrs)
     (simp add: TestHandler_Handle_def Let_def)

end
