(* ===== verification/Helpers.thy ===== *)
theory Helpers
  imports Logger
begin

text \<open>
  The convenience functions of the package: the attr constructors and \<open>NewLogger\<close> with its options (\<open>helpers.go\<close>),
  \<open>New\<close> (\<open>config.go\<close>), and what a logger built this way writes. An \<open>error\<close> is its text, or \<open>None\<close> for nil; a float
  is the text it prints as.
\<close>

section \<open>Attr constructors\<close>

definition kit_String :: "bytes \<Rightarrow> bytes \<Rightarrow> attr" where
  "kit_String key v = String key v"

definition kit_Error :: "bytes option \<Rightarrow> attr" where
  "kit_Error err = (case err of None \<Rightarrow> String ''error'' ''<nil>'' | Some text \<Rightarrow> String ''error'' text)"

definition kit_ErrorValue :: "bytes option \<Rightarrow> go_value" where
  "kit_ErrorValue err = (case err of None \<Rightarrow> GoString ''<nil>'' | Some text \<Rightarrow> GoString text)"

definition kit_Int :: "bytes \<Rightarrow> 64 word \<Rightarrow> attr" where
  "kit_Int key v = Attr key (Int64Value (sint v))"

definition kit_Int64 :: "bytes \<Rightarrow> 64 word \<Rightarrow> attr" where
  "kit_Int64 key v = Attr key (Int64Value (sint v))"

definition kit_Bool :: "bytes \<Rightarrow> bool \<Rightarrow> attr" where
  "kit_Bool key v = Attr key (BoolValue v)"

definition kit_Float64 :: "bytes \<Rightarrow> bytes \<Rightarrow> attr" where
  "kit_Float64 key v = Attr key (Float64Value v)"

definition kit_Any :: "bytes \<Rightarrow> go_value \<Rightarrow> attr" where
  "kit_Any key v = Attr key (AnyValue_of v)"

definition kit_Int32 :: "bytes \<Rightarrow> 32 word \<Rightarrow> attr" where
  "kit_Int32 key v = kit_Int key (scast v)"

definition kit_Strings :: "bytes \<Rightarrow> bytes list \<Rightarrow> attr" where
  "kit_Strings key values = Attr key (AnyValue (Some (''['' @ join '' '' values @ '']'')))"

text \<open>\<open>Int32\<close> goes through the wider \<open>int\<close> and keeps the number.\<close>

lemma kit_Int32_exact: "kit_Int32 key v = Attr key (Int64Value (sint v))"
proof -
  have "sint (scast v :: 64 word) = sint v"
    using sint_greater_eq [of v] sint_less [of v] by (simp add: signed_scast_eq signed_take_bit_int_eq_self_iff)
  then show ?thesis by (simp add: kit_Int32_def kit_Int_def)
qed

section \<open>Loggers\<close>

definition zero_config :: "'t config" where
  "zero_config =
     \<lparr>cfg_BufferSize = 0, cfg_FilterRules = [], cfg_FilterMode = ModeDrop, cfg_Format = FormatText,
      cfg_FormatString = [], cfg_GlobalFields = [], cfg_AddSource = False, cfg_Sink = None, cfg_Handler = None,
      cfg_PipelineOverride = None, cfg_Hook = None, cfg_MetricsHandler = None, cfg_Level = cfg_LevelInfo,
      cfg_LevelString = [], cfg_RateLimitMaxKeys = 0,
      cfg_Sampling = \<lparr>cs_Enabled = False, cs_Interval = 0, cs_MinLevel = cfg_LevelInfo,
        cs_MinLevelString = [], cs_Probability = Finite 0, cs_KeyFunc = None, cs_MaxKeys = 0\<rparr>,
      cfg_ContextFields = None, cfg_Writer = None, cfg_ContextHandler = None, cfg_LogInitialization = False\<rparr>"

text \<open>The \<open>Option\<close>s of \<open>New\<close>: the only field says whether a counter hook was given.\<close>

record logger_options =
  lo_counterHook :: bool

definition WithCounterHook :: "bool \<Rightarrow> logger_options \<Rightarrow> logger_options" where
  "WithCounterHook hook opts = opts\<lparr>lo_counterHook := hook\<rparr>"

definition apply_options :: "(logger_options \<Rightarrow> logger_options) list \<Rightarrow> logger_options" where
  "apply_options opts = fold (\<lambda>f optVal. f optVal) opts \<lparr>lo_counterHook = False\<rparr>"

lemma apply_options_Nil [simp]: "apply_options [] = \<lparr>lo_counterHook = False\<rparr>"
  by (simp add: apply_options_def)

text \<open>\<open>New\<close> builds the same logger as \<open>NewWithError\<close> and reports nothing.\<close>

definition New ::
  "(bytes \<Rightarrow> bytes) \<Rightarrow> 't terminals \<Rightarrow> ('t \<Rightarrow> bool) \<Rightarrow> ('t, 'l) log_env \<Rightarrow> log_input \<Rightarrow> nat \<Rightarrow> nat \<Rightarrow> nat \<Rightarrow>
   't config \<Rightarrow> (logger_options \<Rightarrow> logger_options) list \<Rightarrow> extractor option \<Rightarrow> 't chain_world \<Rightarrow>
   ('t slog_logger \<times> ('t, 'l) log_world) option" where
  "New lower te fl E i pc k b cfg opts ext w =
     map_option (\<lambda>(l, lw, errs). (l, lw))
       (NewWithError lower te fl E i pc k b cfg (lo_counterHook (apply_options opts)) ext w)"

definition WithLevel :: "bytes \<Rightarrow> 't config \<Rightarrow> 't config" where
  "WithLevel level cfg = cfg\<lparr>cfg_LevelString := level\<rparr>"

definition WithEncoding :: "bytes \<Rightarrow> 't config \<Rightarrow> 't config" where
  "WithEncoding encoding cfg = cfg\<lparr>cfg_FormatString := encoding\<rparr>"

text \<open>A nil map and an empty one are the same association list.\<close>

definition WithService :: "bytes \<Rightarrow> 't config \<Rightarrow> 't config" where
  "WithService service cfg = cfg\<lparr>cfg_GlobalFields := AList.update ''service'' service (cfg_GlobalFields cfg)\<rparr>"

definition options_config :: "('t config \<Rightarrow> 't config) list \<Rightarrow> 't config" where
  "options_config options = fold (\<lambda>option cfg. option cfg) options zero_config"

definition NewLogger ::
  "(bytes \<Rightarrow> bytes) \<Rightarrow> 't terminals \<Rightarrow> ('t \<Rightarrow> bool) \<Rightarrow> ('t, 'l) log_env \<Rightarrow> log_input \<Rightarrow> nat \<Rightarrow> nat \<Rightarrow> nat \<Rightarrow>
   ('t config \<Rightarrow> 't config) list \<Rightarrow> extractor option \<Rightarrow> 't chain_world \<Rightarrow> ('t slog_logger \<times> ('t, 'l) log_world) option" where
  "NewLogger lower te fl E i pc k b options ext w = New lower te fl E i pc k b (options_config options) [] ext w"

section \<open>The service on every line\<close>

definition helper_options :: "('t config \<Rightarrow> 't config) set" where
  "helper_options = range WithLevel \<union> range WithEncoding \<union> range WithService"

text \<open>What the three options can and cannot change.\<close>

definition helper_built :: "'t config \<Rightarrow> bool" where
  "helper_built cfg \<longleftrightarrow>
     (cfg_GlobalFields cfg = [] \<or> (\<exists>s. cfg_GlobalFields cfg = [(''service'', s)])) \<and> \<not> cfg_AddSource cfg \<and>
     cfg_PipelineOverride cfg = None \<and> cfg_Sink cfg = None \<and> cfg_Handler cfg = None \<and>
     cfg_MetricsHandler cfg = None \<and> cfg_ContextHandler cfg = None"

lemma helper_option_keeps: "f \<in> helper_options \<Longrightarrow> helper_built cfg \<Longrightarrow> helper_built (f cfg)"
  by (auto simp: helper_options_def helper_built_def WithLevel_def WithEncoding_def WithService_def)

lemma helper_options_keep:
  "set options \<subseteq> helper_options \<Longrightarrow> helper_built cfg \<Longrightarrow> helper_built (fold (\<lambda>option cfg. option cfg) options cfg)"
  by (induction options arbitrary: cfg) (simp_all add: helper_option_keeps)

lemma options_config_built: "set options \<subseteq> helper_options \<Longrightarrow> helper_built (options_config options)"
  unfolding options_config_def by (rule helper_options_keep) (simp_all add: helper_built_def zero_config_def)

text \<open>An option that is not \<open>WithService\<close> leaves the fields alone, so the last \<open>WithService\<close> decides.\<close>

definition other_options :: "('t config \<Rightarrow> 't config) set" where
  "other_options = range WithLevel \<union> range WithEncoding"

lemma other_options_keep:
  "set post \<subseteq> other_options \<Longrightarrow> cfg_GlobalFields (fold (\<lambda>option cfg. option cfg) post cfg) = cfg_GlobalFields cfg"
  by (induction post arbitrary: cfg) (auto simp: other_options_def WithLevel_def WithEncoding_def)

lemma service_decided:
  assumes "set pre \<subseteq> helper_options" "set post \<subseteq> other_options"
  shows "cfg_GlobalFields (options_config (pre @ WithService s # post)) = [(''service'', s)]"
proof -
  have "helper_built (options_config pre)" by (rule options_config_built [OF assms(1)])
  then show ?thesis
    using other_options_keep [OF assms(2), of "WithService s (options_config pre)"]
    by (auto simp: options_config_def helper_built_def WithService_def)
qed

text \<open>
  C36. For \<open>NewLogger\<close> with any of the three options the package offers, \<open>WithLevel\<close>, \<open>WithEncoding\<close> and
  \<open>WithService\<close>, in any order and number (its writer is then its own, with no seam and no override): in every run of the
  logger every line starts with the name of the last \<open>WithService\<close>, and no key is twice in one group at any depth, with the
  one exception of a key \<open>attr.<reserved>\<close> at the top level (\<open>deduped\<close>).
\<close>

theorem service_on_every_line:
  assumes "set pre \<subseteq> helper_options" "set post \<subseteq> other_options" "fresh_world w0"
    "NewLogger lower te fl E i pc k b (pre @ WithService s # post) ext w0 = Some (l, lw)" "logger_reach E l lw w"
  shows "\<forall>(t, r) \<in> set (cw_delivered (lw_chain w)).
    deduped builtin_keys (r_attrs r) \<and> (\<exists>as. r_attrs r = String ''service'' s # as)"
proof -
  let ?cfg = "options_config (pre @ WithService s # post)"
  have "set (pre @ WithService s # post) \<subseteq> helper_options"
    using assms(1,2) by (auto simp: helper_options_def other_options_def)
  then have built: "helper_built ?cfg" by (rule options_config_built)
  from assms(4) obtain errs merr where
    new: "NewWithError lower te fl E i pc k b ?cfg False ext w0 = Some (l, lw, errs, merr)"
    by (auto simp: NewLogger_def New_def)
  have side: "cfg_PipelineOverride ?cfg = None" "case sink_of ?cfg of Some s \<Rightarrow> quiet s | None \<Rightarrow> True"
    "wf_map (cfg_GlobalFields ?cfg)" "seams_keep_dedup ?cfg"
    using built by (auto simp: helper_built_def sink_of_def wf_map_def no_seams)
  have pinned: "filterValidAttrs (dedupOptions ?cfg) = [String ''service'' s]"
    using built by (simp add: dedupOptions_eq service_decided [OF assms(1,2)] helper_built_def String_def)
  have "deduped builtin_keys (r_attrs r) \<and> (\<exists>as. r_attrs r = String ''service'' s # as)"
    if "(t, r) \<in> set (cw_delivered (lw_chain w))" for t r
  proof -
    from logger_lines [OF new assms(3,5) side] that have "deduped builtin_keys (r_attrs r)"
      "take 1 (r_attrs r) = [rename_attr builtin_keys (String ''service'' s)]"
      unfolding pinned by auto
    then show ?thesis
      by (cases "r_attrs r") (simp_all add: rename_attr_def rename_def builtin_keys_def String_def)
  qed
  then show ?thesis by blast
qed

section \<open>A logger made of options\<close>

definition example_service_logger :: "unit slog_logger" where
  "example_service_logger =
     \<lparr>sl_handler = Dedup [String ''service'' ''api''] builtin_keys [] (Sink ()),
      sl_levelVar = True, sl_counterHook = False, sl_contextFields = None, sl_callerSkip = 0\<rparr>"

definition example_options :: "(unit config \<Rightarrow> unit config) list" where
  "example_options = [WithLevel ''info'', WithService ''old'', WithEncoding ''json'']"

definition example_service_config :: "unit config" where
  "example_service_config = options_config (example_options @ WithService ''api'' # [WithLevel ''info''])"

definition example_service_world :: "(unit, unit) log_world" where
  "example_service_world =
     \<lparr>lw_chain = new_world id 0 0 example_service_config example_world, lw_rate = Some (newRateState 0),
      lw_lifecycle = Some (newLifecycleGroup []), lw_incs = [], lw_extractor = None\<rparr>"

lemma example_service_new:
  "NewLogger id example_terminals (\<lambda>t. False) example_log_env example_input 0 0 0 (example_options @ WithService ''api'' # [WithLevel ''info''])
     None example_world = Some (example_service_logger, example_service_world)"
proof -
  have "new_chain id example_terminals (\<lambda>t. False) 0 0 example_service_config = (sl_handler example_service_logger, [], None)"
    by (simp add: new_chain_def example_service_config_def example_options_def options_config_def zero_config_def
        WithLevel_def WithEncoding_def WithService_def base_handler_def decorate_def newTerminalHandler_def
        decorate_inner_def with_metrics_def with_context_handler_def dedupOptions_eq of_dedup_def NewDedupHandler_def
        builtin_keys_def example_service_logger_def example_terminals_def Let_def)
  then show ?thesis
    by (simp add: NewLogger_def New_def NewWithError_def example_service_logger_def example_service_world_def
        newLifecycleGroup_def example_service_config_def options_config_def example_options_def
        zero_config_def WithLevel_def WithEncoding_def WithService_def Let_def)
qed

lemma example_service_call:
  "\<exists>w'. SlogLogger_Log example_log_env example_input example_service_logger None 0 ''hello'' [] example_service_world = Some w' \<and>
     cw_delivered (lw_chain w') \<noteq> []"
  by (simp add: SlogLogger_Log_def log_method_def logger_Enabled_def logRateAware_def emitContext_emit emit_def
        extractLogOptions_def shouldLog_def example_service_logger_def example_service_world_def isStopping_def
        newLifecycleGroup_def example_log_env_def example_env_def DedupHandler_Handle_level NewRecord_def Let_def
        split: option.splits)

theorem service_on_every_line_witness:
  "\<exists>w :: unit chain_world. cw_delivered w \<noteq> [] \<and>
     (\<forall>(t, r) \<in> set (cw_delivered w). \<exists>as. r_attrs r = String ''service'' ''api'' # as)"
proof -
  from example_service_call obtain w' where
    call: "SlogLogger_Log example_log_env example_input example_service_logger None 0 ''hello'' [] example_service_world = Some w'"
    and some: "cw_delivered (lw_chain w') \<noteq> []" by blast
  have reach: "logger_reach example_log_env example_service_logger example_service_world w'"
    by (rule logger_reach.step [OF logger_reach.init logger_step.log_context [OF derived_from.self]]) (rule call)
  have "set example_options \<subseteq> helper_options" "set [WithLevel ''info''] \<subseteq> other_options"
    by (auto simp: example_options_def helper_options_def other_options_def)
  from service_on_every_line [OF this example_fresh_world example_service_new reach] some show ?thesis by blast
qed

end
