(* ===== verification/Globals.thy ===== *)
theory Globals
  imports Helpers
begin

text \<open>
  The process-wide logger: \<open>SetGlobal\<close>, \<open>SetGlobalAndSlogDefault\<close> and \<open>L\<close> (\<open>config.go\<close>), \<open>EnsureLoggerOnce\<close> and
  \<open>ExitWithFlush\<close> (\<open>loggerext.go\<close>), as atomic steps of goroutines that share \<open>globalLogger\<close>, \<open>globalOnce\<close> and
  \<open>ensureLoggerOnce\<close>.

  A logger is of any type: \<open>SetGlobal\<close> takes every implementation of the interface. \<open>mk\<close> stands for \<open>New\<close> (theory Helpers), which keeps no
  global state, and
  \<open>managed l\<close> says whether \<open>l\<close> implements \<open>ManagedLogger\<close>.
\<close>

section \<open>sync.Once\<close>

text \<open>
  Which goroutines are inside the function of a \<open>sync.Once\<close>, for every state of the once: at most the one that
  runs it.
\<close>

definition once_guard :: "once_state \<Rightarrow> (nat \<Rightarrow> bool) \<Rightarrow> bool" where
  "once_guard st inside =
     (case st of
        OnceRunning u \<Rightarrow> inside u \<and> (\<forall>t. t \<noteq> u \<longrightarrow> \<not> inside t)
      | _ \<Rightarrow> (\<forall>t. \<not> inside t))"

lemma once_guard_holder: "once_guard st inside \<Longrightarrow> inside t \<Longrightarrow> st = OnceRunning t"
  by (cases st) (force simp: once_guard_def)+

lemma once_guard_enter: "once_guard OnceFresh inside \<Longrightarrow> once_guard (OnceRunning t) (inside(t := True))"
  by (simp add: once_guard_def)

lemma once_guard_leave: "once_guard (OnceRunning t) inside \<Longrightarrow> once_guard OnceDone (inside(t := False))"
  by (simp add: once_guard_def)

lemma once_guard_same: "once_guard st inside \<Longrightarrow> inside t = b \<Longrightarrow> once_guard st (inside(t := b))"
  by (simp add: fun_upd_idem)

section \<open>State and operations\<close>

record 'l globals =
  gb_logger :: "'l option"
  gb_once :: once_state
  gb_ensure :: once_state
  gb_slogDefault :: "'l option"
  gb_exit :: "int option"
  gh_sets :: "'l list"
  gh_built :: nat
  gh_ensured :: nat
  gh_default :: bool
  gh_drained :: "('l \<times> bool) list"

definition new_globals :: "'l globals" where
  "new_globals =
     \<lparr>gb_logger = None, gb_once = OnceFresh, gb_ensure = OnceFresh, gb_slogDefault = None, gb_exit = None,
      gh_sets = [], gh_built = 0, gh_ensured = 0, gh_default = False, gh_drained = []\<rparr>"

text \<open>What a caller of \<open>L\<close> does with the logger: \<open>ExitWithFlush\<close> carries its exit code.\<close>

datatype after_L = ToReturn | ToExit int

datatype ('l, 't) gclient =
    GIdle
  | GSet "'l option" bool
  | GSetDefault 'l
  | GSetDone
  | LLoad after_L
  | LOnce after_L
  | LNew after_L
  | LCas after_L 'l
  | LOnceEnd after_L
  | LReload after_L
  | LGot 'l
  | ExitDrain int 'l
  | ExitCall int
  | Exited
  | EnsOnce "'t config"
  | EnsNew "'t config"
  | EnsSet 'l
  | EnsOnceEnd
  | EnsDone
  | PanicNilLogger
  | PanicNilDeref

definition Store :: "'l \<Rightarrow> 'l globals \<Rightarrow> 'l globals" where
  "Store l g = g\<lparr>gb_logger := Some l, gh_sets := gh_sets g @ [l]\<rparr>"

definition deliver_L :: "after_L \<Rightarrow> 'l \<Rightarrow> ('l, 't) gclient" where
  "deliver_L k l = (case k of ToReturn \<Rightarrow> LGot l | ToExit code \<Rightarrow> ExitDrain code l)"

fun set_step :: "'l globals \<Rightarrow> ('l, 't) gclient \<Rightarrow> ('l globals \<times> ('l, 't) gclient) option" where
  "set_step g (GSet None slog_too) = Some (g, PanicNilLogger)"
| "set_step g (GSet (Some l) slog_too) = Some (Store l g, if slog_too then GSetDefault l else GSetDone)"
| "set_step g (GSetDefault l) = Some (g\<lparr>gb_slogDefault := Some l\<rparr>, GSetDone)"
| "set_step g _ = None"

fun L_step :: "('t config \<Rightarrow> 'l) \<Rightarrow> nat \<Rightarrow> 'l globals \<Rightarrow> ('l, 't) gclient \<Rightarrow> ('l globals \<times> ('l, 't) gclient) option" where
  "L_step mk t g (LLoad k) =
     (case gb_logger g of Some l \<Rightarrow> Some (g, deliver_L k l) | None \<Rightarrow> Some (g, LOnce k))"
| "L_step mk t g (LOnce k) =
     (case gb_once g of
        OnceFresh \<Rightarrow> Some (g\<lparr>gb_once := OnceRunning t\<rparr>, LNew k)
      | OnceRunning u \<Rightarrow> None
      | OnceDone \<Rightarrow> Some (g, LReload k))"
| "L_step mk t g (LNew k) = Some (g\<lparr>gh_built := gh_built g + 1\<rparr>, LCas k (mk zero_config))"
| "L_step mk t g (LCas k l) =
     Some (if gb_logger g = None then g\<lparr>gb_logger := Some l, gh_default := True\<rparr> else g, LOnceEnd k)"
| "L_step mk t g (LOnceEnd k) = Some (g\<lparr>gb_once := OnceDone\<rparr>, LReload k)"
| "L_step mk t g (LReload k) =
     (case gb_logger g of Some l \<Rightarrow> Some (g, deliver_L k l) | None \<Rightarrow> Some (g, PanicNilDeref))"
| "L_step mk t g _ = None"

fun ensure_step ::
  "('t config \<Rightarrow> 'l) \<Rightarrow> nat \<Rightarrow> 'l globals \<Rightarrow> ('l, 't) gclient \<Rightarrow> ('l globals \<times> ('l, 't) gclient) option" where
  "ensure_step mk t g (EnsOnce cfg) =
     (case gb_ensure g of
        OnceFresh \<Rightarrow> Some (g\<lparr>gb_ensure := OnceRunning t\<rparr>, EnsNew cfg)
      | OnceRunning u \<Rightarrow> None
      | OnceDone \<Rightarrow> Some (g, EnsDone))"
| "ensure_step mk t g (EnsNew cfg) = Some (g, EnsSet (mk cfg))"
| "ensure_step mk t g (EnsSet l) = Some ((Store l g)\<lparr>gh_ensured := gh_ensured g + 1\<rparr>, EnsOnceEnd)"
| "ensure_step mk t g EnsOnceEnd = Some (g\<lparr>gb_ensure := OnceDone\<rparr>, EnsDone)"
| "ensure_step mk t g _ = None"

text \<open>
  The drain ends by itself, bounded by the timeout in the code, and its error is ignored. \<open>exitFunc\<close> ends the
  process.
\<close>

fun exit_step ::
  "('l \<Rightarrow> bool) \<Rightarrow> 'l globals \<Rightarrow> ('l, 't) gclient \<Rightarrow> ('l globals \<times> ('l, 't) gclient) option" where
  "exit_step managed g (ExitDrain code l) = Some (g\<lparr>gh_drained := gh_drained g @ [(l, managed l)]\<rparr>, ExitCall code)"
| "exit_step managed g (ExitCall code) = Some (g\<lparr>gb_exit := Some code\<rparr>, Exited)"
| "exit_step managed g _ = None"

definition global_step ::
  "('t config \<Rightarrow> 'l) \<Rightarrow> ('l \<Rightarrow> bool) \<Rightarrow> nat \<Rightarrow> 'l globals \<Rightarrow> ('l, 't) gclient \<Rightarrow>
   ('l globals \<times> ('l, 't) gclient) option" where
  "global_step mk managed t g pc =
     (if gb_exit g \<noteq> None then None
      else case L_step mk t g pc of Some x \<Rightarrow> Some x | None \<Rightarrow>
        (case set_step g pc of Some x \<Rightarrow> Some x | None \<Rightarrow>
           (case ensure_step mk t g pc of Some x \<Rightarrow> Some x | None \<Rightarrow> exit_step managed g pc)))"

text \<open>Calls a goroutine can make when it has returned from the last one.\<close>

definition global_rest :: "('l, 't) gclient \<Rightarrow> bool" where
  "global_rest pc \<longleftrightarrow> (case pc of GIdle \<Rightarrow> True | GSetDone \<Rightarrow> True | LGot l \<Rightarrow> True | EnsDone \<Rightarrow> True | _ \<Rightarrow> False)"

definition global_call :: "('l, 't) gclient \<Rightarrow> bool" where
  "global_call pc \<longleftrightarrow>
     (case pc of GSet l b \<Rightarrow> True | LLoad k \<Rightarrow> True | EnsOnce cfg \<Rightarrow> True | _ \<Rightarrow> False)"

type_synonym ('l, 't) global_sys = "'l globals \<times> (nat \<Rightarrow> ('l, 't) gclient)"

inductive global_reach ::
  "('t config \<Rightarrow> 'l) \<Rightarrow> ('l \<Rightarrow> bool) \<Rightarrow> 'l globals \<Rightarrow> (nat \<Rightarrow> ('l, 't) gclient) \<Rightarrow> bool" for mk managed where
  init: "global_reach mk managed new_globals (\<lambda>t. GIdle)"
| call: "global_reach mk managed g cl \<Longrightarrow> global_rest (cl t) \<Longrightarrow> global_call pc \<Longrightarrow>
    global_reach mk managed g (cl(t := pc))"
| step: "global_reach mk managed g cl \<Longrightarrow> global_step mk managed t g (cl t) = Some (g', pc) \<Longrightarrow>
    global_reach mk managed g' (cl(t := pc))"

fun_cases set_stepE: "set_step g pc = Some x"
fun_cases L_stepE: "L_step mk t g pc = Some x"
fun_cases ensure_stepE: "ensure_step mk t g pc = Some x"
fun_cases exit_stepE: "exit_step managed g pc = Some x"

section \<open>The invariant\<close>

fun building :: "('l, 't) gclient \<Rightarrow> bool" where
  "building (LNew k) = True"
| "building (LCas k l) = True"
| "building (LOnceEnd k) = True"
| "building _ = False"

fun ensuring :: "('l, 't) gclient \<Rightarrow> bool" where
  "ensuring (EnsNew cfg) = True"
| "ensuring (EnsSet l) = True"
| "ensuring EnsOnceEnd = True"
| "ensuring _ = False"

fun gclient_ok :: "('t config \<Rightarrow> 'l) \<Rightarrow> ('l \<Rightarrow> bool) \<Rightarrow> 'l globals \<Rightarrow> ('l, 't) gclient \<Rightarrow> bool" where
  "gclient_ok mk managed g (LNew k) \<longleftrightarrow> gh_built g = 0 \<and> \<not> gh_default g"
| "gclient_ok mk managed g (LCas k l) \<longleftrightarrow> gh_built g = 1 \<and> \<not> gh_default g \<and> l = mk zero_config"
| "gclient_ok mk managed g (LOnceEnd k) \<longleftrightarrow> gh_built g = 1 \<and> gb_logger g \<noteq> None"
| "gclient_ok mk managed g (LReload k) \<longleftrightarrow> gb_once g = OnceDone"
| "gclient_ok mk managed g (EnsNew cfg) \<longleftrightarrow> gh_ensured g = 0"
| "gclient_ok mk managed g (EnsSet l) \<longleftrightarrow> gh_ensured g = 0 \<and> l \<in> range mk"
| "gclient_ok mk managed g EnsOnceEnd \<longleftrightarrow> gh_ensured g = 1"
| "gclient_ok mk managed g (ExitCall code) \<longleftrightarrow> gh_drained g \<noteq> []"
| "gclient_ok mk managed g Exited \<longleftrightarrow> gh_drained g \<noteq> []"
| "gclient_ok mk managed g PanicNilDeref \<longleftrightarrow> False"
| "gclient_ok mk managed g _ \<longleftrightarrow> True"

definition globals_ok :: "('t config \<Rightarrow> 'l) \<Rightarrow> ('l \<Rightarrow> bool) \<Rightarrow> 'l globals \<Rightarrow> bool" where
  "globals_ok mk managed g \<longleftrightarrow>
     gb_logger g = (if gh_sets g \<noteq> [] then Some (last (gh_sets g)) else if gh_default g then Some (mk zero_config) else None) \<and>
     (gb_once g = OnceFresh \<longrightarrow> gh_built g = 0 \<and> \<not> gh_default g) \<and>
     (gb_once g = OnceDone \<longrightarrow> gh_built g = 1 \<and> (gh_sets g \<noteq> [] \<or> gh_default g)) \<and>
     (gb_ensure g = OnceFresh \<longrightarrow> gh_ensured g = 0) \<and> (gb_ensure g = OnceDone \<longrightarrow> gh_ensured g = 1) \<and>
     gh_built g \<le> 1 \<and> gh_ensured g \<le> 1 \<and> list_all (\<lambda>(l, b). b = managed l) (gh_drained g) \<and>
     (gb_exit g \<noteq> None \<longrightarrow> gh_drained g \<noteq> [])"

definition global_inv :: "('t config \<Rightarrow> 'l) \<Rightarrow> ('l \<Rightarrow> bool) \<Rightarrow> 'l globals \<Rightarrow> (nat \<Rightarrow> ('l, 't) gclient) \<Rightarrow> bool" where
  "global_inv mk managed g cl \<longleftrightarrow>
     globals_ok mk managed g \<and> once_guard (gb_once g) (building \<circ> cl) \<and> once_guard (gb_ensure g) (ensuring \<circ> cl) \<and>
     (\<forall>t. gclient_ok mk managed g (cl t))"

lemma global_inv_init: "global_inv mk managed new_globals (\<lambda>t. GIdle)"
  by (simp add: global_inv_def globals_ok_def new_globals_def once_guard_def)

text \<open>A step keeps what the other goroutines rely on when it changes only what is theirs to change.\<close>

lemma gclient_ok_other:
  assumes "gclient_ok mk managed g pc"
    and "building pc \<Longrightarrow> gh_built g' = gh_built g \<and> gh_default g' = gh_default g"
    and "ensuring pc \<Longrightarrow> gh_ensured g' = gh_ensured g"
    and "gb_logger g \<noteq> None \<Longrightarrow> gb_logger g' \<noteq> None" "gb_once g = OnceDone \<Longrightarrow> gb_once g' = OnceDone"
    and "gh_drained g \<noteq> [] \<Longrightarrow> gh_drained g' \<noteq> []"
  shows "gclient_ok mk managed g' pc"
  using assms by (cases pc) simp_all

lemma global_inv_parts:
  assumes "global_inv mk managed g cl"
  shows "globals_ok mk managed g" "gclient_ok mk managed g (cl t)" "once_guard (gb_once g) (building \<circ> cl)"
    "once_guard (gb_ensure g) (ensuring \<circ> cl)" "building (cl t) \<Longrightarrow> gb_once g = OnceRunning t"
    "ensuring (cl t) \<Longrightarrow> gb_ensure g = OnceRunning t"
  using assms once_guard_holder [of "gb_once g" "building \<circ> cl" t] once_guard_holder [of "gb_ensure g" "ensuring \<circ> cl" t]
  by (auto simp: global_inv_def)

lemma global_invI:
  assumes inv: "global_inv mk managed g cl" and "globals_ok mk managed g'" "gclient_ok mk managed g' pc"
    and "once_guard (gb_once g') ((building \<circ> cl)(t := building pc))"
    and "once_guard (gb_ensure g') ((ensuring \<circ> cl)(t := ensuring pc))"
    and "building (cl t) \<or> gh_built g' = gh_built g \<and> gh_default g' = gh_default g"
    and "ensuring (cl t) \<or> gh_ensured g' = gh_ensured g"
    and "gb_logger g \<noteq> None \<Longrightarrow> gb_logger g' \<noteq> None" "gb_once g = OnceDone \<Longrightarrow> gb_once g' = OnceDone"
    and "gh_drained g \<noteq> [] \<Longrightarrow> gh_drained g' \<noteq> []"
  shows "global_inv mk managed g' (cl(t := pc))"
proof -
  have "gclient_ok mk managed g' (cl u)" if u: "u \<noteq> t" for u
  proof (rule gclient_ok_other [OF global_inv_parts(2) [OF inv]])
    show "gh_built g' = gh_built g \<and> gh_default g' = gh_default g" if "building (cl u)"
      using assms(6) that u global_inv_parts(5) [OF inv, of u] global_inv_parts(5) [OF inv, of t] by auto
    show "gh_ensured g' = gh_ensured g" if "ensuring (cl u)"
      using assms(7) that u global_inv_parts(6) [OF inv, of u] global_inv_parts(6) [OF inv, of t] by auto
  qed (use assms(8-10) in auto)
  then show ?thesis using assms(2-5) by (simp add: global_inv_def fun_upd_comp)
qed

lemma L_step_inv:
  assumes "L_step mk t g (cl t) = Some (g', pc)" "global_inv mk managed g cl"
  shows "global_inv mk managed g' (cl(t := pc))"
proof -
  note parts = global_inv_parts(1,3,4) [OF assms(2)] global_inv_parts(2,5,6) [OF assms(2), of t]
  show ?thesis
    using assms(1) parts
    by (intro global_invI [OF assms(2)]; elim L_stepE)
       (auto simp: globals_ok_def deliver_L_def once_guard_same once_guard_enter once_guard_leave
         split: option.splits once_state.splits after_L.splits if_splits)
qed

lemma set_step_inv:
  assumes "set_step g (cl t) = Some (g', pc)" "global_inv mk managed g cl"
  shows "global_inv mk managed g' (cl(t := pc))"
proof -
  note parts = global_inv_parts(1,3,4) [OF assms(2)] global_inv_parts(2,5,6) [OF assms(2), of t]
  show ?thesis
    using assms(1) parts
    by (intro global_invI [OF assms(2)]; elim set_stepE)
       (auto simp: globals_ok_def Store_def once_guard_same)
qed

lemma ensure_step_inv:
  assumes "ensure_step mk t g (cl t) = Some (g', pc)" "global_inv mk managed g cl"
  shows "global_inv mk managed g' (cl(t := pc))"
proof -
  note parts = global_inv_parts(1,3,4) [OF assms(2)] global_inv_parts(2,5,6) [OF assms(2), of t]
  show ?thesis
    using assms(1) parts
    by (intro global_invI [OF assms(2)]; elim ensure_stepE)
       (auto simp: globals_ok_def Store_def once_guard_same once_guard_enter once_guard_leave
         split: once_state.splits if_splits)
qed

lemma globals_ok_exit:
  "globals_ok mk managed g \<Longrightarrow> globals_ok mk managed (g\<lparr>gh_drained := gh_drained g @ [(l, managed l)]\<rparr>)"
  "globals_ok mk managed g \<Longrightarrow> gh_drained g \<noteq> [] \<Longrightarrow> globals_ok mk managed (g\<lparr>gb_exit := Some code\<rparr>)"
  unfolding globals_ok_def by simp_all

lemma exit_step_inv:
  assumes "exit_step managed g (cl t) = Some (g', pc)" "global_inv mk managed g cl"
  shows "global_inv mk managed g' (cl(t := pc))"
proof -
  note parts = global_inv_parts(1,3,4) [OF assms(2)] global_inv_parts(2) [OF assms(2), of t]
  consider (drain) code l where "cl t = ExitDrain code l" "g' = g\<lparr>gh_drained := gh_drained g @ [(l, managed l)]\<rparr>"
      "pc = ExitCall code"
    | (exits) code where "cl t = ExitCall code" "g' = g\<lparr>gb_exit := Some code\<rparr>" "pc = Exited"
    using assms(1) by (cases "cl t") auto
  then show ?thesis
    by cases (rule global_invI [OF assms(2)], use parts in \<open>simp_all add: globals_ok_exit once_guard_same\<close>)+
qed

lemma global_call_inv:
  assumes "global_inv mk managed g cl" "global_rest (cl t)" "global_call pc"
  shows "global_inv mk managed g (cl(t := pc))"
proof -
  have "\<not> building (cl t)" "\<not> ensuring (cl t)" using assms(2) by (cases "cl t"; simp add: global_rest_def)+
  moreover have "\<not> building pc" "\<not> ensuring pc" "gclient_ok mk managed g pc"
    using assms(3) by (cases pc; simp add: global_call_def)+
  ultimately show ?thesis
    using global_inv_parts(1,3,4) [OF assms(1)]
    by (intro global_invI [OF assms(1)]) (simp_all add: once_guard_same)
qed

lemma global_step_cases:
  assumes "global_step mk managed t g pc = Some x"
  obtains "L_step mk t g pc = Some x" | "set_step g pc = Some x" | "ensure_step mk t g pc = Some x"
    | "exit_step managed g pc = Some x"
  using assms by (auto simp: global_step_def split: if_splits option.splits)

lemma global_reach_inv: "global_reach mk managed g cl \<Longrightarrow> global_inv mk managed g cl"
proof (induction rule: global_reach.induct)
  case (step g cl t g' pc)
  from step.hyps(2) step.IH show ?case
    by (cases rule: global_step_cases)
       (erule (1) L_step_inv set_step_inv ensure_step_inv exit_step_inv)+
qed (rule global_inv_init, rule global_call_inv)

section \<open>What callers rely on\<close>

text \<open>
  C25. In every interleaving: \<open>L\<close> never dereferences a nil pointer; at most one default logger is built, and at most one
  logger is set by \<open>EnsureLoggerOnce\<close>; the global logger is always the one of the latest \<open>SetGlobal\<close>, whatever
  the lazy default does at the same time, and the default only while nobody has set one; and the process only exits
  after a drain.
\<close>

theorem latest_set_wins:
  assumes "global_reach mk managed g cl"
  shows "cl t \<noteq> PanicNilDeref \<and> gh_built g \<le> 1 \<and> gh_ensured g \<le> 1 \<and>
    (gh_sets g \<noteq> [] \<longrightarrow> gb_logger g = Some (last (gh_sets g))) \<and>
    (gh_sets g = [] \<longrightarrow> gb_logger g \<in> {None, Some (mk zero_config)}) \<and>
    (gb_exit g \<noteq> None \<longrightarrow> gh_drained g \<noteq> [])"
proof -
  from global_reach_inv [OF assms] have ok: "globals_ok mk managed g" and "gclient_ok mk managed g (cl t)"
    by (simp_all add: global_inv_def)
  from this(2) have "cl t \<noteq> PanicNilDeref" by auto
  with ok show ?thesis by (auto simp: globals_ok_def)
qed

text \<open>Which goroutines wait for another one: those at a once whose function is running.\<close>

lemma inside_steps: "building pc \<or> ensuring pc \<Longrightarrow> gb_exit g = None \<Longrightarrow> global_step mk managed u g pc \<noteq> None"
  by (cases pc) (simp_all add: global_step_def)

lemma global_step_or_wait:
  assumes "gb_exit g = None" "global_step mk managed t g pc = None"
  shows "global_rest pc \<or> pc \<in> {PanicNilLogger, PanicNilDeref, Exited} \<or>
    (\<exists>k u. pc = LOnce k \<and> gb_once g = OnceRunning u) \<or> (\<exists>cfg u. pc = EnsOnce cfg \<and> gb_ensure g = OnceRunning u)"
proof (cases pc)
  case (GSet l b)
  with assms show ?thesis by (cases l) (simp_all add: global_step_def)
qed (use assms in \<open>auto simp: global_step_def global_rest_def split: option.splits once_state.splits\<close>)

lemma once_guard_running: "once_guard (OnceRunning u) inside \<Longrightarrow> inside u"
  by (simp add: once_guard_def)

text \<open>
  C26. No deadlock: as long as the process runs, a call that has not returned or panicked can take a step, or waits for a
  goroutine that can.
\<close>

theorem global_progress:
  assumes "global_reach mk managed g cl" "gb_exit g = None" "\<not> global_rest (cl t)"
    "cl t \<notin> {PanicNilLogger, PanicNilDeref, Exited}"
  shows "\<exists>u. global_step mk managed u g (cl u) \<noteq> None \<and> (u = t \<or> building (cl u) \<or> ensuring (cl u))"
proof (cases "global_step mk managed t g (cl t) = None")
  case True
  with global_step_or_wait [OF assms(2)] assms(3,4) obtain u where
    "gb_once g = OnceRunning u \<or> gb_ensure g = OnceRunning u" by blast
  then have "building (cl u) \<or> ensuring (cl u)"
    using global_inv_parts(3,4) [OF global_reach_inv [OF assms(1)]]
      once_guard_running [of u "building \<circ> cl"] once_guard_running [of u "ensuring \<circ> cl"] by auto
  with inside_steps [OF this assms(2)] show ?thesis by blast
qed blast

section \<open>A run\<close>

datatype ('l, 't) global_event = Call nat "('l, 't) gclient" | Step nat

definition global_apply ::
  "('t config \<Rightarrow> 'l) \<Rightarrow> ('l \<Rightarrow> bool) \<Rightarrow> ('l, 't) global_event \<Rightarrow> 'l globals \<times> (nat \<Rightarrow> ('l, 't) gclient) \<Rightarrow>
   ('l globals \<times> (nat \<Rightarrow> ('l, 't) gclient)) option" where
  "global_apply mk managed e s =
     (case e of
        Call t pc \<Rightarrow> if global_rest (snd s t) \<and> global_call pc then Some (fst s, (snd s)(t := pc)) else None
      | Step t \<Rightarrow> map_option (\<lambda>(g, pc). (g, (snd s)(t := pc))) (global_step mk managed t (fst s) (snd s t)))"

fun global_exec ::
  "('t config \<Rightarrow> 'l) \<Rightarrow> ('l \<Rightarrow> bool) \<Rightarrow> ('l, 't) global_event list \<Rightarrow> 'l globals \<times> (nat \<Rightarrow> ('l, 't) gclient) \<Rightarrow>
   ('l globals \<times> (nat \<Rightarrow> ('l, 't) gclient)) option" where
  "global_exec mk managed [] s = Some s"
| "global_exec mk managed (e # es) s =
     (case global_apply mk managed e s of None \<Rightarrow> None | Some s \<Rightarrow> global_exec mk managed es s)"

lemma global_exec_reach:
  "global_exec mk managed es s = Some s' \<Longrightarrow> global_reach mk managed (fst s) (snd s) \<Longrightarrow>
   global_reach mk managed (fst s') (snd s')"
proof (induction es arbitrary: s)
  case (Cons e es)
  from Cons.prems(1) obtain s1 where s1: "global_apply mk managed e s = Some s1"
    and es: "global_exec mk managed es s1 = Some s'" by (auto split: option.splits)
  from s1 Cons.prems(2) have "global_reach mk managed (fst s1) (snd s1)"
    by (cases e) (auto simp: global_apply_def split: if_splits intro: global_reach.intros)
  from Cons.IH [OF es this] show ?case .
qed simp

text \<open>Goroutine 0 builds the default while goroutine 1 sets logger 7 and goroutine 2 waits for the once.\<close>

definition example_race :: "(nat, unit) global_event list" where
  "example_race =
     [Call 0 (LLoad ToReturn), Step 0, Step 0, Call 2 (LLoad (ToExit 3)), Step 2, Step 0,
      Call 1 (GSet (Some 7) False), Step 1]"

lemma example_race_state:
  "\<exists>s. global_exec (\<lambda>c. 0) (\<lambda>l. True) example_race (new_globals, \<lambda>t. GIdle) = Some s \<and>
     gh_sets (fst s) = [7] \<and> gb_exit (fst s) = None \<and> snd s 2 = LOnce (ToExit 3)"
  by (simp add: example_race_def global_apply_def global_step_def global_rest_def global_call_def new_globals_def Store_def)

theorem latest_set_wins_witness:
  "\<exists>g cl. global_reach (\<lambda>c :: unit config. 0 :: nat) (\<lambda>l. True) g cl \<and> gb_logger g = Some 7"
proof -
  obtain s where s: "global_exec (\<lambda>c. 0) (\<lambda>l. True) example_race (new_globals, \<lambda>t. GIdle) = Some s" "gh_sets (fst s) = [7]"
    using example_race_state by blast
  from global_exec_reach [OF s(1)] have r: "global_reach (\<lambda>c. 0) (\<lambda>l. True) (fst s) (snd s)"
    by (simp add: global_reach.init)
  from latest_set_wins [OF r] s(2) r show ?thesis by auto
qed

theorem global_progress_witness:
  "\<exists>g cl u. global_reach (\<lambda>c :: unit config. 0 :: nat) (\<lambda>l. True) g cl \<and> cl 2 = LOnce (ToExit 3) \<and>
     global_step (\<lambda>c. 0) (\<lambda>l. True) u g (cl u) \<noteq> None"
proof -
  obtain s where s: "global_exec (\<lambda>c. 0) (\<lambda>l. True) example_race (new_globals, \<lambda>t. GIdle) = Some s"
    "gb_exit (fst s) = None" "snd s 2 = LOnce (ToExit 3)"
    using example_race_state by blast
  from global_exec_reach [OF s(1)] have r: "global_reach (\<lambda>c. 0) (\<lambda>l. True) (fst s) (snd s)"
    by (simp add: global_reach.init)
  have "\<not> global_rest (snd s 2)" "snd s 2 \<notin> {PanicNilLogger, PanicNilDeref, Exited}"
    using s(3) by (simp_all add: global_rest_def)
  from global_progress [OF r s(2) this] obtain u where "global_step (\<lambda>c. 0) (\<lambda>l. True) u (fst s) (snd s u) \<noteq> None" by blast
  with r s(3) show ?thesis by (intro exI [of _ "fst s"] exI [of _ "snd s"] exI [of _ u]) simp
qed

end
