(* ===== verification/LineTypes.thy ===== *)
theory LineTypes
  imports Helpers
begin

text \<open>
  The type of the lines a pipeline delivers: which slog values a sink can meet. Everything is resolved and no group
  is empty, at any depth, so a sink never has to call back into the values it prints.
\<close>

section \<open>Settled attrs\<close>

fun settled_value :: "slog_value \<Rightarrow> bool" and settled_attr :: "attr \<Rightarrow> bool" where
  "settled_value (Group ms) = (ms \<noteq> [] \<and> list_all settled_attr ms)"
| "settled_value (LogValuer t v) = False"
| "settled_value _ = True"
| "settled_attr (Attr k v) = settled_value v"

lemma settled_attr_eq: "settled_attr a = settled_value (Val a)"
  by (cases a) simp

lemma settled_scalar: "\<not> is_group v \<Longrightarrow> \<not> is_log_valuer v \<Longrightarrow> settled_value v"
  by (cases v) auto

text \<open>A settled value resolves to itself: nothing is left to be evaluated.\<close>

lemma settled_Resolve: "settled_value v \<Longrightarrow> Resolve v = v"
  by (rule Resolve_id) (cases v, auto)

lemma materialize_settled:
  "wf_node n \<Longrightarrow> list_all settled_attr (materialize reserved n)"
proof (induction reserved n rule: materialize.induct)
  case (2 reserved k a p n)
  then show ?case by (simp add: wf_node_Cons settled_scalar)
next
  case (3 reserved k sub p n)
  then have wf: "wf_node sub" "wf_node n" by (simp_all add: wf_node_Cons)
  then have "list_all settled_attr (materialize [] sub)" using "3.IH"(1) by blast
  with wf "3.IH"(2,3) [OF HOL.refl] show ?case
    by (auto simp: Let_def GroupValue_def filter_nonempty_materialize)
qed simp

lemma clean_settled: "isClean h r \<Longrightarrow> list_all settled_attr (r_attrs r)"
  by (auto simp: isClean_spec list_all_iff settled_attr_eq intro: settled_scalar)

lemma Handle_settled: "list_all settled_attr (r_attrs (DedupHandler_Handle h r))"
  using clean_settled [of h r] by (simp add: handle_attrs materialize_settled wf_node_root)

interpretation settled_lines: dedup_guarantee E "\<lambda>p res. True" "list_all settled_attr" for E :: "'t chain_env"
  by unfold_locales (rule Handle_settled)

section \<open>Every line of every logger\<close>

text \<open>
  C24. Type soundness of the lines of a logger that \<open>NewWithError\<close> built without a \<open>PipelineOverride\<close>, over its own writer
  or a sink that only forwards (\<open>quiet\<close>), and with seams that leave the dedup stage above the sink or with none: whatever
  the caller logs, group values, nested or empty, lazily evaluated ones, ones that panic or never stop, every attr that
  reaches the sink is resolved and holds no empty group.
\<close>

theorem delivered_lines_typed:
  assumes "NewWithError lower te fl E i pc k b cfg hook ext w0 = Some (l, lw, errs, merr)" "fresh_world w0"
    "logger_reach E l lw w" "cfg_PipelineOverride cfg = None" "case sink_of cfg of Some s \<Rightarrow> quiet s | None \<Rightarrow> True"
    "seams_keep_dedup cfg"
  shows "\<forall>(t, r) \<in> set (cw_delivered (lw_chain w)). list_all settled_attr (r_attrs r)"
proof (rule settled_lines.at_every_sink)
  show "chain_reach (le_chain E) (fst (new_chain lower te fl k b cfg)) (lw_chain w)"
    using logger_reach_chain [OF assms(3)] new_logger_reach [OF assms(1,2)] by metis
  show "guarded (\<lambda>p res. True) (fst (new_chain lower te fl k b cfg))"
    by (rule new_chain_guarded [OF assms(4) _ assms(5)]) (use assms(6) in \<open>simp_all add: seams_keep_dedup_def\<close>)
qed

theorem delivered_lines_typed_witness:
  "\<exists>w :: unit chain_world. cw_delivered w \<noteq> [] \<and> (\<forall>(t, r) \<in> set (cw_delivered w). list_all settled_attr (r_attrs r))"
proof -
  from example_log_call obtain w' where
    call: "SlogLogger_Log example_log_env example_input example_logger None 0 ''hello'' example_args (example_log_world False) = Some w'"
    and some: "cw_delivered (lw_chain w') \<noteq> []" by blast
  have "cfg_PipelineOverride example_logger_config = None"
    "case sink_of example_logger_config of Some s \<Rightarrow> quiet s | None \<Rightarrow> True"
    "seams_keep_dedup example_logger_config"
    by (simp_all add: example_logger_config_def example_config_def sink_of_def no_seams)
  from delivered_lines_typed [OF example_new example_fresh_world example_logger_reach [OF call] this] some
  show ?thesis by blast
qed

end
