(* ===== verification/Slices.thy ===== *)
theory Slices
  imports HeldOps
begin

text \<open>
  Go slices as views of arrays on a store, and the derivation of handlers on it. Elsewhere in the development a slice
  is a list; here the backing arrays are explicit, so that it can be said what the copies in the code are for:
  \<open>append\<close> writes into spare capacity, which a handler shares with the handlers derived from it, and a slice passed
  to \<open>WithAttrs\<close> still belongs to the caller, who may overwrite it later.

  The locale \<open>held_store\<close> states what one handler's \<open>WithAttrs\<close> and \<open>WithGroup\<close> promise on the store; the system of
  handlers and callers at the end keeps every handler's held calls equal to those of the list model.
\<close>

section \<open>Slices\<close>

record slice =
  p_arr :: nat
  p_off :: nat
  p_len :: nat
  p_cap :: nat

text \<open>An array store: the arrays allocated so far. The nil slice has no array.\<close>

type_synonym 'a arrays = "'a list list"

definition nil_slice :: slice where
  "nil_slice = \<lparr>p_arr = 0, p_off = 0, p_len = 0, p_cap = 0\<rparr>"

definition slice_read :: "'a arrays \<Rightarrow> slice \<Rightarrow> 'a list" where
  "slice_read A s = (if p_cap s = 0 then [] else take (p_len s) (drop (p_off s) (A ! p_arr s)))"

definition slice_ok :: "'a arrays \<Rightarrow> slice \<Rightarrow> bool" where
  "slice_ok A s \<longleftrightarrow> p_len s \<le> p_cap s \<and>
     (if p_cap s = 0 then True else p_arr s < length A \<and> p_off s + p_cap s \<le> length (A ! p_arr s))"

text \<open>A new array for \<open>xs\<close>, with the spare capacity the runtime chooses (\<open>spare\<close>), filled with the zero value.\<close>

definition slice_alloc :: "nat \<Rightarrow> 'a \<Rightarrow> 'a list \<Rightarrow> 'a arrays \<Rightarrow> 'a arrays \<times> slice" where
  "slice_alloc spare zero xs A =
     (A @ [xs @ replicate spare zero],
      \<lparr>p_arr = length A, p_off = 0, p_len = length xs, p_cap = length xs + spare\<rparr>)"

text \<open>\<open>append(s, x)\<close>, \<open>slices.Clip(s)\<close> and \<open>slices.Clone(s)\<close>.\<close>

definition slice_append :: "nat \<Rightarrow> 'a \<Rightarrow> 'a arrays \<Rightarrow> slice \<Rightarrow> 'a \<Rightarrow> 'a arrays \<times> slice" where
  "slice_append spare zero A s x =
     (if p_len s < p_cap s
      then (A[p_arr s := (A ! p_arr s)[p_off s + p_len s := x]], s\<lparr>p_len := Suc (p_len s)\<rparr>)
      else slice_alloc spare zero (slice_read A s @ [x]) A)"

definition Clip :: "slice \<Rightarrow> slice" where
  "Clip s = s\<lparr>p_cap := p_len s\<rparr>"

definition Clone :: "nat \<Rightarrow> 'a \<Rightarrow> 'a arrays \<Rightarrow> slice \<Rightarrow> 'a arrays \<times> slice" where
  "Clone spare zero A s = slice_alloc spare zero (slice_read A s) A"

lemmas slice_defs = slice_read_def slice_ok_def slice_alloc_def slice_append_def Clip_def Clone_def nil_slice_def

lemma slice_read_length [simp]: "slice_ok A s \<Longrightarrow> length (slice_read A s) = p_len s"
  by (auto simp: slice_defs)

lemma slice_alloc_simps [simp]:
  "slice_alloc spare zero xs A = (B, s) \<Longrightarrow> slice_read B s = xs"
  "slice_alloc spare zero xs A = (B, s) \<Longrightarrow> slice_ok B s"
  by (auto simp: slice_defs)

text \<open>A store that only grew, except for arrays in \<open>W\<close>, which may have been written.\<close>

definition grown :: "nat set \<Rightarrow> 'a arrays \<Rightarrow> 'a arrays \<Rightarrow> bool" where
  "grown W A B \<longleftrightarrow> length A \<le> length B \<and> (\<forall>i < length A. length (B ! i) = length (A ! i)) \<and>
     (\<forall>i < length A. if i \<in> W then True else B ! i = A ! i)"

lemma grown_refl [simp]: "grown W A A"
  by (simp add: grown_def)

lemma grown_trans: "grown W A B \<Longrightarrow> grown W B C \<Longrightarrow> grown W A C"
  unfolding grown_def by (metis (full_types) le_trans order_less_le_trans)

lemma grown_alloc [simp]: "slice_alloc spare zero xs A = (B, s) \<Longrightarrow> grown W A B"
  by (auto simp: grown_def slice_defs nth_append)

lemma grown_read: "grown W A B \<Longrightarrow> slice_ok A s \<Longrightarrow> p_cap s = 0 \<or> p_arr s \<notin> W \<Longrightarrow> slice_read B s = slice_read A s"
  by (auto simp: grown_def slice_defs split: if_splits)

lemma grown_ok: "grown W A B \<Longrightarrow> slice_ok A s \<Longrightarrow> slice_ok B s"
  by (auto simp: grown_def slice_defs split: if_splits)

lemma grown_write: "i \<in> W \<Longrightarrow> grown W A (A[i := (A ! i)[k := x]])"
  by (cases "i < length A") (auto simp: grown_def nth_list_update)

lemma read_nil [simp]: "slice_read A nil_slice = []"
  by (simp add: slice_defs)

lemma ok_nil [simp]: "slice_ok A nil_slice"
  by (simp add: slice_defs)

text \<open>\<open>append\<close> onto a clipped slice always makes a new array.\<close>

lemma append_clipped:
  "slice_append spare zero A (Clip s) x = slice_alloc spare zero (slice_read A (Clip s) @ [x]) A"
  by (simp add: slice_append_def Clip_def)

lemma read_Clip [simp]: "slice_ok A s \<Longrightarrow> slice_read A (Clip s) = slice_read A s"
  by (auto simp: slice_defs)

text \<open>\<open>append\<close> onto a slice whose array is newer than a store \<open>A0\<close>, such as a local variable's.\<close>

definition newer :: "'a arrays \<Rightarrow> slice \<Rightarrow> bool" where
  "newer A0 s \<longleftrightarrow> p_cap s = 0 \<or> length A0 \<le> p_arr s"

lemma append_newer:
  assumes "slice_append spare zero A s x = (B, s')" "grown W A0 A" "slice_ok A s" "newer A0 s"
  shows "grown W A0 B" "slice_ok B s'" "newer A0 s'" "slice_read B s' = slice_read A s @ [x]"
proof -
  have "grown W A0 B \<and> slice_ok B s' \<and> newer A0 s' \<and> slice_read B s' = slice_read A s @ [x]"
  proof (cases "p_len s < p_cap s")
    case True
    then have s: "s' = s\<lparr>p_len := Suc (p_len s)\<rparr>" "B = A[p_arr s := (A ! p_arr s)[p_off s + p_len s := x]]"
      using assms(1) by (simp_all add: slice_append_def)
    have arr: "p_arr s < length A" "p_off s + p_cap s \<le> length (A ! p_arr s)" "length A0 \<le> p_arr s"
      using True assms(3,4) by (auto simp: slice_ok_def newer_def)
    have "grown W A0 B"
      using assms(2) arr by (auto simp: s grown_def nth_list_update)
    moreover have "slice_read B s' = slice_read A s @ [x]"
      using True arr by (simp add: s slice_read_def take_Suc_conv_app_nth drop_update_swap)
    ultimately show ?thesis
      using True arr by (simp add: s slice_ok_def newer_def)
  next
    case False
    with assms(1) have a: "slice_alloc spare zero (slice_read A s @ [x]) A = (B, s')"
      by (simp add: slice_append_def)
    then have "newer A0 s'" using assms(2) by (auto simp: slice_alloc_def newer_def grown_def)
    with a assms(2) grown_trans [OF assms(2) grown_alloc [OF a]] show ?thesis by simp
  qed
  then show "grown W A0 B" "slice_ok B s'" "newer A0 s'" "slice_read B s' = slice_read A s @ [x]" by blast+
qed

section \<open>Held calls on the store\<close>

text \<open>\<open>dedupOp\<close> and its likes: \<open>attrs\<close> is a slice of its own array.\<close>

datatype heap_op = HoldAttrs slice | HoldGroup bytes

record op_store =
  os_attrs :: "attr arrays"
  os_ops :: "heap_op arrays"

fun read_op :: "op_store \<Rightarrow> heap_op \<Rightarrow> held_op" where
  "read_op st (HoldAttrs p) = HeldAttrs (slice_read (os_attrs st) p)"
| "read_op st (HoldGroup g) = HeldGroup g"

definition read_ops :: "op_store \<Rightarrow> slice \<Rightarrow> held_op list" where
  "read_ops st s = map (read_op st) (slice_read (os_ops st) s)"

text \<open>\<open>filterValidAttrs\<close> (\<open>global_fields_handler.go\<close>): \<open>out\<close> starts as nil and grows by \<open>append\<close>.\<close>

fun heap_valid_loop :: "(nat \<Rightarrow> nat) \<Rightarrow> slice \<Rightarrow> nat list \<Rightarrow> attr arrays \<Rightarrow> slice \<Rightarrow> attr arrays \<times> slice" where
  "heap_valid_loop spare attrs [] A out = (A, out)"
| "heap_valid_loop spare attrs (i # is) A out =
     (let a = A ! p_arr attrs ! (p_off attrs + i) in
      if Key a \<noteq> []
      then (let (A, out) = slice_append (spare (p_len out)) zero_attr A out a in heap_valid_loop spare attrs is A out)
      else heap_valid_loop spare attrs is A out)"

definition heap_filterValidAttrs :: "(nat \<Rightarrow> nat) \<Rightarrow> attr arrays \<Rightarrow> slice \<Rightarrow> attr arrays \<times> slice" where
  "heap_filterValidAttrs spare A attrs = heap_valid_loop spare attrs [0..<p_len attrs] A nil_slice"

lemma slice_read_nth: "slice_ok A s \<Longrightarrow> i < p_len s \<Longrightarrow> slice_read A s ! i = A ! p_arr s ! (p_off s + i)"
  by (auto simp: slice_read_def slice_ok_def split: if_splits)

lemma heap_valid_loop:
  assumes "heap_valid_loop spare attrs is A out = (B, out')" "set is \<subseteq> {..<p_len attrs}"
    and "grown {} A0 A" "slice_ok A out" "newer A0 out" "slice_ok A0 attrs"
  shows "grown {} A0 B \<and> slice_ok B out' \<and>
    slice_read B out' = slice_read A out @ filterValidAttrs (map (\<lambda>i. slice_read A0 attrs ! i) is)"
  using assms
proof (induction "is" arbitrary: A out)
  case (Cons i "is")
  have "slice_read A attrs = slice_read A0 attrs" "slice_ok A attrs"
    using grown_read [OF Cons.prems(3,6)] grown_ok [OF Cons.prems(3,6)] by simp_all
  then have a: "slice_read A0 attrs ! i = A ! p_arr attrs ! (p_off attrs + i)"
    using Cons.prems(2) slice_read_nth [of A attrs i] by simp
  show ?case
  proof (cases "Key (slice_read A0 attrs ! i) = []")
    case True
    with Cons show ?thesis by (simp add: a)
  next
    case False
    obtain A1 out1 where s: "slice_append (spare (p_len out)) zero_attr A out (slice_read A0 attrs ! i) = (A1, out1)"
      by (cases "slice_append (spare (p_len out)) zero_attr A out (slice_read A0 attrs ! i)")
    note n = append_newer [OF s Cons.prems(3,4,5)]
    have "heap_valid_loop spare attrs is A1 out1 = (B, out')"
      using Cons.prems(1) False s by (simp add: a)
    from Cons.IH [OF this _ n(1,2,3) Cons.prems(6)] Cons.prems(2) False n(4) show ?thesis by simp
  qed
qed simp

lemma heap_filterValidAttrs:
  assumes "heap_filterValidAttrs spare A attrs = (B, out)" "slice_ok A attrs"
  shows "grown {} A B" "slice_ok B out" "slice_read B out = filterValidAttrs (slice_read A attrs)"
proof -
  have "map (\<lambda>i. slice_read A attrs ! i) [0..<p_len attrs] = slice_read A attrs"
    using slice_read_length [OF assms(2)] map_nth [of "slice_read A attrs"] by simp
  moreover have "newer A nil_slice" by (simp add: newer_def nil_slice_def)
  ultimately have "grown {} A B \<and> slice_ok B out \<and> slice_read B out = filterValidAttrs (slice_read A attrs)"
    using heap_valid_loop [OF assms(1) [unfolded heap_filterValidAttrs_def] _ grown_refl ok_nil _ assms(2)]
    by (simp add: atLeast_upt)
  then show "grown {} A B" "slice_ok B out" "slice_read B out = filterValidAttrs (slice_read A attrs)" by blast+
qed

text \<open>\<open>append(slices.Clip(h.ops), op)\<close>, the step every \<open>derive\<close> ends in.\<close>

definition hold :: "(nat \<Rightarrow> nat) \<Rightarrow> op_store \<Rightarrow> slice \<Rightarrow> heap_op \<Rightarrow> op_store \<times> slice" where
  "hold spare st ops op =
     (let (A, ops) = slice_append (spare (p_len ops)) (HoldAttrs nil_slice) (os_ops st) (Clip ops) op
      in (st\<lparr>os_ops := A\<rparr>, ops))"

text \<open>\<open>attrs: slices.Clone(attrs)\<close> of a new held call.\<close>

definition hold_clone :: "(nat \<Rightarrow> nat) \<Rightarrow> op_store \<Rightarrow> slice \<Rightarrow> slice \<Rightarrow> op_store \<times> slice" where
  "hold_clone spare st ops attrs =
     (let (A, c) = Clone (spare (p_len attrs)) zero_attr (os_attrs st) attrs
      in hold spare (st\<lparr>os_attrs := A\<rparr>) ops (HoldAttrs c))"

text \<open>
  A handler's held calls are safe when the arrays they refer to exist and are not in \<open>owned\<close>, the arrays callers
  may write to.
\<close>

fun op_ok :: "nat set \<Rightarrow> attr arrays \<Rightarrow> heap_op \<Rightarrow> bool" where
  "op_ok owned A (HoldAttrs p) = (slice_ok A p \<and> (p_cap p = 0 \<or> p_arr p \<notin> owned))"
| "op_ok owned A (HoldGroup g) = True"

definition held_ok :: "nat set \<Rightarrow> op_store \<Rightarrow> slice \<Rightarrow> bool" where
  "held_ok owned st s \<longleftrightarrow> slice_ok (os_ops st) s \<and> list_all (op_ok owned (os_attrs st)) (slice_read (os_ops st) s)"

definition st_grown :: "nat set \<Rightarrow> op_store \<Rightarrow> op_store \<Rightarrow> bool" where
  "st_grown owned st st' \<longleftrightarrow> grown owned (os_attrs st) (os_attrs st') \<and> grown {} (os_ops st) (os_ops st')"

definition owned_ok :: "nat set \<Rightarrow> op_store \<Rightarrow> bool" where
  "owned_ok owned st \<longleftrightarrow> owned \<subseteq> {..<length (os_attrs st)}"

lemma op_ok_grown: "op_ok owned A op \<Longrightarrow> grown owned A B \<Longrightarrow> op_ok owned B op"
  by (cases op) (auto intro: grown_ok)

lemma held_grown:
  assumes "held_ok owned st s" "st_grown owned st st'"
  shows "held_ok owned st' s" "read_ops st' s = read_ops st s"
proof -
  have r: "slice_read (os_ops st') s = slice_read (os_ops st) s" "slice_ok (os_ops st') s"
    using assms by (auto simp: held_ok_def st_grown_def intro: grown_read grown_ok)
  with assms show "held_ok owned st' s"
    by (auto simp: held_ok_def st_grown_def list_all_iff intro: op_ok_grown)
  have "read_op st' op = read_op st op" if "op \<in> set (slice_read (os_ops st) s)" for op
  proof -
    have "op_ok owned (os_attrs st) op" using that assms(1) by (simp add: held_ok_def list_all_iff)
    then show ?thesis
      by (cases op) (use assms(2) in \<open>auto simp: st_grown_def intro: grown_read\<close>)
  qed
  then show "read_ops st' s = read_ops st s" by (simp add: read_ops_def r)
qed

lemma hold:
  assumes "hold spare st s op = (st', s')" "held_ok owned st s" "op_ok owned (os_attrs st) op"
  shows "st_grown {} st st' \<and> held_ok owned st' s' \<and> read_ops st' s' = read_ops st s @ [read_op st op]"
proof -
  obtain A where a: "slice_alloc (spare (p_len s)) (HoldAttrs nil_slice) (slice_read (os_ops st) s @ [op]) (os_ops st) = (A, s')"
    "st' = st\<lparr>os_ops := A\<rparr>"
    using assms(1,2) by (auto simp: hold_def append_clipped held_ok_def split: prod.splits)
  have "read_op st' = read_op st"
  proof
    fix x show "read_op st' x = read_op st x" by (cases x) (simp_all add: a(2))
  qed
  with a assms(2,3) show ?thesis
    by (simp add: st_grown_def held_ok_def read_ops_def)
qed

lemma st_grown_trans: "st_grown W a b \<Longrightarrow> st_grown W b c \<Longrightarrow> st_grown W a c"
  unfolding st_grown_def by (elim conjE, intro conjI) (erule (1) grown_trans)+

lemma grown_mono: "grown {} A B \<Longrightarrow> grown W A B"
  by (simp add: grown_def)

lemma st_grown_mono: "st_grown {} st st' \<Longrightarrow> st_grown W st st'"
  unfolding st_grown_def by (elim conjE, intro conjI) (rule grown_mono)

lemma hold_clone:
  assumes "hold_clone spare st s attrs = (st', s')" "held_ok owned st s" "slice_ok (os_attrs st) attrs" "owned_ok owned st"
  shows "st_grown {} st st' \<and> held_ok owned st' s' \<and>
    read_ops st' s' = read_ops st s @ [HeldAttrs (slice_read (os_attrs st) attrs)]"
proof -
  obtain A c where c: "slice_alloc (spare (p_len attrs)) zero_attr (slice_read (os_attrs st) attrs) (os_attrs st) = (A, c)"
    "hold spare (st\<lparr>os_attrs := A\<rparr>) s (HoldAttrs c) = (st', s')"
    using assms(1) by (auto simp: hold_clone_def Clone_def split: prod.splits)
  have g: "st_grown {} st (st\<lparr>os_attrs := A\<rparr>)" using c(1) by (simp add: st_grown_def)
  note h = held_grown [OF assms(2) st_grown_mono [OF g]]
  have "op_ok owned A (HoldAttrs c)"
    using c(1) assms(4) by (auto simp: owned_ok_def slice_alloc_def slice_ok_def)
  with hold [OF c(2) h(1)] h(2) c(1) g show ?thesis by (auto intro: st_grown_trans)
qed


section \<open>Handlers and callers on one store\<close>

text \<open>
  A tree of handlers: each derivation makes a new one from an earlier one. Callers make slices, overwrite them whenever
  they like, and pass them (or parts of them) to \<open>WithAttrs\<close>. They can only reach arrays of their own. \<open>gh_log\<close>
  records the derivations with what the caller's slice held at the time of the call.
\<close>

record deriv_sys =
  dv_store :: op_store
  dv_handlers :: "slice list"
  dv_owned :: "nat list"
  gh_log :: "(nat \<times> held_op) list"

datatype deriv_event =
    CallerMakes "attr list" nat
  | CallerWrites nat nat attr
  | DeriveAttrs nat slice
  | DeriveGroup nat bytes

definition deriv_start :: deriv_sys where
  "deriv_start = \<lparr>dv_store = \<lparr>os_attrs = [], os_ops = []\<rparr>, dv_handlers = [nil_slice], dv_owned = [], gh_log = []\<rparr>"

fun deriv_apply ::
  "(op_store \<Rightarrow> slice \<Rightarrow> slice \<Rightarrow> op_store \<times> slice) \<Rightarrow> (op_store \<Rightarrow> slice \<Rightarrow> bytes \<Rightarrow> op_store \<times> slice) \<Rightarrow>
   deriv_event \<Rightarrow> deriv_sys \<Rightarrow> deriv_sys option" where
  "deriv_apply wa wg (CallerMakes as spare) d =
     (let (A, c) = slice_alloc spare zero_attr as (os_attrs (dv_store d))
      in Some (d\<lparr>dv_store := (dv_store d)\<lparr>os_attrs := A\<rparr>, dv_owned := p_arr c # dv_owned d\<rparr>))"
| "deriv_apply wa wg (CallerWrites i k a) d =
     (if i \<in> set (dv_owned d)
      then Some (d\<lparr>dv_store := (dv_store d)\<lparr>os_attrs := (os_attrs (dv_store d))[i := (os_attrs (dv_store d) ! i)[k := a]]\<rparr>\<rparr>)
      else None)"
| "deriv_apply wa wg (DeriveAttrs j attrs) d =
     (if j < length (dv_handlers d) \<and> slice_ok (os_attrs (dv_store d)) attrs \<and> (p_cap attrs = 0 \<or> p_arr attrs \<in> set (dv_owned d))
      then (let (st, s) = wa (dv_store d) (dv_handlers d ! j) attrs
            in Some (d\<lparr>dv_store := st, dv_handlers := dv_handlers d @ [s],
                       gh_log := gh_log d @ [(j, HeldAttrs (slice_read (os_attrs (dv_store d)) attrs))]\<rparr>))
      else None)"
| "deriv_apply wa wg (DeriveGroup j g) d =
     (if j < length (dv_handlers d)
      then (let (st, s) = wg (dv_store d) (dv_handlers d ! j) g
            in Some (d\<lparr>dv_store := st, dv_handlers := dv_handlers d @ [s], gh_log := gh_log d @ [(j, HeldGroup g)]\<rparr>))
      else None)"

fun deriv_exec where
  "deriv_exec wa wg [] d = Some d"
| "deriv_exec wa wg (ev # evs) d =
     (case deriv_apply wa wg ev d of None \<Rightarrow> None | Some d' \<Rightarrow> deriv_exec wa wg evs d')"

text \<open>The same derivations in the list model, where no two handlers share anything.\<close>

definition derived_handlers ::
  "('h \<Rightarrow> attr list \<Rightarrow> 'h) \<Rightarrow> ('h \<Rightarrow> bytes \<Rightarrow> 'h) \<Rightarrow> 'h \<Rightarrow> (nat \<times> held_op) list \<Rightarrow> 'h list" where
  "derived_handlers wa wg h log = foldl (\<lambda>hs (j, op). hs @ [apply_op wa wg (hs ! j) op]) [h] log"

lemma derived_handlers_simps [simp]:
  "derived_handlers wa wg h [] = [h]"
  "derived_handlers wa wg h (log @ [(j, op)]) =
     derived_handlers wa wg h log @ [apply_op wa wg (derived_handlers wa wg h log ! j) op]"
  by (simp_all add: derived_handlers_def)

section \<open>Interface: a handler that holds its derivations on the store\<close>

text \<open>
  \<open>heap_wa\<close> and \<open>heap_wg\<close> implement \<open>wa\<close> and \<open>wg\<close> of the list model: they write to no array that existed before,
  refer to no array of a caller, and hold what the list model holds.
\<close>

locale held_store =
  fixes heap_wa :: "op_store \<Rightarrow> slice \<Rightarrow> slice \<Rightarrow> op_store \<times> slice"
    and heap_wg :: "op_store \<Rightarrow> slice \<Rightarrow> bytes \<Rightarrow> op_store \<times> slice"
    and ops :: "'h \<Rightarrow> held_op list"
    and ok :: "'h \<Rightarrow> bool"
    and wa :: "'h \<Rightarrow> attr list \<Rightarrow> 'h"
    and wg :: "'h \<Rightarrow> bytes \<Rightarrow> 'h"
  assumes heap_wa: "heap_wa st s attrs = (st', s') \<Longrightarrow> held_ok owned st s \<Longrightarrow> slice_ok (os_attrs st) attrs \<Longrightarrow>
      owned_ok owned st \<Longrightarrow> ok h \<Longrightarrow> read_ops st s = ops h \<Longrightarrow>
      st_grown {} st st' \<and> held_ok owned st' s' \<and> read_ops st' s' = ops (wa h (slice_read (os_attrs st) attrs))"
    and heap_wg: "heap_wg st s g = (st', s') \<Longrightarrow> held_ok owned st s \<Longrightarrow> owned_ok owned st \<Longrightarrow> ok h \<Longrightarrow>
      read_ops st s = ops h \<Longrightarrow>
      st_grown {} st st' \<and> held_ok owned st' s' \<and> read_ops st' s' = ops (wg h g)"
    and ok_wa: "ok h \<Longrightarrow> ok (wa h as)"
    and ok_wg: "ok h \<Longrightarrow> ok (wg h g)"
begin

definition deriv_inv :: "'h \<Rightarrow> deriv_sys \<Rightarrow> bool" where
  "deriv_inv h d \<longleftrightarrow>
     owned_ok (set (dv_owned d)) (dv_store d) \<and>
     list_all (held_ok (set (dv_owned d)) (dv_store d)) (dv_handlers d) \<and>
     list_all ok (derived_handlers wa wg h (gh_log d)) \<and>
     map (read_ops (dv_store d)) (dv_handlers d) = map ops (derived_handlers wa wg h (gh_log d))"

lemma deriv_inv_start: "ok h \<Longrightarrow> ops h = [] \<Longrightarrow> deriv_inv h deriv_start"
  by (simp add: deriv_inv_def deriv_start_def owned_ok_def held_ok_def read_ops_def)

text \<open>A change of the store by a caller, and a new handler.\<close>

lemma caller_step:
  assumes "deriv_inv h d" "st_grown (set (dv_owned d)) (dv_store d) st" "owned_ok (set owned) st"
    and "\<And>s. held_ok (set (dv_owned d)) st s \<Longrightarrow> s \<in> set (dv_handlers d) \<Longrightarrow> held_ok (set owned) st s"
  shows "deriv_inv h (d\<lparr>dv_store := st, dv_owned := owned\<rparr>)"
proof -
  have "held_ok (set (dv_owned d)) st s \<and> read_ops st s = read_ops (dv_store d) s" if "s \<in> set (dv_handlers d)" for s
    using assms(1,2) that held_grown [of "set (dv_owned d)" "dv_store d" s st]
    by (auto simp: deriv_inv_def list_all_iff)
  with assms(1,3,4) show ?thesis
    by (auto simp: deriv_inv_def list_all_iff cong: map_cong)
qed

lemma derive_step:
  assumes "deriv_inv h d" "st_grown {} (dv_store d) st" "held_ok (set (dv_owned d)) st s" "j < length (dv_handlers d)"
    and "read_ops st s = ops (apply_op wa wg (derived_handlers wa wg h (gh_log d) ! j) op)"
  shows "deriv_inv h (d\<lparr>dv_store := st, dv_handlers := dv_handlers d @ [s], gh_log := gh_log d @ [(j, op)]\<rparr>)"
proof -
  have old: "held_ok (set (dv_owned d)) st s \<and> read_ops st s = read_ops (dv_store d) s" if "s \<in> set (dv_handlers d)" for s
    using assms(1,2) that held_grown [OF _ st_grown_mono, of "set (dv_owned d)" "dv_store d" s st]
    by (auto simp: deriv_inv_def list_all_iff)
  have len: "length (derived_handlers wa wg h (gh_log d)) = length (dv_handlers d)"
    using assms(1) by (auto simp: deriv_inv_def dest: map_eq_imp_length_eq)
  have "ok (derived_handlers wa wg h (gh_log d) ! j)"
    using assms(1,4) len by (auto simp: deriv_inv_def list_all_length)
  then have "ok (apply_op wa wg (derived_handlers wa wg h (gh_log d) ! j) op)"
    by (simp add: apply_op_def ok_wa ok_wg split: held_op.split)
  moreover have "owned_ok (set (dv_owned d)) st"
    using assms(1,2) by (auto simp: deriv_inv_def owned_ok_def st_grown_def grown_def)
  moreover have "map (read_ops st) (dv_handlers d) = map ops (derived_handlers wa wg h (gh_log d))"
  proof -
    have "map (read_ops st) (dv_handlers d) = map (read_ops (dv_store d)) (dv_handlers d)" using old by simp
    also have "\<dots> = map ops (derived_handlers wa wg h (gh_log d))" using assms(1) by (simp only: deriv_inv_def)
    finally show ?thesis .
  qed
  moreover have "list_all (held_ok (set (dv_owned d)) st) (dv_handlers d)"
    using old by (simp add: list_all_iff)
  ultimately show ?thesis
    using assms(1,3,5) by (simp add: deriv_inv_def)
qed

lemma deriv_apply_inv:
  assumes "deriv_apply heap_wa heap_wg ev d = Some d'" "deriv_inv h d"
  shows "deriv_inv h d'"
proof -
  have len: "length (derived_handlers wa wg h (gh_log d)) = length (dv_handlers d)"
    using assms(2) by (auto simp: deriv_inv_def dest: map_eq_imp_length_eq)
  have at: "held_ok (set (dv_owned d)) (dv_store d) (dv_handlers d ! j) \<and>
      ok (derived_handlers wa wg h (gh_log d) ! j) \<and>
      read_ops (dv_store d) (dv_handlers d ! j) = ops (derived_handlers wa wg h (gh_log d) ! j)"
    if "j < length (dv_handlers d)" for j
  proof -
    have "map (read_ops (dv_store d)) (dv_handlers d) ! j = map ops (derived_handlers wa wg h (gh_log d)) ! j"
      using assms(2) by (simp only: deriv_inv_def)
    then have "read_ops (dv_store d) (dv_handlers d ! j) = ops (derived_handlers wa wg h (gh_log d) ! j)"
      using that len by simp
    with assms(2) that len show ?thesis by (simp add: deriv_inv_def list_all_length)
  qed
  have owned: "owned_ok (set (dv_owned d)) (dv_store d)" using assms(2) by (simp add: deriv_inv_def)
  show ?thesis
  proof (cases ev)
    case (CallerMakes as spare)
    obtain A c where c: "slice_alloc spare zero_attr as (os_attrs (dv_store d)) = (A, c)"
      by (cases "slice_alloc spare zero_attr as (os_attrs (dv_store d))")
    let ?st = "(dv_store d)\<lparr>os_attrs := A\<rparr>"
    have arr: "p_arr c = length (os_attrs (dv_store d))" "length A = Suc (p_arr c)"
      using c by (auto simp: slice_alloc_def)
    have "held_ok (set (p_arr c # dv_owned d)) ?st s" if "s \<in> set (dv_handlers d)" for s
    proof -
      have "list_all (op_ok (set (dv_owned d)) (os_attrs (dv_store d))) (slice_read (os_ops (dv_store d)) s)"
        "slice_ok (os_ops (dv_store d)) s"
        using assms(2) that by (auto simp: deriv_inv_def list_all_iff held_ok_def)
      moreover have "op_ok (set (p_arr c # dv_owned d)) A op" if "op_ok (set (dv_owned d)) (os_attrs (dv_store d)) op" for op
        using that arr grown_ok [OF grown_alloc [OF c, of "{}"]]
        by (cases op) (auto simp: slice_ok_def split: if_splits)
      ultimately show ?thesis by (auto simp: held_ok_def list_all_iff)
    qed
    moreover have "d' = d\<lparr>dv_store := ?st, dv_owned := p_arr c # dv_owned d\<rparr>"
      using assms(1) c CallerMakes by simp
    moreover have "owned_ok (set (p_arr c # dv_owned d)) ?st"
      using owned arr by (auto simp: owned_ok_def)
    moreover have "st_grown (set (dv_owned d)) (dv_store d) ?st"
      using c by (simp add: st_grown_def)
    ultimately show ?thesis
      using caller_step [OF assms(2)] by metis
  next
    case (CallerWrites i k a)
    let ?st = "(dv_store d)\<lparr>os_attrs := (os_attrs (dv_store d))[i := (os_attrs (dv_store d) ! i)[k := a]]\<rparr>"
    have i: "i \<in> set (dv_owned d)" and d': "d' = d\<lparr>dv_store := ?st, dv_owned := dv_owned d\<rparr>"
      using assms(1) CallerWrites by (auto split: if_splits)
    show ?thesis
      unfolding d'
    proof (rule caller_step [OF assms(2)])
      show "st_grown (set (dv_owned d)) (dv_store d) ?st" using grown_write [OF i] by (simp add: st_grown_def)
      show "owned_ok (set (dv_owned d)) ?st" using owned by (simp add: owned_ok_def)
    qed simp
  next
    case (DeriveAttrs j attrs)
    then obtain st s where e: "j < length (dv_handlers d)" "slice_ok (os_attrs (dv_store d)) attrs"
      "heap_wa (dv_store d) (dv_handlers d ! j) attrs = (st, s)"
      "d' = d\<lparr>dv_store := st, dv_handlers := dv_handlers d @ [s],
         gh_log := gh_log d @ [(j, HeldAttrs (slice_read (os_attrs (dv_store d)) attrs))]\<rparr>"
      using assms(1) by (auto split: if_splits prod.splits)
    note h = heap_wa [OF e(3) _ e(2) owned, of "derived_handlers wa wg h (gh_log d) ! j"]
    from h at [OF e(1)] show ?thesis
      unfolding e(4) by (intro derive_step [OF assms(2) _ _ e(1)]) (auto simp: apply_op_def)
  next
    case (DeriveGroup j g)
    then obtain st s where e: "j < length (dv_handlers d)" "heap_wg (dv_store d) (dv_handlers d ! j) g = (st, s)"
      "d' = d\<lparr>dv_store := st, dv_handlers := dv_handlers d @ [s], gh_log := gh_log d @ [(j, HeldGroup g)]\<rparr>"
      using assms(1) by (auto split: if_splits prod.splits)
    note h = heap_wg [OF e(2) _ owned, of "derived_handlers wa wg h (gh_log d) ! j"]
    from h at [OF e(1)] show ?thesis
      unfolding e(3) by (intro derive_step [OF assms(2) _ _ e(1)]) (auto simp: apply_op_def)
  qed
qed

lemma deriv_exec_inv: "deriv_exec heap_wa heap_wg evs d = Some d' \<Longrightarrow> deriv_inv h d \<Longrightarrow> deriv_inv h d'"
  by (induction evs arbitrary: d) (auto split: option.splits dest: deriv_apply_inv)

lemma holds_the_list_model:
  "deriv_exec heap_wa heap_wg evs deriv_start = Some d \<Longrightarrow> ok h \<Longrightarrow> ops h = [] \<Longrightarrow>
   map (read_ops (dv_store d)) (dv_handlers d) = map ops (derived_handlers wa wg h (gh_log d))"
  using deriv_exec_inv [OF _ deriv_inv_start] by (simp add: deriv_inv_def)

end

end
