(* ===== verification/HeldSlices.thy ===== *)
theory HeldSlices
  imports Slices DedupHandler FilterHandler GlobalFieldsHandler ConsoleHandler
begin

text \<open>
  \<open>WithAttrs\<close> and \<open>WithGroup\<close> of the handlers that hold their derivations, on the store of theory \<open>Slices\<close>, with the
  copies the code makes: each implements its list model, so no handler ever sees what happens to its siblings,
  its descendants, or the slices its callers passed.
\<close>

section \<open>The deduplicating handler\<close>

definition heap_dedup_WithAttrs :: "(nat \<Rightarrow> nat) \<Rightarrow> op_store \<Rightarrow> slice \<Rightarrow> slice \<Rightarrow> op_store \<times> slice" where
  "heap_dedup_WithAttrs spare st ops attrs =
     (let (A, attrs) = heap_filterValidAttrs spare (os_attrs st) attrs; st = st\<lparr>os_attrs := A\<rparr>
      in if p_len attrs = 0 then (st, ops) else hold_clone spare st ops attrs)"

definition heap_dedup_WithGroup :: "(nat \<Rightarrow> nat) \<Rightarrow> op_store \<Rightarrow> slice \<Rightarrow> bytes \<Rightarrow> op_store \<times> slice" where
  "heap_dedup_WithGroup spare st ops name =
     (if name = [] then (st, ops) else hold spare st ops (HoldGroup name))"

lemma heap_dedup_WithAttrs:
  assumes "heap_dedup_WithAttrs spare st s attrs = (st', s')" "held_ok owned st s" "slice_ok (os_attrs st) attrs"
    "owned_ok owned st"
  shows "st_grown {} st st' \<and> held_ok owned st' s' \<and>
    read_ops st' s' = read_ops st s @
      (let as = filterValidAttrs (slice_read (os_attrs st) attrs) in if as = [] then [] else [HeldAttrs as])"
proof -
  obtain A v where v: "heap_filterValidAttrs spare (os_attrs st) attrs = (A, v)"
    by (cases "heap_filterValidAttrs spare (os_attrs st) attrs")
  note f = heap_filterValidAttrs [OF v assms(3)]
  let ?st = "st\<lparr>os_attrs := A\<rparr>"
  have g: "st_grown {} st ?st" using f(1) by (simp add: st_grown_def)
  note h = held_grown [OF assms(2) st_grown_mono [OF g]]
  have owned: "owned_ok owned ?st" using assms(4) f(1) by (auto simp: owned_ok_def grown_def)
  have empty: "p_len v = 0 \<longleftrightarrow> filterValidAttrs (slice_read (os_attrs st) attrs) = []"
    using slice_read_length [OF f(2)] f(3) by (metis length_0_conv)
  show ?thesis
  proof (cases "p_len v = 0")
    case True
    with assms(1) v have "st' = ?st" "s' = s" by (simp_all add: heap_dedup_WithAttrs_def)
    with g h True empty show ?thesis by (simp add: Let_def)
  next
    case False
    with assms(1) v have "hold_clone spare ?st s v = (st', s')" by (simp add: heap_dedup_WithAttrs_def)
    from hold_clone [OF this h(1) _ owned] f h g False empty show ?thesis
      by (auto simp: Let_def intro: st_grown_trans)
  qed
qed

lemma heap_dedup_WithGroup:
  assumes "heap_dedup_WithGroup spare st s g = (st', s')" "held_ok owned st s"
  shows "st_grown {} st st' \<and> held_ok owned st' s' \<and> read_ops st' s' = read_ops st s @ (if g = [] then [] else [HeldGroup g])"
proof (cases "g = []")
  case True
  with assms show ?thesis by (simp add: heap_dedup_WithGroup_def st_grown_def)
next
  case False
  with assms(1) have "hold spare st s (HoldGroup g) = (st', s')" by (simp add: heap_dedup_WithGroup_def)
  from hold [OF this assms(2)] False show ?thesis by simp
qed

interpretation dedup_store: held_store "heap_dedup_WithAttrs spare" "heap_dedup_WithGroup spare"
    dh_ops "\<lambda>h. True" DedupHandler_WithAttrs DedupHandler_WithGroup for spare
proof unfold_locales
  fix st s attrs st' s' owned and h :: "'a dedup_handler"
  assume "heap_dedup_WithAttrs spare st s attrs = (st', s')" "held_ok owned st s" "slice_ok (os_attrs st) attrs"
    "owned_ok owned st" "read_ops st s = dh_ops h"
  with heap_dedup_WithAttrs [of spare st s attrs st' s' owned]
  show "st_grown {} st st' \<and> held_ok owned st' s' \<and>
      read_ops st' s' = dh_ops (DedupHandler_WithAttrs h (slice_read (os_attrs st) attrs))"
    by (simp add: DedupHandler_WithAttrs_def dedup_derive_op_def Let_def split: if_splits)
next
  fix st s g st' s' owned and h :: "'a dedup_handler"
  assume "heap_dedup_WithGroup spare st s g = (st', s')" "held_ok owned st s" "read_ops st s = dh_ops h"
  with heap_dedup_WithGroup [of spare st s g st' s' owned]
  show "st_grown {} st st' \<and> held_ok owned st' s' \<and> read_ops st' s' = dh_ops (DedupHandler_WithGroup h g)"
    by (simp add: DedupHandler_WithGroup_def dedup_derive_op_def split: if_splits)
qed simp_all

section \<open>The filtering handler\<close>

text \<open>With rules; a handler without rules hands the derivation to the next one and holds nothing.\<close>

definition heap_filter_WithAttrs :: "(nat \<Rightarrow> nat) \<Rightarrow> op_store \<Rightarrow> slice \<Rightarrow> slice \<Rightarrow> op_store \<times> slice" where
  "heap_filter_WithAttrs spare st ops attrs = hold_clone spare st ops attrs"

definition heap_filter_WithGroup :: "(nat \<Rightarrow> nat) \<Rightarrow> op_store \<Rightarrow> slice \<Rightarrow> bytes \<Rightarrow> op_store \<times> slice" where
  "heap_filter_WithGroup spare st ops name = hold spare st ops (HoldGroup name)"

interpretation filter_store: held_store "heap_filter_WithAttrs spare" "heap_filter_WithGroup spare"
    fh_ops "\<lambda>h. fh_rules h \<noteq> []" "FilterHandler_WithAttrs wa" "FilterHandler_WithGroup wg" for spare wa wg
proof unfold_locales
  fix st s attrs st' s' owned and h :: "'a filter_handler"
  assume "heap_filter_WithAttrs spare st s attrs = (st', s')" "held_ok owned st s" "slice_ok (os_attrs st) attrs"
    "owned_ok owned st" "read_ops st s = fh_ops h" "fh_rules h \<noteq> []"
  with hold_clone [of spare st s attrs st' s' owned]
  show "st_grown {} st st' \<and> held_ok owned st' s' \<and>
      read_ops st' s' = fh_ops (FilterHandler_WithAttrs wa h (slice_read (os_attrs st) attrs))"
    by (simp add: heap_filter_WithAttrs_def FilterHandler_WithAttrs_def)
next
  fix st s g st' s' owned and h :: "'a filter_handler"
  assume "heap_filter_WithGroup spare st s g = (st', s')" "held_ok owned st s" "read_ops st s = fh_ops h" "fh_rules h \<noteq> []"
  with hold [of spare st s "HoldGroup g" st' s' owned]
  show "st_grown {} st st' \<and> held_ok owned st' s' \<and> read_ops st' s' = fh_ops (FilterHandler_WithGroup wg h g)"
    by (simp add: heap_filter_WithGroup_def FilterHandler_WithGroup_def)
qed (simp_all add: FilterHandler_WithAttrs_def FilterHandler_WithGroup_def)

section \<open>The global fields\<close>

text \<open>With fields, attrs are held from the first group on; before, the next handler takes them.\<close>

definition heap_global_WithAttrs :: "(nat \<Rightarrow> nat) \<Rightarrow> op_store \<Rightarrow> slice \<Rightarrow> slice \<Rightarrow> op_store \<times> slice" where
  "heap_global_WithAttrs spare st ops attrs =
     (let (A, attrs) = heap_filterValidAttrs spare (os_attrs st) attrs; st = st\<lparr>os_attrs := A\<rparr>
      in if p_len attrs = 0 then (st, ops)
         else if p_len ops = 0 then (st, nil_slice)
         else hold_clone spare st ops attrs)"

definition heap_global_WithGroup :: "(nat \<Rightarrow> nat) \<Rightarrow> op_store \<Rightarrow> slice \<Rightarrow> bytes \<Rightarrow> op_store \<times> slice" where
  "heap_global_WithGroup spare st ops name =
     (if name = [] then (st, ops) else hold spare st ops (HoldGroup name))"

lemma held_nil [simp]: "held_ok owned st nil_slice" "read_ops st nil_slice = []"
  by (simp_all add: held_ok_def read_ops_def)

lemma held_empty: "held_ok owned st s \<Longrightarrow> p_len s = 0 \<longleftrightarrow> read_ops st s = []"
proof -
  assume "held_ok owned st s"
  then have "length (read_ops st s) = p_len s" by (simp add: held_ok_def read_ops_def)
  then show ?thesis by auto
qed

lemma heap_global_is_dedup:
  "heap_global_WithGroup = heap_dedup_WithGroup"
  "p_len s \<noteq> 0 \<Longrightarrow> heap_global_WithAttrs spare st s attrs = heap_dedup_WithAttrs spare st s attrs"
  by (auto simp: fun_eq_iff heap_global_WithGroup_def heap_dedup_WithGroup_def heap_global_WithAttrs_def
      heap_dedup_WithAttrs_def Let_def split: prod.splits)

lemma heap_global_drops:
  assumes "heap_global_WithAttrs spare st s attrs = (st', s')" "p_len s = 0" "held_ok owned st s" "slice_ok (os_attrs st) attrs"
  shows "st_grown {} st st' \<and> held_ok owned st' s' \<and> read_ops st' s' = []"
proof -
  obtain A v where v: "heap_filterValidAttrs spare (os_attrs st) attrs = (A, v)"
    by (cases "heap_filterValidAttrs spare (os_attrs st) attrs")
  have g: "st_grown {} st (st\<lparr>os_attrs := A\<rparr>)"
    using heap_filterValidAttrs(1) [OF v assms(4)] by (simp add: st_grown_def)
  have "st' = st\<lparr>os_attrs := A\<rparr>" "s' = s \<or> s' = nil_slice"
    using assms(1,2) v by (auto simp: heap_global_WithAttrs_def Let_def split: if_splits)
  with g held_grown [OF assms(3) st_grown_mono [OF g]] held_empty [OF assms(3)] assms(2) show ?thesis by auto
qed

interpretation global_store: held_store "heap_global_WithAttrs spare" "heap_global_WithGroup spare"
    gh_ops "\<lambda>h. gh_fields h \<noteq> []" "GlobalFieldsHandler_WithAttrs wa" "GlobalFieldsHandler_WithGroup wg" for spare wa wg
proof unfold_locales
  fix st s attrs st' s' owned and h :: "'a global_fields_handler"
  assume a: "heap_global_WithAttrs spare st s attrs = (st', s')" "held_ok owned st s" "slice_ok (os_attrs st) attrs"
    "owned_ok owned st" "read_ops st s = gh_ops h"
  show "st_grown {} st st' \<and> held_ok owned st' s' \<and>
      read_ops st' s' = gh_ops (GlobalFieldsHandler_WithAttrs wa h (slice_read (os_attrs st) attrs))"
  proof (cases "p_len s = 0")
    case True
    with heap_global_drops [OF a(1) True a(2,3)] held_empty [OF a(2)] a(5) show ?thesis
      by (simp add: GlobalFieldsHandler_WithAttrs_def Let_def)
  next
    case False
    with a(1) have "heap_dedup_WithAttrs spare st s attrs = (st', s')" by (simp add: heap_global_is_dedup)
    from heap_dedup_WithAttrs [OF this a(2,3,4)] held_empty [OF a(2)] False a(5) show ?thesis
      by (simp add: GlobalFieldsHandler_WithAttrs_def Let_def split: if_splits)
  qed
next
  fix st s g st' s' owned and h :: "'a global_fields_handler"
  assume "heap_global_WithGroup spare st s g = (st', s')" "held_ok owned st s" "read_ops st s = gh_ops h" "gh_fields h \<noteq> []"
  with heap_dedup_WithGroup [of spare st s g st' s' owned]
  show "st_grown {} st st' \<and> held_ok owned st' s' \<and> read_ops st' s' = gh_ops (GlobalFieldsHandler_WithGroup wg h g)"
    by (simp add: heap_global_is_dedup GlobalFieldsHandler_WithGroup_def split: if_splits)
qed (simp_all add: GlobalFieldsHandler_WithAttrs_def GlobalFieldsHandler_WithGroup_def Let_def)

section \<open>The console handler\<close>

definition heap_console_WithAttrs :: "(nat \<Rightarrow> nat) \<Rightarrow> op_store \<Rightarrow> slice \<Rightarrow> slice \<Rightarrow> op_store \<times> slice" where
  "heap_console_WithAttrs spare st ops attrs =
     (let (A, attrs) = heap_filterValidAttrs spare (os_attrs st) attrs; st = st\<lparr>os_attrs := A\<rparr>
      in if p_len attrs = 0 then (st, ops) else hold_clone spare st ops attrs)"

definition heap_console_WithGroup :: "(nat \<Rightarrow> nat) \<Rightarrow> op_store \<Rightarrow> slice \<Rightarrow> bytes \<Rightarrow> op_store \<times> slice" where
  "heap_console_WithGroup spare st ops name =
     (if name = [] then (st, ops) else hold spare st ops (HoldGroup name))"

lemma heap_console_is_dedup:
  "heap_console_WithAttrs = heap_dedup_WithAttrs" "heap_console_WithGroup = heap_dedup_WithGroup"
  by (auto simp: fun_eq_iff heap_console_WithAttrs_def heap_dedup_WithAttrs_def heap_console_WithGroup_def
      heap_dedup_WithGroup_def)

interpretation console_store: held_store "heap_console_WithAttrs spare" "heap_console_WithGroup spare"
    co_ops "\<lambda>h. True" ConsoleHandler_WithAttrs ConsoleHandler_WithGroup for spare
proof unfold_locales
  fix st s attrs st' s' owned and h :: console_handler
  assume "heap_console_WithAttrs spare st s attrs = (st', s')" "held_ok owned st s" "slice_ok (os_attrs st) attrs"
    "owned_ok owned st" "read_ops st s = co_ops h"
  with heap_dedup_WithAttrs [of spare st s attrs st' s' owned]
  show "st_grown {} st st' \<and> held_ok owned st' s' \<and>
      read_ops st' s' = co_ops (ConsoleHandler_WithAttrs h (slice_read (os_attrs st) attrs))"
    by (simp add: heap_console_is_dedup console_derive_defs Let_def split: if_splits)
next
  fix st s g st' s' owned and h :: console_handler
  assume "heap_console_WithGroup spare st s g = (st', s')" "held_ok owned st s" "read_ops st s = co_ops h"
  with heap_dedup_WithGroup [of spare st s g st' s' owned]
  show "st_grown {} st st' \<and> held_ok owned st' s' \<and> read_ops st' s' = co_ops (ConsoleHandler_WithGroup h g)"
    by (simp add: heap_console_is_dedup console_derive_defs split: if_splits)
qed simp_all

section \<open>No interference\<close>

text \<open>
  C6. Handlers derived from one another never interfere, and callers keep no hold on them: after any derivations in
  any order, with callers overwriting their slices at any time, every deduplicating handler still holds exactly the
  calls it was derived by, with the attrs as they were when the call was made.
\<close>

theorem derivations_do_not_interfere:
  assumes "deriv_exec (heap_dedup_WithAttrs spare) (heap_dedup_WithGroup spare) evs deriv_start = Some d"
  shows "map (read_ops (dv_store d)) (dv_handlers d) =
    map dh_ops (derived_handlers DedupHandler_WithAttrs DedupHandler_WithGroup (NewDedupHandler n pinned reserved) (gh_log d))"
  by (rule dedup_store.holds_the_list_model [OF assms]) (simp_all add: NewDedupHandler_def)

text \<open>The same of the other handlers that hold derivations.\<close>

lemma filter_derivations_do_not_interfere:
  "deriv_exec (heap_filter_WithAttrs spare) (heap_filter_WithGroup spare) evs deriv_start = Some d \<Longrightarrow> rules \<noteq> [] \<Longrightarrow>
   map (read_ops (dv_store d)) (dv_handlers d) =
   map fh_ops (derived_handlers (FilterHandler_WithAttrs wa) (FilterHandler_WithGroup wg) (NewFilterHandlerWithMode n rules m) (gh_log d))"
  by (rule filter_store.holds_the_list_model) (simp_all add: NewFilterHandlerWithMode_def)

lemma global_derivations_do_not_interfere:
  "deriv_exec (heap_global_WithAttrs spare) (heap_global_WithGroup spare) evs deriv_start = Some d \<Longrightarrow>
   gh_fields h \<noteq> [] \<Longrightarrow> gh_ops h = [] \<Longrightarrow>
   map (read_ops (dv_store d)) (dv_handlers d) =
   map gh_ops (derived_handlers (GlobalFieldsHandler_WithAttrs wa) (GlobalFieldsHandler_WithGroup wg) h (gh_log d))"
  by (rule global_store.holds_the_list_model)

lemma console_derivations_do_not_interfere:
  "deriv_exec (heap_console_WithAttrs spare) (heap_console_WithGroup spare) evs deriv_start = Some d \<Longrightarrow> co_ops h = [] \<Longrightarrow>
   map (read_ops (dv_store d)) (dv_handlers d) =
   map co_ops (derived_handlers ConsoleHandler_WithAttrs ConsoleHandler_WithGroup h (gh_log d))"
  by (rule console_store.holds_the_list_model) simp_all

text \<open>
  Two siblings derived from a handler whose slice of calls has room for one more, and a caller who reuses the slice it
  passed.
\<close>

definition sibling_events :: "deriv_event list" where
  "sibling_events =
     [CallerMakes [String ''user'' ''ann''] 2, DeriveAttrs 0 \<lparr>p_arr = 0, p_off = 0, p_len = 1, p_cap = 3\<rparr>,
      DeriveGroup 1 ''http'', DeriveGroup 1 ''grpc'', CallerWrites 0 0 (String ''user'' ''bob''),
      DeriveAttrs 3 \<lparr>p_arr = 0, p_off = 0, p_len = 1, p_cap = 3\<rparr>]"

theorem derivations_do_not_interfere_witness:
  "\<exists>d. deriv_exec (heap_dedup_WithAttrs (\<lambda>n. 1)) (heap_dedup_WithGroup (\<lambda>n. 1)) sibling_events deriv_start = Some d \<and>
     map (read_ops (dv_store d)) (dv_handlers d) =
       [[], [HeldAttrs [String ''user'' ''ann'']], [HeldAttrs [String ''user'' ''ann''], HeldGroup ''http''],
        [HeldAttrs [String ''user'' ''ann''], HeldGroup ''grpc''],
        [HeldAttrs [String ''user'' ''ann''], HeldGroup ''grpc'', HeldAttrs [String ''user'' ''bob'']]]"
proof -
  obtain d where d: "deriv_exec (heap_dedup_WithAttrs (\<lambda>n. 1)) (heap_dedup_WithGroup (\<lambda>n. 1)) sibling_events deriv_start = Some d"
    and log: "gh_log d = [(0, HeldAttrs [String ''user'' ''ann'']), (1, HeldGroup ''http''), (1, HeldGroup ''grpc''),
      (3, HeldAttrs [String ''user'' ''bob''])]"
    by (simp add: sibling_events_def deriv_start_def slice_defs heap_dedup_WithAttrs_def heap_dedup_WithGroup_def
        heap_filterValidAttrs_def hold_def hold_clone_def String_def Let_def)
  from derivations_do_not_interfere [OF d, of "()" "[]" "[]"] d show ?thesis
    by (simp add: log derived_handlers_def apply_op_def NewDedupHandler_def DedupHandler_WithAttrs_def
        DedupHandler_WithGroup_def dedup_derive_op_def String_def)
qed

end
