(* ===== verification/RecordStore.thy ===== *)
theory RecordStore
  imports Slices
begin

text \<open>
  \<open>slog.Record\<close> as the standard library stores it, over the arrays of theory \<open>Slices\<close>: five attrs in the struct itself,
  the others in a slice whose backing array the copies of a record share. \<open>own_end\<close> says that nobody else writes
  behind the end of a record's slice; then \<open>AddAttrs\<close> on the store is \<open>AddAttrs\<close> of theory \<open>Slog\<close>.
\<close>

section \<open>Records\<close>

definition nAttrsInline :: nat where
  "nAttrsInline = 5"

record rec_value =
  rv_time :: time
  rv_level :: int
  rv_message :: bytes
  rv_pc :: nat
  rv_front :: "attr list"
  rv_back :: slice

definition rec_read :: "attr arrays \<Rightarrow> rec_value \<Rightarrow> slog_record" where
  "rec_read A r = \<lparr>r_time = rv_time r, r_level = rv_level r, r_message = rv_message r, r_pc = rv_pc r,
     r_attrs = rv_front r @ slice_read A (rv_back r)\<rparr>"

lemma rec_read_sel [simp]:
  "r_time (rec_read A r) = rv_time r" "r_level (rec_read A r) = rv_level r"
  "r_message (rec_read A r) = rv_message r" "r_pc (rec_read A r) = rv_pc r"
  "r_attrs (rec_read A r) = rv_front r @ slice_read A (rv_back r)"
  by (simp_all add: rec_read_def)

text \<open>The slice is in use only when the places in the struct are taken.\<close>

definition rec_ok :: "attr arrays \<Rightarrow> rec_value \<Rightarrow> bool" where
  "rec_ok A r \<longleftrightarrow> slice_ok A (rv_back r) \<and> (if p_len (rv_back r) = 0 then True else nAttrsInline \<le> length (rv_front r))"

text \<open>\<open>NewRecord\<close>.\<close>

definition rec_New :: "time \<Rightarrow> int \<Rightarrow> bytes \<Rightarrow> nat \<Rightarrow> rec_value" where
  "rec_New t l m pc =
     \<lparr>rv_time = t, rv_level = l, rv_message = m, rv_pc = pc, rv_front = [], rv_back = nil_slice\<rparr>"

text \<open>\<open>Record.Clone\<close>.\<close>

definition rec_Clone :: "rec_value \<Rightarrow> rec_value" where
  "rec_Clone r = r\<lparr>rv_back := Clip (rv_back r)\<rparr>"

text \<open>
  \<open>Record.AddAttrs\<close>: the free places in the struct first; then a check that nobody has written behind the end of the
  slice; then \<open>slices.Grow\<close>, which copies the whole capacity when it has to make room, and the rest.
\<close>

fun fill_front :: "attr list \<Rightarrow> attr list \<Rightarrow> attr list \<times> attr list" where
  "fill_front front [] = (front, [])"
| "fill_front front (a # as) =
     (if length front < nAttrsInline
      then (if is_empty_group (Val a) then fill_front front as else fill_front (front @ [a]) as)
      else (front, a # as))"

definition bug_attr :: attr where
  "bug_attr = String ''!BUG'' ''AddAttrs unsafely called on copy of Record made without using Record.Clone''"

definition check_end :: "(nat \<Rightarrow> nat) \<Rightarrow> attr arrays \<Rightarrow> slice \<Rightarrow> attr arrays \<times> slice" where
  "check_end spare A s =
     (if p_len s < p_cap s \<and> A ! p_arr s ! (p_off s + p_len s) \<noteq> zero_attr
      then slice_append (spare (p_len s)) zero_attr A (Clip s) bug_attr
      else (A, s))"

definition Grow :: "(nat \<Rightarrow> nat) \<Rightarrow> attr arrays \<Rightarrow> slice \<Rightarrow> nat \<Rightarrow> attr arrays \<times> slice" where
  "Grow spare A s n =
     (if n \<le> p_cap s - p_len s then (A, s)
      else (let (A, t) = slice_alloc (n - (p_cap s - p_len s) + spare (p_len s)) zero_attr
                           (slice_read A (s\<lparr>p_len := p_cap s\<rparr>)) A
            in (A, t\<lparr>p_len := p_len s\<rparr>)))"

fun append_nonempty :: "(nat \<Rightarrow> nat) \<Rightarrow> attr arrays \<Rightarrow> slice \<Rightarrow> attr list \<Rightarrow> attr arrays \<times> slice" where
  "append_nonempty spare A s [] = (A, s)"
| "append_nonempty spare A s (a # as) =
     (if is_empty_group (Val a) then append_nonempty spare A s as
      else (let (A, s) = slice_append (spare (p_len s)) zero_attr A s a in append_nonempty spare A s as))"

definition rec_AddAttrs :: "(nat \<Rightarrow> nat) \<Rightarrow> attr arrays \<Rightarrow> rec_value \<Rightarrow> attr list \<Rightarrow> attr arrays \<times> rec_value" where
  "rec_AddAttrs spare A r attrs =
     (let (front, rest) = fill_front (rv_front r) attrs;
          (A, back) = check_end spare A (rv_back r);
          (A, back) = Grow spare A back (length (filter nonempty_attr rest));
          (A, back) = append_nonempty spare A back rest
      in (A, r\<lparr>rv_front := front, rv_back := back\<rparr>))"

lemma fill_front:
  "fill_front front attrs = (front', rest) \<Longrightarrow>
   front' @ filter nonempty_attr rest = front @ filter nonempty_attr attrs"
  by (induction front attrs arbitrary: front' rest rule: fill_front.induct) (auto split: if_splits)

section \<open>A record nobody else writes behind\<close>

text \<open>The slice's array is newer than \<open>A0\<close>, or there is no room behind its end; behind the end are zero values.\<close>

definition own_end :: "attr arrays \<Rightarrow> attr arrays \<Rightarrow> slice \<Rightarrow> bool" where
  "own_end A0 A s \<longleftrightarrow> slice_ok A s \<and>
     (p_len s < p_cap s \<longrightarrow> length A0 \<le> p_arr s \<and>
        (\<forall>i. p_len s \<le> i \<longrightarrow> i < p_cap s \<longrightarrow> A ! p_arr s ! (p_off s + i) = zero_attr))"

lemma own_end_Clip: "slice_ok A s \<Longrightarrow> own_end A0 A (Clip s)"
  by (auto simp: own_end_def slice_ok_def Clip_def split: if_splits)

lemma check_end_own: "own_end A0 A s \<Longrightarrow> check_end spare A s = (A, s)"
  by (auto simp: check_end_def own_end_def)

lemma append_own:
  assumes "slice_append spare zero_attr A s x = (B, s')" "grown W A0 A" "own_end A0 A s"
  shows "grown W A0 B" "own_end A0 B s'" "slice_read B s' = slice_read A s @ [x]"
proof -
  have "grown W A0 B \<and> own_end A0 B s' \<and> slice_read B s' = slice_read A s @ [x]"
  proof (cases "p_len s < p_cap s")
    case True
    then have n: "newer A0 s" "slice_ok A s" using assms(3) by (simp_all add: own_end_def newer_def)
    have s': "s' = s\<lparr>p_len := Suc (p_len s)\<rparr>" "B = A[p_arr s := (A ! p_arr s)[p_off s + p_len s := x]]"
      using True assms(1) by (simp_all add: slice_append_def)
    have arr: "p_arr s < length A" using n(2) True by (simp add: slice_ok_def split: if_splits)
    have "own_end A0 B s'"
      using append_newer(2) [OF assms(1,2) n(2,1)] assms(3) arr True
      by (auto simp: own_end_def s' nth_list_update)
    with append_newer [OF assms(1,2) n(2,1)] show ?thesis by simp
  next
    case False
    then have a: "slice_alloc spare zero_attr (slice_read A s @ [x]) A = (B, s')"
      using assms(1) by (simp add: slice_append_def)
    have "length A0 \<le> length A" using assms(2) by (simp add: grown_def)
    then have "own_end A0 B s'" using a by (auto simp: own_end_def slice_defs nth_append)
    with a grown_trans [OF assms(2) grown_alloc [OF a]] show ?thesis by simp
  qed
  then show "grown W A0 B" "own_end A0 B s'" "slice_read B s' = slice_read A s @ [x]" by blast+
qed

lemma append_nonempty_own:
  assumes "append_nonempty spare A s as = (B, s')" "grown W A0 A" "own_end A0 A s"
  shows "grown W A0 B \<and> own_end A0 B s' \<and> slice_read B s' = slice_read A s @ filter nonempty_attr as"
  using assms
proof (induction as arbitrary: A s)
  case (Cons a as)
  show ?case
  proof (cases "is_empty_group (Val a)")
    case True
    with Cons show ?thesis by simp
  next
    case False
    obtain A1 s1 where s: "slice_append (spare (p_len s)) zero_attr A s a = (A1, s1)"
      by (cases "slice_append (spare (p_len s)) zero_attr A s a")
    note p = append_own [OF s Cons.prems(2,3)]
    have "append_nonempty spare A1 s1 as = (B, s')" using Cons.prems(1) False s by simp
    from Cons.IH [OF this p(1,2)] p(3) False show ?thesis by simp
  qed
qed simp

lemma Grow_own:
  assumes "Grow spare A s n = (B, s')" "grown W A0 A" "own_end A0 A s"
  shows "grown W A0 B \<and> own_end A0 B s' \<and> slice_read B s' = slice_read A s"
proof (cases "n \<le> p_cap s - p_len s")
  case True
  with assms show ?thesis by (simp add: Grow_def)
next
  case False
  let ?all = "slice_read A (s\<lparr>p_len := p_cap s\<rparr>)"
  obtain t where a: "slice_alloc (n - (p_cap s - p_len s) + spare (p_len s)) zero_attr ?all A = (B, t)"
    and s': "s' = t\<lparr>p_len := p_len s\<rparr>"
    using assms(1) False by (auto simp: Grow_def split: prod.splits)
  have ok: "slice_ok A s" using assms(3) by (simp add: own_end_def)
  then have len: "length ?all = p_cap s" by (auto simp: slice_defs)
  have le: "length A0 \<le> length A" using assms(2) by (simp add: grown_def)
  have zero: "?all ! i = zero_attr" if "p_len s \<le> i" "i < p_cap s" for i
    using that ok assms(3) by (auto simp: own_end_def slice_defs split: if_splits)
  have "own_end A0 B s'"
    using a le ok zero len by (auto simp: own_end_def s' slice_defs nth_append)
  moreover have "take (p_len s) ?all = slice_read A s"
    using ok by (auto simp: slice_defs min_def)
  then have "slice_read B s' = slice_read A s"
    using a ok len by (auto simp: s' slice_alloc_def slice_read_def slice_ok_def)
  ultimately show ?thesis using grown_trans [OF assms(2) grown_alloc [OF a]] by simp
qed

definition owned :: "attr arrays \<Rightarrow> attr arrays \<Rightarrow> rec_value \<Rightarrow> bool" where
  "owned A0 A r \<longleftrightarrow> rec_ok A r \<and> own_end A0 A (rv_back r)"

lemma owned_New [simp]: "owned A0 A (rec_New t l m pc)"
  by (simp add: owned_def rec_ok_def rec_New_def own_end_def) (simp add: nil_slice_def)

lemma rec_read_New [simp]: "rec_read A (rec_New t l m pc) = NewRecord t l m pc"
  by (simp add: rec_read_def rec_New_def NewRecord_def)

lemma owned_Clone: "rec_ok A r \<Longrightarrow> owned A0 A (rec_Clone r)"
  by (auto simp: owned_def rec_ok_def rec_Clone_def intro: own_end_Clip)
     (auto simp: slice_defs)

lemma rec_read_Clone [simp]: "rec_ok A r \<Longrightarrow> rec_read A (rec_Clone r) = rec_read A r"
  by (simp add: rec_read_def rec_Clone_def rec_ok_def)

lemma owned_ok: "owned A0 A r \<Longrightarrow> rec_ok A r"
  by (simp add: owned_def)

lemma grown_rec: "grown {} A B \<Longrightarrow> rec_ok A r \<Longrightarrow> rec_ok B r \<and> rec_read B r = rec_read A r"
  by (auto simp: rec_ok_def rec_read_def grown_read intro: grown_ok)

lemma fill_front_full: "fill_front front attrs = (front', rest) \<Longrightarrow> rest = [] \<or> nAttrsInline \<le> length front'"
  by (induction front attrs arbitrary: front' rest rule: fill_front.induct) (auto split: if_splits)

lemma fill_front_skip: "nAttrsInline \<le> length front \<Longrightarrow> fill_front front attrs = (front, attrs)"
  by (cases attrs) auto

lemma rec_AddAttrs_own:
  assumes "rec_AddAttrs spare A r attrs = (B, r')" "grown {} A0 A" "owned A0 A r"
  shows "grown {} A0 B" "owned A0 B r'" "rec_read B r' = AddAttrs (rec_read A r) attrs"
proof -
  have own: "own_end A0 A (rv_back r)" and ok: "rec_ok A r" using assms(3) by (simp_all add: owned_def)
  obtain front rest where f: "fill_front (rv_front r) attrs = (front, rest)" by (cases "fill_front (rv_front r) attrs")
  obtain A1 b1 where g: "Grow spare A (rv_back r) (length (filter nonempty_attr rest)) = (A1, b1)"
    by (cases "Grow spare A (rv_back r) (length (filter nonempty_attr rest))")
  obtain A2 b2 where p: "append_nonempty spare A1 b1 rest = (A2, b2)" by (cases "append_nonempty spare A1 b1 rest")
  have r: "B = A2" "r' = r\<lparr>rv_front := front, rv_back := b2\<rparr>"
    using assms(1) f g p by (simp_all add: rec_AddAttrs_def check_end_own [OF own])
  note 1 = Grow_own [OF g assms(2) own]
  then have 2: "grown {} A0 A2" "own_end A0 A2 b2"
    "slice_read A2 b2 = slice_read A (rv_back r) @ filter nonempty_attr rest"
    using append_nonempty_own [OF p] by auto
  have len: "p_len b2 = p_len (rv_back r) + length (filter nonempty_attr rest)"
  proof -
    have "slice_ok A2 b2" "slice_ok A (rv_back r)" using 2(2) own by (simp_all add: own_end_def)
    with arg_cong [OF 2(3), of length] show ?thesis by simp
  qed
  have "front @ slice_read A (rv_back r) @ filter nonempty_attr rest =
      rv_front r @ slice_read A (rv_back r) @ filter nonempty_attr attrs \<and>
    (if p_len b2 = 0 then True else nAttrsInline \<le> length front)"
  proof (cases "p_len (rv_back r) = 0")
    case True
    then have "slice_read A (rv_back r) = []" by (simp add: slice_read_def)
    with True len fill_front [OF f] fill_front_full [OF f] show ?thesis by auto
  next
    case False
    then have "nAttrsInline \<le> length (rv_front r)" using ok by (simp add: rec_ok_def)
    with f show ?thesis by (simp add: fill_front_skip)
  qed
  then show "grown {} A0 B" "owned A0 B r'" "rec_read B r' = AddAttrs (rec_read A r) attrs"
    using 2 by (simp_all add: r owned_def rec_ok_def rec_read_def AddAttrs_def own_end_def)
qed

end
