(* ===== verification/ChainStore.thy ===== *)
theory ChainStore
  imports RecordStore ChainRun
begin

text \<open>
  A handler chain over records as they are stored. \<open>store_Handle\<close> is \<open>chain_Handle\<close> with the storage of every record
  explicit: which handlers forward the record they were given, which make a new one, which call \<open>Clone\<close> first and which
  call \<open>AddAttrs\<close> on the record itself. The records that terminal handlers and buffers keep stay in the world, and
  later calls write to the same arrays.

  The simulation shows that every run on the store is a run of \<open>ChainRun\<close>, where records are values, and that a kept
  record still reads as it did when it was handed over. It rests on the copies that \<open>MultiHandler\<close>, \<open>BufferedHandler\<close>,
  \<open>GlobalFieldsHandler\<close> and the trace handler make, and on the callers, who pass a record nobody else adds to: at the
  end, a record passed twice to a \<open>SourceHandler\<close>, which adds to it without a copy, shows what happens otherwise.
\<close>

section \<open>The handlers' own parts\<close>

text \<open>\<open>slog.NewRecord\<close> with the time, level, message and program counter of \<open>r\<close>, and \<open>AddAttrs\<close>.\<close>

definition store_fresh :: "(nat \<Rightarrow> nat) \<Rightarrow> attr arrays \<Rightarrow> rec_value \<Rightarrow> attr list \<Rightarrow> attr arrays \<times> rec_value" where
  "store_fresh sp A r attrs = rec_AddAttrs sp A (rec_New (rv_time r) (rv_level r) (rv_message r) (rv_pc r)) attrs"

definition store_Dedup ::
  "(nat \<Rightarrow> nat) \<Rightarrow> 'h dedup_handler \<Rightarrow> attr arrays \<Rightarrow> rec_value \<Rightarrow> attr arrays \<times> rec_value" where
  "store_Dedup sp h A r =
     (if dh_ops h = [] \<and> dh_pinned h = [] \<and> isClean h (rec_read A r) then (A, r)
      else store_fresh sp A r (materialize (dh_reserved h) (dedup_root h (r_attrs (rec_read A r)))))"

definition store_Filter ::
  "(nat \<Rightarrow> nat) \<Rightarrow> ('h \<Rightarrow> attr list \<Rightarrow> 'h) \<Rightarrow> ('h \<Rightarrow> bytes \<Rightarrow> 'h) \<Rightarrow> (bytes \<Rightarrow> bytes \<Rightarrow> bool) \<Rightarrow>
   'h filter_handler \<Rightarrow> attr arrays \<Rightarrow> rec_value \<Rightarrow> ('h \<times> attr arrays \<times> rec_value) option" where
  "store_Filter sp wa wg uf h A r =
     (if fh_rules h = [] then Some (fh_next h, A, r)
      else
        (case replay_ops wa wg uf (fh_rules h) (fh_mode h) (fh_next h) [] (fh_ops h) of
           None \<Rightarrow> None
         | Some (next, path) \<Rightarrow>
             (let (newAttrs, hit) = filterAttrs uf (fh_rules h) (fh_mode h) path (recordAttrs (rec_read A r)) in
              if hit then
                (if fh_mode h = ModeDrop then None else Some (next, store_fresh sp A r newAttrs))
              else Some (next, A, r))))"

definition store_Global ::
  "(nat \<Rightarrow> nat) \<Rightarrow> 'h global_fields_handler \<Rightarrow> attr arrays \<Rightarrow> rec_value \<Rightarrow> attr arrays \<times> rec_value" where
  "store_Global sp h A r =
     (if gh_fields h = [] then (A, r)
      else if gh_ops h \<noteq> []
      then (let attrs = group_attrs (rev (gh_ops h)) (recordAttrs (rec_read A r));
                (A, out) = store_fresh sp A r (gh_fields h)
            in rec_AddAttrs sp A out attrs)
      else (let collides = list_ex (\<lambda>a. snd (lookup h (Key a))) (r_attrs (rec_read A r))
            in if \<not> collides then rec_AddAttrs sp A (rec_Clone r) (gh_fields h)
               else store_fresh sp A r (merge h (recordAttrs (rec_read A r)))))"

text \<open>The source handlers add to the record itself.\<close>

definition store_Source :: "(nat \<Rightarrow> nat) \<Rightarrow> (nat \<Rightarrow> frame) \<Rightarrow> attr arrays \<Rightarrow> rec_value \<Rightarrow> attr arrays \<times> rec_value" where
  "store_Source sp frames A r =
     (if rv_pc r \<noteq> 0
      then (let f = frames (rv_pc r) in if fm_File f \<noteq> [] then rec_AddAttrs sp A r [source_attr f] else (A, r))
      else (A, r))"

definition store_Component :: "(nat \<Rightarrow> nat) \<Rightarrow> (nat \<Rightarrow> frame) \<Rightarrow> attr arrays \<Rightarrow> rec_value \<Rightarrow> attr arrays \<times> rec_value" where
  "store_Component sp frames A r =
     (if rv_pc r \<noteq> 0
      then (let f = frames (rv_pc r) in if fm_File f \<noteq> [] then rec_AddAttrs sp A r [component_attr f] else (A, r))
      else (A, r))"

text \<open>The trace handler adds to a clone.\<close>

definition store_Otel ::
  "(nat \<Rightarrow> nat) \<Rightarrow> (ctx \<Rightarrow> span_context) \<Rightarrow> 'h otel_handler \<Rightarrow> ctx \<Rightarrow> attr arrays \<Rightarrow> rec_value \<Rightarrow>
   attr arrays \<times> rec_value" where
  "store_Otel sp spans h ctx A r =
     (let sc = spans ctx
      in if \<not> sp_valid sc \<or> (oh_onlySampled h \<and> \<not> sp_sampled sc) then (A, r)
         else rec_AddAttrs sp A (rec_Clone r) (otel_attrs h sc))"

section \<open>The chain\<close>

text \<open>
  The world of \<open>Chain\<close> with the arrays, the records the terminal handlers were given (in the order of
  \<open>cw_delivered\<close>), and the record of each item of each buffer, by the item's number.
\<close>

record 't store_world =
  sw_arrays :: "attr arrays"
  sw_kept :: "rec_value list"
  sw_items :: "nat \<Rightarrow> nat \<Rightarrow> rec_value"
  sw_world :: "'t chain_world"

lemma store_Filter_nodes:
  "store_Filter sp (chain_WithAttrs E) (chain_WithGroup E) uf h A r = Some (n, A', r') \<Longrightarrow>
    chain_nodes n = chain_nodes (fh_next h)"
proof (cases "fh_rules h = []")
  case False
  assume "store_Filter sp (chain_WithAttrs E) (chain_WithGroup E) uf h A r = Some (n, A', r')"
  with False obtain path where
    "replay_ops (chain_WithAttrs E) (chain_WithGroup E) uf (fh_rules h) (fh_mode h) (fh_next h) [] (fh_ops h) = Some (n, path)"
    by (auto simp: store_Filter_def split: option.splits prod.splits if_splits)
  then show ?thesis by (rule replay_ops_inv) simp_all
qed (simp add: store_Filter_def)

text \<open>The fan-out passes a clone to every child that is enabled, and the buffer queues a clone.\<close>

definition store_Multi ::
  "('h \<Rightarrow> int \<Rightarrow> bool) \<Rightarrow> ('h \<Rightarrow> rec_value \<Rightarrow> 's \<Rightarrow> ('s \<times> 'e option) option) \<Rightarrow> 'h multi_handler \<Rightarrow> attr arrays \<Rightarrow>
   rec_value \<Rightarrow> 's \<Rightarrow> ('s \<times> (nat \<times> 'e) list) option" where
  "store_Multi enabled handle h A r s =
     MultiHandler_Handle enabled (\<lambda>child _ s. handle child (rec_Clone r) s) h (rec_read A r) s"

lemma store_Multi_cong [fundef_cong]:
  assumes "h = h'" "A = A'" "r = r'" "s = s'"
    and "\<And>n l. n \<in> set (mh_handlers h') \<Longrightarrow> en n l = en' n l"
    and "\<And>n r s. n \<in> set (mh_handlers h') \<Longrightarrow> ha n r s = ha' n r s"
  shows "store_Multi en ha h A r s = store_Multi en' ha' h' A' r' s'"
  unfolding store_Multi_def by (rule MultiHandler_Handle_cong) (use assms in auto)

definition store_Buffered :: "nat \<Rightarrow> 't chain \<Rightarrow> ctx \<Rightarrow> rec_value \<Rightarrow> 't store_world \<Rightarrow> 't store_world \<times> result" where
  "store_Buffered b n ctx r s =
     (let w = sw_world s;
          r = rec_Clone r;
          (core, res) = BufferedHandler_Handle \<lparr>bh_next = n\<rparr> ctx (rec_read (sw_arrays s) r) (cw_cores w b)
      in (s\<lparr>sw_items := (sw_items s)(b := (sw_items s b)(gh_fresh (cw_cores w b) := r)),
            sw_world := w\<lparr>cw_cores := (cw_cores w)(b := core)\<rparr>\<rparr>,
          res))"

function store_Handle ::
  "(nat \<Rightarrow> nat) \<Rightarrow> 't chain_env \<Rightarrow> (nat \<Rightarrow> sampling_env) \<Rightarrow> ctx \<Rightarrow> 't chain \<Rightarrow> rec_value \<Rightarrow> 't store_world \<Rightarrow>
   ('t store_world \<times> handler_error option) option" where
  "store_Handle sp E ck ctx (Sink t) r s =
     (let rec = rec_read (sw_arrays s) r; w = sw_world s
      in Some (s\<lparr>sw_kept := sw_kept s @ [r], sw_world := w\<lparr>cw_delivered := cw_delivered w @ [(t, rec)]\<rparr>\<rparr>,
               map_option SinkError (ce_sink_handle E t rec)))"
| "store_Handle sp E ck ctx (LevelGate n) r s =
     (case levelHandler_Handle (cw_level (sw_world s)) (level_view n) (rec_read (sw_arrays s) r) of
        None \<Rightarrow> Some (s, None)
      | Some _ \<Rightarrow> store_Handle sp E ck ctx n r s)"
| "store_Handle sp E ck ctx (Dedup p res ops n) r s =
     (let (A, r) = store_Dedup sp (dedup_view p res ops n) (sw_arrays s) r
      in store_Handle sp E ck ctx n r (s\<lparr>sw_arrays := A\<rparr>))"
| "store_Handle sp E ck ctx (Filter rules m ops n) r s =
     (case store_Filter sp (chain_WithAttrs E) (chain_WithGroup E) (ce_fold E) (filter_view rules m ops n) (sw_arrays s) r of
        None \<Rightarrow> Some (s, None)
      | Some (n, A, r) \<Rightarrow> store_Handle sp E ck ctx n r (s\<lparr>sw_arrays := A\<rparr>))"
| "store_Handle sp E ck ctx (GlobalFields fs ov ops n) r s =
     (let (A, r) = store_Global sp (global_view fs ov ops n) (sw_arrays s) r
      in store_Handle sp E ck ctx n r (s\<lparr>sw_arrays := A\<rparr>))"
| "store_Handle sp E ck ctx (Source n) r s =
     (let (A, r) = store_Source sp (ce_frames E) (sw_arrays s) r
      in store_Handle sp E ck ctx n r (s\<lparr>sw_arrays := A\<rparr>))"
| "store_Handle sp E ck ctx (Component n) r s =
     (let (A, r) = store_Component sp (ce_frames E) (sw_arrays s) r
      in store_Handle sp E ck ctx n r (s\<lparr>sw_arrays := A\<rparr>))"
| "store_Handle sp E ck ctx (Sampling k i l p kf n) r s =
     (let w = sw_world s in
      case SamplingHandler_Handle (sampling_view i l p kf n) (ck k) (cw_sampling w k) (rec_read (sw_arrays s) r) of
        None \<Rightarrow> None
      | Some (st, out) \<Rightarrow>
          (let s = s\<lparr>sw_world := w\<lparr>cw_sampling := (cw_sampling w)(k := st)\<rparr>\<rparr>
           in case out of None \<Rightarrow> Some (s, None) | Some _ \<Rightarrow> store_Handle sp E ck ctx n r s))"
| "store_Handle sp E ck ctx (Counting c n) r s =
     (let w = sw_world s;
          cs = snd (prom_Handle \<lparr>pr_next = n, pr_counter = c\<rparr> (rec_read (sw_arrays s) r) (cw_counters w))
      in store_Handle sp E ck ctx n r (s\<lparr>sw_world := w\<lparr>cw_counters := cs\<rparr>\<rparr>))"
| "store_Handle sp E ck ctx (Buffered b n) r s =
     (let (s, res) = store_Buffered b n ctx r s in Some (s, map_option BufferError res))"
| "store_Handle sp E ck ctx (Hook f n) r s =
     (case HookHandler_Handle \<lparr>hk_next = n, hk_hook = f\<rparr> ctx (rec_read (sw_arrays s) r) of
        None \<Rightarrow> Some (s, None)
      | Some (_, ctx, _) \<Rightarrow> store_Handle sp E ck ctx n r s)"
| "store_Handle sp E ck ctx (Otel tk sk tf g os n) r s =
     (let (A, r) = store_Otel sp (ce_span E) (otel_view tk sk tf g os n) ctx (sw_arrays s) r
      in store_Handle sp E ck ctx n r (s\<lparr>sw_arrays := A\<rparr>))"
| "store_Handle sp E ck ctx (Multi cs) r s =
     (case store_Multi (\<lambda>n l. chain_Enabled E (cw_level (sw_world s)) n l) (\<lambda>n r s. store_Handle sp E ck ctx n r s)
             \<lparr>mh_handlers = cs\<rparr> (sw_arrays s) r s of
        None \<Rightarrow> None
      | Some (s, errs) \<Rightarrow> Some (s, multi_result errs))"
  by pat_completeness auto
termination
  by (relation "measure (\<lambda>(sp, E, ck, ctx, c, r, s). chain_nodes c)")
     (auto dest: store_Filter_nodes chain_nodes_member)

section \<open>What a handler may rely on\<close>

text \<open>\<open>r\<close> stores \<open>rc\<close>, and nobody who held something at \<open>A0\<close> writes behind its end.\<close>

definition stores :: "attr arrays \<Rightarrow> attr arrays \<Rightarrow> rec_value \<Rightarrow> slog_record \<Rightarrow> bool" where
  "stores A0 A r rc \<longleftrightarrow> grown {} A0 A \<and> owned A0 A r \<and> rec_read A r = rc"

lemma stores_AddAttrs:
  "stores A0 A r rc \<Longrightarrow> rec_AddAttrs sp A r attrs = (B, r') \<Longrightarrow> stores A0 B r' (AddAttrs rc attrs)"
  using rec_AddAttrs_own [of sp A r attrs B r' A0] by (auto simp: stores_def)

lemma stores_Clone: "stores A0 A r rc \<Longrightarrow> stores A0 A (rec_Clone r) rc"
  using owned_ok [of A0 A r] by (auto simp: stores_def owned_Clone)

lemma stores_fresh:
  assumes "stores A0 A r rc" "store_fresh sp A r attrs = (B, r')"
  shows "stores A0 B r' (fresh_record rc attrs)"
proof -
  have "stores A0 A (rec_New (rv_time r) (rv_level r) (rv_message r) (rv_pc r))
      (NewRecord (r_time rc) (r_level rc) (r_message rc) (r_pc rc))"
    using assms(1) by (auto simp: stores_def)
  then show ?thesis
    unfolding fresh_record_def by (rule stores_AddAttrs) (use assms(2) in \<open>simp add: store_fresh_def\<close>)
qed

lemma storesD: "stores A0 A r rc \<Longrightarrow> rec_read A r = rc" "stores A0 A r rc \<Longrightarrow> grown {} A0 A"
  "stores A0 A r rc \<Longrightarrow> rec_ok A r"
  by (simp_all add: stores_def owned_def)

lemma stores_grown:
  assumes "stores A0 A r rc" "grown {} A B"
  shows "stores A0 B r rc"
proof -
  have ok: "rec_ok A r" "own_end A0 A (rv_back r)" using assms(1) by (simp_all add: stores_def owned_def)
  have "own_end A0 B (rv_back r)"
    using ok(2) assms(2) grown_ok [OF assms(2)] by (auto simp: own_end_def slice_ok_def grown_def)
  then show ?thesis
    using assms grown_rec [OF assms(2) ok(1)] by (auto simp: stores_def owned_def intro: grown_trans)
qed

lemma store_Dedup_stores:
  assumes "stores A0 A r rc" "store_Dedup sp h A r = (B, r')"
  shows "stores A0 B r' (DedupHandler_Handle h rc)"
  using assms stores_fresh [OF assms(1)] storesD(1) [OF assms(1)]
  by (auto simp: store_Dedup_def DedupHandler_Handle_def split: if_splits)

lemma store_Filter_stores:
  assumes "stores A0 A r rc"
  shows "case store_Filter sp wa wg uf h A r of
      None \<Rightarrow> FilterHandler_Handle wa wg uf h rc = None
    | Some (n, B, r') \<Rightarrow> \<exists>rc'. FilterHandler_Handle wa wg uf h rc = Some (n, rc') \<and> stores A0 B r' rc'"
  using assms stores_fresh [OF assms] storesD(1) [OF assms]
  by (auto simp: store_Filter_def FilterHandler_Handle_def Let_def split: option.splits prod.splits)

lemma store_Global_stores:
  assumes "stores A0 A r rc" "store_Global sp h A r = (B, r')"
  shows "stores A0 B r' (GlobalFieldsHandler_Handle h rc)"
proof (cases "gh_fields h = [] \<or> gh_ops h = []")
  case True
  with assms stores_fresh [OF assms(1)] stores_AddAttrs [OF stores_Clone [OF assms(1)]] storesD(1) [OF assms(1)]
  show ?thesis
    by (auto simp: store_Global_def GlobalFieldsHandler_Handle_def fresh_record_def Let_def split: if_splits)
next
  case False
  obtain C out where f: "store_fresh sp A r (gh_fields h) = (C, out)" by (cases "store_fresh sp A r (gh_fields h)")
  have "rec_AddAttrs sp C out (group_attrs (rev (gh_ops h)) (recordAttrs rc)) = (B, r')"
    using False assms(2) f storesD(1) [OF assms(1)] by (simp add: store_Global_def)
  from stores_AddAttrs [OF stores_fresh [OF assms(1) f] this] False show ?thesis
    by (simp add: GlobalFieldsHandler_Handle_def handleGrouped_def fresh_record_def Let_def)
qed

lemma store_Source_stores:
  assumes "stores A0 A r rc" "store_Source sp frames A r = (B, r')"
  shows "\<exists>rc'. SourceHandler_Handle frames h rc = (so_next h, rc') \<and> stores A0 B r' rc'"
  using assms stores_AddAttrs [OF assms(1)] storesD(1) [OF assms(1)]
  by (auto simp: store_Source_def SourceHandler_Handle_def Let_def split: if_splits)

lemma store_Component_stores:
  assumes "stores A0 A r rc" "store_Component sp frames A r = (B, r')"
  shows "\<exists>rc'. ComponentHandler_Handle frames h rc = (ch_next h, rc') \<and> stores A0 B r' rc'"
  using assms stores_AddAttrs [OF assms(1)] storesD(1) [OF assms(1)]
  by (auto simp: store_Component_def ComponentHandler_Handle_def Let_def split: if_splits)

lemma store_Otel_stores:
  assumes "stores A0 A r rc" "store_Otel sp spans h ctx A r = (B, r')"
  shows "\<exists>rc'. otel_Handle spans h ctx rc = (oh_next h, rc') \<and> stores A0 B r' rc'"
  using assms stores_AddAttrs [OF stores_Clone [OF assms(1)]]
  by (auto simp: store_Otel_def otel_Handle_def Let_def split: if_splits)

section \<open>What the world keeps\<close>

text \<open>A queued record is a clone, so it has no room behind its end.\<close>

fun item_stored :: "attr arrays \<Rightarrow> 't store_world \<Rightarrow> nat \<Rightarrow> 't chain buffered_item \<Rightarrow> bool" where
  "item_stored A s k (RecordItem i ctx rc n) =
     (i < gh_fresh (cw_cores (sw_world s) k) \<and> rec_ok A (sw_items s k i) \<and>
      rec_Clone (sw_items s k i) = sw_items s k i \<and> rec_read A (sw_items s k i) = rc)"
| "item_stored A s k (Barrier b) = True"

definition keeps :: "attr arrays \<Rightarrow> 't store_world \<Rightarrow> bool" where
  "keeps A s \<longleftrightarrow> list_all (rec_ok A) (sw_kept s) \<and>
     map (rec_read A) (sw_kept s) = map snd (cw_delivered (sw_world s)) \<and>
     (\<forall>k. \<forall>item \<in> queued (sw_world s) k. item_stored A s k item)"

lemma item_stored_grown: "item_stored A s k item \<Longrightarrow> grown {} A B \<Longrightarrow> item_stored B s k item"
  using grown_rec by (cases item) force+

lemma keeps_grown:
  assumes "keeps A s" "grown {} A B"
  shows "keeps B s"
proof -
  have "rec_ok B r \<and> rec_read B r = rec_read A r" if "r \<in> set (sw_kept s)" for r
    using grown_rec [OF assms(2)] assms(1) that by (auto simp: keeps_def list_all_iff)
  then have "list_all (rec_ok B) (sw_kept s)" "map (rec_read B) (sw_kept s) = map (rec_read A) (sw_kept s)"
    by (auto simp: list_all_iff)
  with assms item_stored_grown show ?thesis unfolding keeps_def by metis
qed

definition simulates ::
  "attr arrays \<Rightarrow> ('t store_world \<times> 'e) option \<Rightarrow> ('t chain_world \<times> 'e) option \<Rightarrow> bool" where
  "simulates A0 x y \<longleftrightarrow>
     (case x of
        None \<Rightarrow> y = None
      | Some (s, e) \<Rightarrow> y = Some (sw_world s, e) \<and> grown {} A0 (sw_arrays s) \<and> keeps (sw_arrays s) s)"

lemma simulates_before:
  "simulates A x y \<Longrightarrow> grown {} A0 A \<Longrightarrow> simulates A0 x y"
  by (auto simp: simulates_def split: option.splits intro: grown_trans)

lemma keeps_cong:
  assumes "sw_kept s' = sw_kept s" "sw_items s' = sw_items s"
    and "cw_delivered (sw_world s') = cw_delivered (sw_world s)" "cw_cores (sw_world s') = cw_cores (sw_world s)"
  shows "keeps A s' = keeps A s"
proof -
  have "item_stored A s' k item = item_stored A s k item" for k item
    using assms by (cases item) simp_all
  then show ?thesis by (simp add: keeps_def queued_def assms)
qed

lemma keeps_simps [simp]:
  "keeps A (s\<lparr>sw_arrays := B\<rparr>) = keeps A s"
  "keeps A (s\<lparr>sw_world := (sw_world s)\<lparr>cw_sampling := st\<rparr>\<rparr>) = keeps A s"
  "keeps A (s\<lparr>sw_world := (sw_world s)\<lparr>cw_counters := cs\<rparr>\<rparr>) = keeps A s"
  "keeps A (s\<lparr>sw_world := (sw_world s)\<lparr>cw_level := l\<rparr>\<rparr>) = keeps A s"
  by (rule keeps_cong; simp)+

lemma keeps_sink:
  assumes "keeps A s" "rec_ok A r"
  shows "keeps A (s\<lparr>sw_kept := sw_kept s @ [r],
    sw_world := (sw_world s)\<lparr>cw_delivered := cw_delivered (sw_world s) @ [(t, rec_read A r)]\<rparr>\<rparr>)" (is "keeps A ?s")
proof -
  have "item_stored A ?s k item = item_stored A s k item" for k item by (cases item) simp_all
  with assms show ?thesis by (simp add: keeps_def queued_def)
qed

lemma BufferedHandler_Handle_fresh:
  "BufferedHandler_Handle h ctx r c = (c', res) \<Longrightarrow> gh_fresh c' = Suc (gh_fresh c)"
  by (auto simp: BufferedHandler_Handle_def send_def Let_def split: if_splits)

lemma keeps_buffer:
  assumes "keeps A s" "rec_ok A r"
    and "BufferedHandler_Handle \<lparr>bh_next = n\<rparr> ctx (rec_read A (rec_Clone r)) (cw_cores (sw_world s) b) = (core, res)"
  shows "keeps A (s\<lparr>sw_items := (sw_items s)(b := (sw_items s b)(gh_fresh (cw_cores (sw_world s) b) := rec_Clone r)),
    sw_world := (sw_world s)\<lparr>cw_cores := (cw_cores (sw_world s))(b := core)\<rparr>\<rparr>)" (is "keeps A ?s")
proof -
  note fresh = BufferedHandler_Handle_fresh [OF assms(3)]
  have clone: "rec_ok A (rec_Clone r)" "rec_Clone (rec_Clone r) = rec_Clone r"
    using owned_Clone [OF assms(2)] by (auto simp: owned_def rec_Clone_def Clip_def)
  have "item_stored A ?s k item" if "item \<in> queued (sw_world ?s) k" for k item
  proof (cases "item \<in> queued (sw_world s) k")
    case True
    then have "item_stored A s k item" using assms(1) by (auto simp: keeps_def)
    then show ?thesis using fresh by (cases item) auto
  next
    case False
    with that have "k = b" "item = RecordItem (gh_fresh (cw_cores (sw_world s) b)) ctx (rec_read A (rec_Clone r)) n"
      using BufferedHandler_Handle_queue [OF assms(3)] by (auto simp: queued_def split: if_splits)
    then show ?thesis using fresh clone by simp
  qed
  with assms(1) show ?thesis by (simp add: keeps_def)
qed

section \<open>The simulation\<close>

lemma multi_loop_simulates:
  assumes "stores A0 (sw_arrays s) r rc" "keeps (sw_arrays s) s"
    and "\<And>child t. child \<in> set hs \<Longrightarrow> stores (sw_arrays t) (sw_arrays t) (rec_Clone r) rc \<Longrightarrow> keeps (sw_arrays t) t \<Longrightarrow>
      simulates (sw_arrays t) (sh child t) (ch child (sw_world t))"
  shows "simulates A0 (multi_loop en (\<lambda>n _. sh n) rc i hs s errs) (multi_loop en (\<lambda>n _. ch n) rc i hs (sw_world s) errs)"
  using assms
proof (induction hs arbitrary: i s errs)
  case Nil
  then show ?case using storesD(2) by (auto simp: simulates_def)
next
  case (Cons child hs)
  show ?case
  proof (cases "en child (r_level rc)")
    case False
    then show ?thesis using Cons by simp
  next
    case True
    have r: "rec_ok (sw_arrays s) r" "rec_read (sw_arrays s) r = rc" using storesD [OF Cons.prems(1)] by auto
    then have "stores (sw_arrays s) (sw_arrays s) (rec_Clone r) rc" by (simp add: stores_def owned_Clone)
    then have sim: "simulates (sw_arrays s) (sh child s) (ch child (sw_world s))" using Cons.prems(2,3) by simp
    show ?thesis
    proof (cases "sh child s")
      case None
      with sim True show ?thesis by (simp add: simulates_def)
    next
      case (Some a)
      obtain t e where a: "a = (t, e)" by (cases a)
      have t: "ch child (sw_world s) = Some (sw_world t, e)" "grown {} (sw_arrays s) (sw_arrays t)" "keeps (sw_arrays t) t"
        using sim by (simp_all add: simulates_def Some a)
      have "stores A0 (sw_arrays t) r rc" by (rule stores_grown [OF Cons.prems(1) t(2)])
      from Cons.IH [OF this t(3) Cons.prems(3)] show ?thesis using True Some a t(1) by simp
    qed
  qed
qed

lemma simulates_stop: "stores A0 (sw_arrays s) r rc \<Longrightarrow> keeps A0 s \<Longrightarrow> simulates A0 (Some (s, e)) (Some (sw_world s, e))"
  using storesD(2) keeps_grown by (fastforce simp: simulates_def)

lemma store_Handle_simulates:
  assumes "stores A0 (sw_arrays s) r rc" "keeps A0 s"
  shows "simulates A0 (store_Handle sp E ck ctx c r s) (chain_Handle E ck ctx c rc (sw_world s))"
  using assms
proof (induction sp E ck ctx c r s arbitrary: A0 rc rule: store_Handle.induct)
  case (1 sp E ck ctx t r s)
  note d = storesD [OF 1(1)]
  have "keeps (sw_arrays s) s" by (rule keeps_grown [OF 1(2) d(2)])
  from keeps_sink [OF this d(3)] show ?case by (simp add: simulates_def d Let_def)
next
  case (2 sp E ck ctx n r s)
  show ?case
  proof (cases "r_level rc < cw_level (sw_world s)")
    case True
    then show ?thesis
      using simulates_stop [OF 2(2,3)] storesD(1) [OF 2(2)] by (simp add: levelHandler_Handle_def)
  next
    case False
    then have eq: "levelHandler_Handle (cw_level (sw_world s)) (level_view n) rc = Some (n, rc)"
      by (simp add: levelHandler_Handle_def)
    with 2(1) [OF _ 2(2,3)] storesD(1) [OF 2(2)] show ?thesis by simp
  qed
next
  case (3 sp E ck ctx p res ops n r s)
  obtain B r' where f: "store_Dedup sp (dedup_view p res ops n) (sw_arrays s) r = (B, r')"
    by (cases "store_Dedup sp (dedup_view p res ops n) (sw_arrays s) r")
  note 3(1) [OF f [symmetric] refl, of A0]
  with store_Dedup_stores [OF 3(2) f] 3(3) f show ?case by simp
next
  case (4 sp E ck ctx rules m ops n r s)
  let ?h = "store_Filter sp (chain_WithAttrs E) (chain_WithGroup E) (ce_fold E) (filter_view rules m ops n) (sw_arrays s) r"
  note link = store_Filter_stores [OF 4(2), where sp = sp and wa = "chain_WithAttrs E" and wg = "chain_WithGroup E"
    and uf = "ce_fold E" and h = "filter_view rules m ops n"]
  show ?case
  proof (cases ?h)
    case None
    with link simulates_stop [OF 4(2,3)] show ?thesis by simp
  next
    case (Some a)
    obtain n' B r' where a: "?h = Some (n', B, r')" using Some by (cases a) simp
    with link obtain rc' where "FilterHandler_Handle (chain_WithAttrs E) (chain_WithGroup E) (ce_fold E)
      (filter_view rules m ops n) rc = Some (n', rc')" "stores A0 B r' rc'" by auto
    with 4(1) [OF a refl refl] 4(3) a show ?thesis by simp
  qed
next
  case (5 sp E ck ctx fs ov ops n r s)
  obtain B r' where f: "store_Global sp (global_view fs ov ops n) (sw_arrays s) r = (B, r')"
    by (cases "store_Global sp (global_view fs ov ops n) (sw_arrays s) r")
  note 5(1) [OF f [symmetric] refl, of A0]
  with store_Global_stores [OF 5(2) f] 5(3) f show ?case by simp
next
  case (6 sp E ck ctx n r s)
  obtain B r' where f: "store_Source sp (ce_frames E) (sw_arrays s) r = (B, r')"
    by (cases "store_Source sp (ce_frames E) (sw_arrays s) r")
  note 6(1) [OF f [symmetric] refl, of A0]
  with store_Source_stores [OF 6(2) f, where h = "\<lparr>so_next = n\<rparr>"] 6(3) f show ?case by auto
next
  case (7 sp E ck ctx n r s)
  obtain B r' where f: "store_Component sp (ce_frames E) (sw_arrays s) r = (B, r')"
    by (cases "store_Component sp (ce_frames E) (sw_arrays s) r")
  note 7(1) [OF f [symmetric] refl, of A0]
  with store_Component_stores [OF 7(2) f, where h = "\<lparr>ch_next = n\<rparr>"] 7(3) f show ?case by auto
next
  case (8 sp E ck ctx k i l p kf n r s)
  note rd = storesD(1) [OF 8(2)]
  let ?h = "SamplingHandler_Handle (sampling_view i l p kf n) (ck k) (cw_sampling (sw_world s) k) rc"
  show ?case
  proof (cases ?h)
    case None
    then show ?thesis by (simp add: rd simulates_def)
  next
    case (Some a)
    obtain st out where a: "?h = Some (st, out)" using Some by (cases a) simp
    let ?s = "s\<lparr>sw_world := (sw_world s)\<lparr>cw_sampling := (cw_sampling (sw_world s))(k := st)\<rparr>\<rparr>"
    have s: "stores A0 (sw_arrays ?s) r rc" "keeps A0 ?s" using 8(2,3) by simp_all
    show ?thesis
    proof (cases out)
      case None
      with a simulates_stop [OF s] show ?thesis by (simp add: rd Let_def)
    next
      case (Some b)
      then have "out = Some (n, rc)" using SamplingHandler_Handle_next [of "sampling_view i l p kf n"] a by (cases b) fastforce
      with 8(1) [of "sw_world s" "(st, out)" st out ?s] s a rd show ?thesis by (simp add: Let_def)
    qed
  qed
next
  case (9 sp E ck ctx c n r s)
  note rd = storesD(1) [OF 9(2)]
  obtain n' rc' cs where a: "prom_Handle \<lparr>pr_next = n, pr_counter = c\<rparr> rc (cw_counters (sw_world s)) = ((n', rc'), cs)"
    by (metis surj_pair)
  then have "n' = n" "rc' = rc" using prom_Handle_next by fastforce+
  with a 9(1) [OF refl refl, of A0 rc] 9(2,3) show ?case by (simp add: rd)
next
  case (10 sp E ck ctx b n r s)
  note d = storesD [OF 10(1)]
  obtain core res where a: "BufferedHandler_Handle \<lparr>bh_next = n\<rparr> ctx rc (cw_cores (sw_world s) b) = (core, res)" by fastforce
  have "keeps (sw_arrays s) s" by (rule keeps_grown [OF 10(2) d(2)])
  from keeps_buffer [OF this d(3), of n ctx b core res] a d show ?case
    by (simp add: simulates_def store_Buffered_def Let_def)
next
  case (11 sp E ck ctx f n r s)
  note rd = storesD(1) [OF 11(2)]
  show ?case
  proof (cases "HookHandler_Handle \<lparr>hk_next = n, hk_hook = f\<rparr> ctx rc")
    case None
    with simulates_stop [OF 11(2,3)] show ?thesis by (simp add: rd)
  next
    case (Some a)
    then obtain ctx' where a: "HookHandler_Handle \<lparr>hk_next = n, hk_hook = f\<rparr> ctx rc = Some (n, ctx', rc)"
      using HookHandler_Handle_next by (cases a) fastforce
    with 11(1) [of _ n "(ctx', rc)" ctx' rc] 11(2,3) show ?thesis by (simp add: rd)
  qed
next
  case (12 sp E ck ctx tk sk tf g os n r s)
  obtain B r' where f: "store_Otel sp (ce_span E) (otel_view tk sk tf g os n) ctx (sw_arrays s) r = (B, r')"
    by (cases "store_Otel sp (ce_span E) (otel_view tk sk tf g os n) ctx (sw_arrays s) r")
  note 12(1) [OF f [symmetric] refl, of A0]
  with store_Otel_stores [OF 12(2) f] 12(3) f show ?case by auto
next
  case (13 sp E ck ctx cs r s)
  note d = storesD [OF 13(2)]
  have "simulates A0
    (multi_loop (\<lambda>n l. chain_Enabled E (cw_level (sw_world s)) n l) (\<lambda>n _. store_Handle sp E ck ctx n (rec_Clone r)) rc 0 cs s [])
    (multi_loop (\<lambda>n l. chain_Enabled E (cw_level (sw_world s)) n l) (\<lambda>n _. chain_Handle E ck ctx n rc) rc 0 cs (sw_world s) [])"
    by (rule multi_loop_simulates [OF 13(2) keeps_grown [OF 13(3) d(2)]]) (use 13(1) in simp)
  moreover have "multi_loop en (\<lambda>n r w. chain_Handle E ck ctx n r w) rc i cs w errs =
      multi_loop en (\<lambda>n _. chain_Handle E ck ctx n rc) rc i cs w errs" for en i w errs
    by (rule multi_loop_cong) simp_all
  ultimately show ?case
    by (auto simp: store_Multi_def MultiHandler_Handle_def d(1) simulates_def split: option.splits)
qed

section \<open>A running chain on the store\<close>

text \<open>
  The steps of \<open>chain_step\<close>, with records that are stored. A caller makes its record with \<open>NewRecord\<close> and \<open>AddAttrs\<close>,
  as \<open>SlogLogger\<close> does (\<open>call\<close>), or passes a \<open>Clone\<close> of one that somebody kept (\<open>pass_on\<close>), as a terminal handler that
  forwards to another chain must. The worker passes the record of the item on.
\<close>

inductive store_step :: "(nat \<Rightarrow> nat) \<Rightarrow> 't chain_env \<Rightarrow> 't chain \<Rightarrow> 't store_world \<Rightarrow> 't store_world \<Rightarrow> bool"
  for sp E rt where
  call: "rec_AddAttrs sp (sw_arrays s) (rec_New tm l m pc) attrs = (A, r) \<Longrightarrow>
    store_Handle sp E ck ctx (chain_derive E rt ops) r (s\<lparr>sw_arrays := A\<rparr>) = Some (s', err) \<Longrightarrow>
    store_step sp E rt s s'"
| pass_on: "r \<in> set (sw_kept s) \<Longrightarrow>
    store_Handle sp E ck ctx (chain_derive E rt ops) (rec_Clone r) s = Some (s', err) \<Longrightarrow>
    store_step sp E rt s s'"
| deliver: "take_item (cw_cores (sw_world s) k) = Some (RecordItem i ctx rc n, core) \<Longrightarrow>
    store_Handle sp E ck ctx n (sw_items s k i)
      (s\<lparr>sw_world := (sw_world s)\<lparr>cw_cores := (cw_cores (sw_world s))(k := core)\<rparr>\<rparr>) = Some (s', err) \<Longrightarrow>
    store_step sp E rt s
      (s'\<lparr>sw_world := (sw_world s')\<lparr>cw_cores := (cw_cores (sw_world s'))
         (k := finish_item (RecordItem i ctx rc n) (item_error err) (cw_cores (sw_world s') k))\<rparr>\<rparr>)"
| signal: "take_item (cw_cores (sw_world s) k) = Some (Barrier b, core) \<Longrightarrow>
    store_step sp E rt s
      (s\<lparr>sw_world := (sw_world s)\<lparr>cw_cores := (cw_cores (sw_world s))(k := finish_item (Barrier b) None core)\<rparr>\<rparr>)"
| set_level: "store_step sp E rt s (s\<lparr>sw_world := (sw_world s)\<lparr>cw_level := l\<rparr>\<rparr>)"

inductive store_reach :: "(nat \<Rightarrow> nat) \<Rightarrow> 't chain_env \<Rightarrow> 't chain \<Rightarrow> 't store_world \<Rightarrow> bool" for sp E rt where
  init: "fresh_world (sw_world s) \<Longrightarrow> sw_kept s = [] \<Longrightarrow> store_reach sp E rt s"
| step: "store_reach sp E rt s \<Longrightarrow> store_step sp E rt s s' \<Longrightarrow> store_reach sp E rt s'"

lemma take_item_same: "take_item c = Some (item, c') \<Longrightarrow> bc_queue c = item # bc_queue c' \<and> gh_fresh c' = gh_fresh c"
  by (auto simp: take_item_def split: list.splits)

lemma finish_item_same: "bc_queue (finish_item item res c) = bc_queue c \<and> gh_fresh (finish_item item res c) = gh_fresh c"
  by (auto simp: finish_item_def close_barrier_def recordErr_def Let_def split: buffered_item.splits option.splits)

text \<open>The queue of a buffer shrinks or stays.\<close>

lemma keeps_core:
  assumes "keeps A s" "set (bc_queue core) \<subseteq> queued (sw_world s) k" "gh_fresh core = gh_fresh (cw_cores (sw_world s) k)"
  shows "keeps A (s\<lparr>sw_world := (sw_world s)\<lparr>cw_cores := (cw_cores (sw_world s))(k := core)\<rparr>\<rparr>)" (is "keeps A ?s")
proof -
  have same: "item_stored A ?s j item = item_stored A s j item" for j item using assms(3) by (cases item) auto
  have "item \<in> queued (sw_world s) j" if "item \<in> queued (sw_world ?s) j" for j item
    using that assms(2) by (auto simp: queued_def split: if_splits)
  with assms(1) same show ?thesis by (auto simp: keeps_def)
qed

lemma store_Handle_run:
  assumes "store_Handle sp E ck ctx c r s = Some (s', err)" "stores A0 (sw_arrays s) r rc" "keeps A0 s"
  shows "chain_Handle E ck ctx c rc (sw_world s) = Some (sw_world s', err)" "grown {} A0 (sw_arrays s')"
    "keeps (sw_arrays s') s'"
  using store_Handle_simulates [OF assms(2,3), of sp E ck ctx c] by (simp_all add: simulates_def assms(1))

lemma store_step_simulates:
  assumes "store_step sp E rt s s'" "keeps (sw_arrays s) s"
  shows "chain_step E rt (sw_world s) (sw_world s') \<and> keeps (sw_arrays s') s' \<and> grown {} (sw_arrays s) (sw_arrays s')"
  using assms(1)
proof cases
  case (call tm l m pc attrs A r ck ctx ops err)
  have "stores (sw_arrays s) A r (AddAttrs (NewRecord tm l m pc) attrs)"
    by (rule stores_AddAttrs [OF _ call(1)]) (simp add: stores_def)
  then have "stores (sw_arrays s) (sw_arrays (s\<lparr>sw_arrays := A\<rparr>)) r (AddAttrs (NewRecord tm l m pc) attrs)"
    "keeps (sw_arrays s) (s\<lparr>sw_arrays := A\<rparr>)" using assms(2) by simp_all
  note run = store_Handle_run [OF call(2) this]
  then show ?thesis using chain_step.call by auto
next
  case (pass_on r ck ctx ops err)
  have "rec_ok (sw_arrays s) r" using pass_on(1) assms(2) by (simp add: keeps_def list_all_iff)
  then have "stores (sw_arrays s) (sw_arrays s) (rec_Clone r) (rec_read (sw_arrays s) r)"
    by (simp add: stores_def owned_Clone)
  note run = store_Handle_run [OF pass_on(2) this assms(2)]
  then show ?thesis using chain_step.call by blast
next
  case (deliver k i ctx rc n core ck t err)
  note q = take_item_same [OF deliver(2)]
  let ?u = "s\<lparr>sw_world := (sw_world s)\<lparr>cw_cores := (cw_cores (sw_world s))(k := core)\<rparr>\<rparr>"
  let ?r = "sw_items s k i"
  have "RecordItem i ctx rc n \<in> queued (sw_world s) k" using q by (simp add: queued_def)
  then have "item_stored (sw_arrays s) s k (RecordItem i ctx rc n)" using assms(2) unfolding keeps_def by blast
  then have r: "rec_ok (sw_arrays s) ?r" "rec_Clone ?r = ?r" "rec_read (sw_arrays s) ?r = rc" by simp_all
  then have "stores (sw_arrays s) (sw_arrays ?u) ?r rc" using owned_Clone [OF r(1)] by (simp add: stores_def)
  moreover have "keeps (sw_arrays s) ?u"
    by (rule keeps_core [OF assms(2)]) (use q in \<open>auto simp: queued_def\<close>)
  ultimately have run: "chain_Handle E ck ctx n rc (sw_world ?u) = Some (sw_world t, err)"
    "grown {} (sw_arrays s) (sw_arrays t)" "keeps (sw_arrays t) t"
    using store_Handle_run [OF deliver(3)] by blast+
  let ?done = "finish_item (RecordItem i ctx rc n) (item_error err) (cw_cores (sw_world t) k)"
  have "keeps (sw_arrays t) (t\<lparr>sw_world := (sw_world t)\<lparr>cw_cores := (cw_cores (sw_world t))(k := ?done)\<rparr>\<rparr>)"
    by (rule keeps_core [OF run(3)]) (simp_all add: queued_def finish_item_same)
  then have "keeps (sw_arrays s') s'" by (simp add: deliver(1))
  moreover have "chain_step E rt (sw_world s) (sw_world s')"
    using chain_step.deliver [OF deliver(2), of E ck "sw_world t" err rt] run(1) by (simp add: deliver(1))
  ultimately show ?thesis using run(2) by (simp add: deliver(1))
next
  case (signal k b core)
  have "keeps (sw_arrays s) s'"
    unfolding signal(1)
    by (rule keeps_core [OF assms(2)]) (use take_item_same [OF signal(2)] in \<open>auto simp: queued_def finish_item_same\<close>)
  then show ?thesis using chain_step.signal [OF signal(2), of E rt] by (simp add: signal(1))
next
  case (set_level l)
  then show ?thesis using chain_step.set_level assms(2) by simp
qed

lemma store_reach_simulates:
  assumes "store_reach sp E rt s"
  shows "chain_reach E rt (sw_world s) \<and> keeps (sw_arrays s) s"
  using assms
proof induction
  case (init s)
  then show ?case using chain_reach.init by (auto simp: keeps_def fresh_world_def queued_def)
next
  case (step s s')
  then show ?case using store_step_simulates [OF step.hyps(2)] chain_reach.step by blast
qed

section \<open>A record between handlers\<close>

definition demo_env :: "nat chain_env" where
  "demo_env =
     \<lparr>ce_sink_attrs = (\<lambda>t as. t), ce_sink_group = (\<lambda>t g. t), ce_sink_enabled = (\<lambda>lvl t l. True),
      ce_sink_handle = (\<lambda>t r. None), ce_fold = (=),
      ce_frames = (\<lambda>pc. \<lparr>fm_Function = ''main.run'', fm_File = ''/app/main.go'', fm_Line = 7\<rparr>),
      ce_span = (\<lambda>ctx. \<lparr>sp_valid = False, sp_sampled = False, sp_traceID = [], sp_spanID = [], sp_flags = []\<rparr>)\<rparr>"

definition demo_chain :: "nat chain" where
  "demo_chain = Multi [Source (Sink 1), Component (Sink 2)]"

definition demo_attrs :: "attr list" where
  "demo_attrs = map (\<lambda>c. String [c] ''v'') ''abcdef''"

text \<open>A record with six attrs: the sixth is in an array with room for more.\<close>

definition demo_record :: "attr arrays \<times> rec_value" where
  "demo_record = rec_AddAttrs (\<lambda>n. Suc n) [] (rec_New 0 0 ''m'' 7) demo_attrs"

definition demo_start :: "nat store_world" where
  "demo_start =
     \<lparr>sw_arrays = [], sw_kept = [], sw_items = (\<lambda>_ _. rec_New 0 0 [] 0),
      sw_world =
        \<lparr>cw_level = 0, cw_sampling = (\<lambda>k. \<lparr>ss_last = [], ss_maxKeys = 1, ss_suppressed = 0, ss_evicted = 0\<rparr>),
         cw_counters = (\<lambda>c l. 0), cw_cores = (\<lambda>b. NewBufferedCore 1), cw_delivered = []\<rparr>\<rparr>"

definition demo_call :: "nat chain \<Rightarrow> rec_value \<Rightarrow> nat store_world \<Rightarrow> nat store_world" where
  "demo_call c r s =
     (case store_Handle (\<lambda>n. Suc n) demo_env (\<lambda>k. undefined) 0 c r s of Some (s, _) \<Rightarrow> s | None \<Rightarrow> s)"

definition kept_attrs :: "'t store_world \<Rightarrow> attr list list" where
  "kept_attrs s = map (\<lambda>r. r_attrs (rec_read (sw_arrays s) r)) (sw_kept s)"

definition demo_after :: "nat store_world" where
  "demo_after = demo_call demo_chain (snd demo_record) (demo_start\<lparr>sw_arrays := fst demo_record\<rparr>)"

abbreviation (input) "demo_frame \<equiv> \<lparr>fm_Function = ''main.run'', fm_File = ''/app/main.go'', fm_Line = 7\<rparr>"

text \<open>The two children of the fan-out add to clones.\<close>

lemma demo_fan_out:
  "kept_attrs demo_after = [demo_attrs @ [source_attr demo_frame], demo_attrs @ [component_attr demo_frame]]"
  by code_simp

text \<open>
  \<open>SourceHandler.Handle\<close> adds to the record it is given. The standard library asks for a \<open>Clone\<close> first: the same
  record passed to it again carries the library's complaint.
\<close>

definition demo_twice :: "nat store_world" where
  "demo_twice =
     demo_call (Source (Sink 1)) (snd demo_record)
       (demo_call (Source (Sink 1)) (snd demo_record) (demo_start\<lparr>sw_arrays := fst demo_record\<rparr>))"

lemma source_handler_spoils_reused_record:
  "kept_attrs demo_twice = [demo_attrs @ [source_attr demo_frame], demo_attrs @ [bug_attr, source_attr demo_frame]]"
  by code_simp

section \<open>Sharing never shows\<close>

text \<open>
  C7. However the chain is used, its run on the store is a run of the model in which records are values, what the terminal
  handlers were given reads on the store exactly as that model delivered it, and no step changes a record already kept.
\<close>

theorem record_storage_never_shows:
  assumes "store_reach sp E rt s" "store_step sp E rt s s'"
  shows "chain_reach E rt (sw_world s) \<and> chain_step E rt (sw_world s) (sw_world s') \<and>
    map (rec_read (sw_arrays s)) (sw_kept s) = map snd (cw_delivered (sw_world s)) \<and>
    map (rec_read (sw_arrays s')) (sw_kept s) = map (rec_read (sw_arrays s)) (sw_kept s)"
proof -
  have s: "chain_reach E rt (sw_world s)" "keeps (sw_arrays s) s" using store_reach_simulates [OF assms(1)] by simp_all
  note step = store_step_simulates [OF assms(2) s(2)]
  have "rec_read (sw_arrays s') r = rec_read (sw_arrays s) r" if "r \<in> set (sw_kept s)" for r
    using grown_rec [of "sw_arrays s" "sw_arrays s'" r] step s(2) that by (auto simp: keeps_def list_all_iff)
  then have "map (rec_read (sw_arrays s')) (sw_kept s) = map (rec_read (sw_arrays s)) (sw_kept s)" by simp
  with s step show ?thesis unfolding keeps_def by blast
qed

lemma demo_call_kept:
  assumes "length (kept_attrs (demo_call c r s)) \<noteq> length (sw_kept s)"
  shows "\<exists>err. store_Handle (\<lambda>n. Suc n) demo_env (\<lambda>k. undefined) 0 c r s = Some (demo_call c r s, err)"
  using assms by (auto simp: demo_call_def kept_attrs_def split: option.splits)

definition demo_again :: "nat store_world" where
  "demo_again = demo_call demo_chain (rec_Clone (hd (sw_kept demo_after))) demo_after"

lemma demo_passed_on:
  "kept_attrs demo_again = kept_attrs demo_after @
     [demo_attrs @ [source_attr demo_frame, source_attr demo_frame], demo_attrs @ [source_attr demo_frame, component_attr demo_frame]]"
  by code_simp

lemma demo_kept: "length (sw_kept demo_after) = 2"
  using arg_cong [OF demo_fan_out, of length] by (simp add: kept_attrs_def)

lemma demo_reach: "store_reach (\<lambda>n. Suc n) demo_env demo_chain demo_after"
proof -
  have "store_reach (\<lambda>n. Suc n) demo_env demo_chain demo_start"
    by (rule store_reach.init) (simp_all add: demo_start_def fresh_world_def NewBufferedCore_def Let_def)
  moreover obtain err where "store_Handle (\<lambda>n. Suc n) demo_env (\<lambda>k. undefined) 0 demo_chain (snd demo_record)
      (demo_start\<lparr>sw_arrays := fst demo_record\<rparr>) = Some (demo_after, err)"
    using demo_call_kept [of demo_chain "snd demo_record" "demo_start\<lparr>sw_arrays := fst demo_record\<rparr>"] demo_fan_out
    by (auto simp: demo_after_def demo_start_def)
  then have "store_step (\<lambda>n. Suc n) demo_env demo_chain demo_start demo_after"
    by (intro store_step.call [where ops = "[]" and attrs = demo_attrs and tm = 0 and l = 0 and m = "''m''" and pc = 7
          and A = "fst demo_record" and r = "snd demo_record"])
       (simp_all add: demo_record_def demo_start_def)
  ultimately show ?thesis by (rule store_reach.step)
qed

lemma demo_step: "store_step (\<lambda>n. Suc n) demo_env demo_chain demo_after demo_again"
proof -
  have "length (kept_attrs demo_after) = 2" "length (kept_attrs demo_again) = 4"
    using demo_kept by (simp_all add: demo_passed_on) (simp_all add: kept_attrs_def)
  then obtain err where "store_Handle (\<lambda>n. Suc n) demo_env (\<lambda>k. undefined) 0 demo_chain
      (rec_Clone (hd (sw_kept demo_after))) demo_after = Some (demo_again, err)"
    using demo_call_kept [of demo_chain "rec_Clone (hd (sw_kept demo_after))" demo_after] demo_kept
    by (auto simp: demo_again_def)
  moreover have "hd (sw_kept demo_after) \<in> set (sw_kept demo_after)" using demo_kept by (cases "sw_kept demo_after") auto
  ultimately show ?thesis by (intro store_step.pass_on [where ops = "[]"]) simp_all
qed

theorem record_storage_never_shows_witness:
  "map (rec_read (sw_arrays demo_again)) (sw_kept demo_after) = map snd (cw_delivered (sw_world demo_after)) \<and>
   kept_attrs demo_after = [demo_attrs @ [source_attr demo_frame], demo_attrs @ [component_attr demo_frame]]"
  using record_storage_never_shows [OF demo_reach demo_step] demo_fan_out by argo

end
