(* ===== verification/ShutdownDrain.thy ===== *)
theory ShutdownDrain
  imports BufferedHandler Lifecycle
begin

text \<open>
  A shutdown from end to end: the lifecycle group (\<open>lifecycle.go\<close>) over buffered handlers
  (\<open>handler/buffered_handler.go\<close>), as one system of goroutines. The goroutine that \<open>shutdown\<close> starts calls
  \<open>f.Shutdown(context.Background())\<close> of each handler in turn, as client \<open>k\<close> of the \<open>k\<close>-th one, and goes on when the
  call has returned; everything else interleaves freely.
\<close>

section \<open>The composed system\<close>

text \<open>Handlers are numbers. Clients below the number of handlers belong to the runner.\<close>

record 'n drain_sys =
  ds_life :: "nat lc_sys"
  ds_bufs :: "nat \<Rightarrow> 'n buffered_sys"

text \<open>The error of a buffered handler as the lifecycle group sees it (\<open>errors.Is(err, handler.ErrShutdown)\<close>).\<close>

definition lifecycle_result :: "result \<Rightarrow> lc_result" where
  "lifecycle_result res =
     map_option (\<lambda>e. case e of
        ErrShutdown \<Rightarrow> ErrHandlerShutdown | CtxErr \<Rightarrow> ErrContext
      | ErrBufferFull \<Rightarrow> ErrOther ''buffer full'' | Downstream t \<Rightarrow> ErrOther t) res"

datatype 'n drain_event = LifeEv lc_event | BufEv nat "'n buffered_action" | RunnerCalls | RunnerReturns

text \<open>The runner's calls start and return only below; their context has no deadline.\<close>

fun free_action :: "nat \<Rightarrow> 'n buffered_action \<Rightarrow> bool" where
  "free_action N (Call t call) = (N \<le> t)"
| "free_action N (InHandle t) = (N \<le> t)"
| "free_action N (InFlush t ch) = (N \<le> t)"
| "free_action N (InShutdown t ch) = (N \<le> t \<or> ch \<noteq> CtxDone)"
| "free_action N (Work wch) = True"

fun free_event :: "lc_event \<Rightarrow> bool" where
  "free_event (EvRunner (LcHandlerReturns res)) = False"
| "free_event ev = True"

definition set_buf :: "nat \<Rightarrow> 'n drain_sys \<Rightarrow> 'n buffered_sys \<Rightarrow> 'n drain_sys" where
  "set_buf h s b = s\<lparr>ds_bufs := (ds_bufs s)(h := b)\<rparr>"

fun drain_apply :: "nat list \<Rightarrow> 'n drain_event \<Rightarrow> 'n drain_sys \<Rightarrow> 'n drain_sys option" where
  "drain_apply hs (LifeEv ev) s =
     (if free_event ev then map_option (\<lambda>l. s\<lparr>ds_life := l\<rparr>) (lc_apply ev (ds_life s)) else None)"
| "drain_apply hs (BufEv h a) s =
     (if free_action (length hs) a then map_option (set_buf h s) (buffered_act a (ds_bufs s h)) else None)"
| "drain_apply hs RunnerCalls s =
     (case ls_runner (ds_life s) of
        RunCall k first \<Rightarrow>
          if k < length hs \<and> sy_clients (ds_bufs s (hs ! k)) k = Idle
          then map_option (set_buf (hs ! k) s) (buffered_act (Call k CallShutdown) (ds_bufs s (hs ! k))) else None
      | _ \<Rightarrow> None)"
| "drain_apply hs RunnerReturns s =
     (case ls_runner (ds_life s) of
        RunCall k first \<Rightarrow>
          if k < length hs
          then (case sy_clients (ds_bufs s (hs ! k)) k of
                  Returned res \<Rightarrow>
                    map_option (\<lambda>l. s\<lparr>ds_life := l\<rparr>)
                      (lc_apply (EvRunner (LcHandlerReturns (lifecycle_result res))) (ds_life s))
                | _ \<Rightarrow> None)
          else None
      | _ \<Rightarrow> None)"

inductive drain_reach :: "nat list \<Rightarrow> (nat \<Rightarrow> int) \<Rightarrow> 'n drain_sys \<Rightarrow> bool" for hs cap where
  init: "drain_reach hs cap \<lparr>ds_life = newLifecycle hs, ds_bufs = (\<lambda>h. NewBufferedHandler (cap h))\<rparr>"
| step: "drain_reach hs cap s \<Longrightarrow> drain_apply hs ev s = Some s' \<Longrightarrow> drain_reach hs cap s'"

section \<open>The parts keep their own invariants\<close>

lemma lc_apply_reach: "lc_apply ev s = Some s' \<Longrightarrow> lc_reach hs s \<Longrightarrow> lc_reach hs s'"
  using lc_apply_step lc_reach.step by blast

lemma buffered_act_reach: "buffered_act a s = Some s' \<Longrightarrow> buffered_reach n s \<Longrightarrow> buffered_reach n s'"
  using buffered_act_step buffered_reach.step by blast

fun runner_pc :: "'n worker \<Rightarrow> 'n client \<Rightarrow> bool" where
  "runner_pc w Idle = True"
| "runner_pc w ShutdownStart = True"
| "runner_pc w ShutdownLocked = True"
| "runner_pc w ShutdownClose = True"
| "runner_pc w ShutdownAwait = True"
| "runner_pc w ShutdownTake = (w = WorkerGone)"
| "runner_pc w (Returned res) = (w = WorkerGone)"
| "runner_pc w _ = False"

definition buf_ok :: "nat \<Rightarrow> 'n buffered_sys \<Rightarrow> bool" where
  "buf_ok N b \<longleftrightarrow> (\<forall>k < N. runner_pc (sy_worker b) (sy_clients b k))"

text \<open>The effect of a free action on the runner's clients: a shutdown step without the context, or nothing.\<close>

lemma free_action_client:
  assumes "buffered_act a b = Some b'" "free_action N a" "k < N"
  shows "sy_worker b = WorkerGone \<longrightarrow> sy_worker b' = WorkerGone"
    and "sy_clients b' k = sy_clients b k \<or>
      (\<exists>ch c. ch \<noteq> CtxDone \<and> shutdown_step ch (sy_core b) (sy_clients b k) = Some (c, sy_clients b' k) \<and>
        sy_worker b' = sy_worker b)"
proof -
  show "sy_worker b = WorkerGone \<longrightarrow> sy_worker b' = WorkerGone"
    using assms(1) by (cases a) (auto simp: client_to_def split: option.splits if_splits prod.splits)
  show "sy_clients b' k = sy_clients b k \<or>
      (\<exists>ch c. ch \<noteq> CtxDone \<and> shutdown_step ch (sy_core b) (sy_clients b k) = Some (c, sy_clients b' k) \<and>
        sy_worker b' = sy_worker b)"
  proof (cases a)
    case (InShutdown t ch)
    with assms(1) obtain c pc where st: "shutdown_step ch (sy_core b) (sy_clients b t) = Some (c, pc)"
      "b' = b\<lparr>sy_core := c, sy_clients := (sy_clients b)(t := pc)\<rparr>"
      by (auto simp: client_to_def split: option.splits)
    show ?thesis
    proof (cases "t = k")
      case True
      with st assms(2,3) InShutdown show ?thesis by auto
    next
      case False
      with st show ?thesis by simp
    qed
  next
    case (Work wch)
    with assms(1) show ?thesis by (auto split: option.splits)
  qed (use assms in \<open>simp_all add: client_to_def split: option.splits if_splits prod.splits\<close>, use assms(3) in auto)
qed

lemma shutdown_step_pc:
  assumes "shutdown_step ch c pc = Some (c', pc')" "ch \<noteq> CtxDone" "runner_pc w pc" "bc_workerDone c \<longleftrightarrow> w = WorkerGone"
  shows "runner_pc w pc'"
  using assms by (cases pc) (auto simp: Let_def split: option.splits choice.splits if_splits prod.splits)

lemma workerDone_gone: "buffered_reach n b \<Longrightarrow> bc_workerDone (sy_core b) \<longleftrightarrow> sy_worker b = WorkerGone"
  using buffered_invs(2) [of n b] by (simp add: phase_inv_def Let_def)

lemma runner_pc_gone: "runner_pc w pc \<Longrightarrow> (w = WorkerGone \<longrightarrow> w' = WorkerGone) \<Longrightarrow> runner_pc w' pc"
  by (cases pc) auto

lemma free_action_ok:
  assumes "buffered_act a b = Some b'" "free_action N a" "buf_ok N b" "buffered_reach n b"
  shows "buf_ok N b'"
  unfolding buf_ok_def
proof (intro allI impI)
  fix k
  assume k: "k < N"
  have pc: "runner_pc (sy_worker b) (sy_clients b k)" using assms(3) k by (simp add: buf_ok_def)
  from free_action_client(2) [OF assms(1,2) k] show "runner_pc (sy_worker b') (sy_clients b' k)"
  proof
    assume "sy_clients b' k = sy_clients b k"
    then show ?thesis using runner_pc_gone [OF pc free_action_client(1) [OF assms(1,2) k]] by simp
  next
    assume "\<exists>ch c. ch \<noteq> CtxDone \<and> shutdown_step ch (sy_core b) (sy_clients b k) = Some (c, sy_clients b' k) \<and>
        sy_worker b' = sy_worker b"
    then show ?thesis using shutdown_step_pc pc workerDone_gone [OF assms(4)] by metis
  qed
qed

lemma free_action_returned:
  assumes "buffered_act a b = Some b'" "free_action N a" "k < N" "sy_clients b k = Returned res"
  shows "sy_clients b' k = Returned res"
  using free_action_client(2) [OF assms(1-3)] assms(4) by auto

section \<open>The invariant\<close>

definition answered :: "nat list \<Rightarrow> 'n drain_sys \<Rightarrow> bool" where
  "answered hs s \<longleftrightarrow>
     (\<forall>k < length (gl_results (ls_group (ds_life s))).
        \<exists>res. sy_clients (ds_bufs s (hs ! k)) k = Returned res \<and>
          gl_results (ls_group (ds_life s)) ! k = lifecycle_result res)"

definition drain_inv :: "nat list \<Rightarrow> (nat \<Rightarrow> int) \<Rightarrow> 'n drain_sys \<Rightarrow> bool" where
  "drain_inv hs cap s \<longleftrightarrow>
     lc_reach hs (ds_life s) \<and>
     (\<forall>h. buffered_reach (cap h) (ds_bufs s h) \<and> buf_ok (length hs) (ds_bufs s h)) \<and> answered hs s"

lemma drain_inv_init: "drain_inv hs cap \<lparr>ds_life = newLifecycle hs, ds_bufs = (\<lambda>h. NewBufferedHandler (cap h))\<rparr>"
  by (simp add: drain_inv_def answered_def buf_ok_def NewBufferedHandler_def newLifecycle_def newLifecycleGroup_def
      lc_reach.init [unfolded newLifecycle_def newLifecycleGroup_def] buffered_reach.init [unfolded NewBufferedHandler_def])

lemma results_length: "lc_reach hs l \<Longrightarrow> length (gl_results (ls_group l)) \<le> length hs"
  using lc_reach_inv [of hs l] by (cases "ls_runner l") (auto simp: lc_inv_def)

lemma free_event_results:
  assumes "lc_apply ev l = Some l'" "free_event ev"
  shows "gl_results (ls_group l') = gl_results (ls_group l)"
proof (cases ev)
  case (EvRunner ch)
  with assms show ?thesis by (cases ch) (auto elim!: runner_stepE split: if_splits)
qed (use assms in \<open>auto elim!: log_stepE lc_flush_stepE lc_shutdown_stepE simp: rejectRecord_def
       split: if_splits lc_choice.splits once_state.splits\<close>)

text \<open>A step of one buffer keeps the invariant when it keeps the calls that have returned.\<close>

lemma drain_inv_buf:
  assumes "drain_inv hs cap s" "buffered_reach (cap h) b" "buf_ok (length hs) b"
    and "\<And>k res. k < length (gl_results (ls_group (ds_life s))) \<Longrightarrow> hs ! k = h \<Longrightarrow>
      sy_clients (ds_bufs s h) k = Returned res \<Longrightarrow> sy_clients b k = Returned res"
  shows "drain_inv hs cap (set_buf h s b)"
proof -
  have "answered hs (set_buf h s b)"
    unfolding answered_def
  proof (intro allI impI)
    fix k
    assume k: "k < length (gl_results (ls_group (ds_life (set_buf h s b))))"
    then obtain res where "sy_clients (ds_bufs s (hs ! k)) k = Returned res"
      "gl_results (ls_group (ds_life s)) ! k = lifecycle_result res"
      using assms(1) by (auto simp: drain_inv_def answered_def set_buf_def)
    with k assms(4) [of k res] show "\<exists>res. sy_clients (ds_bufs (set_buf h s b) (hs ! k)) k = Returned res \<and>
        gl_results (ls_group (ds_life (set_buf h s b))) ! k = lifecycle_result res"
      by (auto simp: set_buf_def)
  qed
  with assms(1-3) show ?thesis by (simp add: drain_inv_def set_buf_def)
qed

lemma drain_apply_inv:
  assumes "drain_apply hs ev s = Some s'" "drain_inv hs cap s"
  shows "drain_inv hs cap s'"
proof (cases ev)
  case (LifeEv e)
  with assms(1) obtain l where e: "free_event e" "lc_apply e (ds_life s) = Some l" "s' = s\<lparr>ds_life := l\<rparr>"
    by (auto split: if_splits)
  with assms(2) lc_apply_reach [OF e(2)] free_event_results [OF e(2,1)] show ?thesis
    by (simp add: drain_inv_def answered_def)
next
  case (BufEv h a)
  with assms(1) obtain b where b: "free_action (length hs) a" "buffered_act a (ds_bufs s h) = Some b" "s' = set_buf h s b"
    by (auto split: if_splits)
  have old: "buffered_reach (cap h) (ds_bufs s h)" "buf_ok (length hs) (ds_bufs s h)" "lc_reach hs (ds_life s)"
    using assms(2) by (simp_all add: drain_inv_def)
  show ?thesis
    unfolding b(3)
  proof (rule drain_inv_buf [OF assms(2)])
    show "buffered_reach (cap h) b" by (rule buffered_act_reach [OF b(2) old(1)])
    show "buf_ok (length hs) b" by (rule free_action_ok [OF b(2,1) old(2,1)])
    fix k res
    assume k: "k < length (gl_results (ls_group (ds_life s)))" and r: "sy_clients (ds_bufs s h) k = Returned res"
    from k results_length [OF old(3)] have "k < length hs" by simp
    then show "sy_clients b k = Returned res" by (rule free_action_returned [OF b(2,1) _ r])
  qed
next
  case RunnerCalls
  with assms(1) obtain k first where run: "ls_runner (ds_life s) = RunCall k first" "k < length hs"
    and idle: "sy_clients (ds_bufs s (hs ! k)) k = Idle"
    and s': "s' = set_buf (hs ! k) s ((ds_bufs s (hs ! k))\<lparr>sy_clients := (sy_clients (ds_bufs s (hs ! k)))(k := ShutdownStart)\<rparr>)"
    and act: "buffered_act (Call k CallShutdown) (ds_bufs s (hs ! k)) =
      Some ((ds_bufs s (hs ! k))\<lparr>sy_clients := (sy_clients (ds_bufs s (hs ! k)))(k := ShutdownStart)\<rparr>)"
    by (auto simp: client_to_def split: lc_runner.splits if_splits)
  have old: "buffered_reach (cap (hs ! k)) (ds_bufs s (hs ! k))" "buf_ok (length hs) (ds_bufs s (hs ! k))"
    using assms(2) by (simp_all add: drain_inv_def)
  show ?thesis
    unfolding s'
    by (rule drain_inv_buf [OF assms(2) buffered_act_reach [OF act old(1)]]) (use old(2) idle in \<open>auto simp: buf_ok_def\<close>)
next
  case RunnerReturns
  with assms(1) obtain k first res l where run: "ls_runner (ds_life s) = RunCall k first" "k < length hs"
    and ret: "sy_clients (ds_bufs s (hs ! k)) k = Returned res"
    and l: "lc_apply (EvRunner (LcHandlerReturns (lifecycle_result res))) (ds_life s) = Some l" "s' = s\<lparr>ds_life := l\<rparr>"
    by (auto split: lc_runner.splits if_splits client.splits)
  have inv: "lc_inv hs (ds_life s)" using assms(2) by (simp add: drain_inv_def lc_reach_inv)
  then have len: "length (gl_results (ls_group (ds_life s))) = k" "lc_handlers (ls_group (ds_life s)) = hs"
    using run(1) by (simp_all add: lc_inv_def)
  have "gl_results (ls_group l) = gl_results (ls_group (ds_life s)) @ [lifecycle_result res]"
    using l(1) run len by auto
  with assms(2) lc_apply_reach [OF l(1)] ret len show ?thesis
    by (auto simp: drain_inv_def answered_def l(2) nth_append less_Suc_eq)
qed

lemma drain_reach_inv: "drain_reach hs cap s \<Longrightarrow> drain_inv hs cap s"
  by (induction rule: drain_reach.induct) (rule drain_inv_init, rule drain_apply_inv)

section \<open>What a completed shutdown means\<close>

lemma worker_gone_drained:
  assumes "buffered_reach n b" "sy_worker b = WorkerGone"
  shows "Queued b = 0 \<and> gh_done (sy_core b) = gh_sent (sy_core b) \<and> bc_state (sy_core b) = StateStopped"
  using buffered_invs(2,3) [OF assms(1)] assms(2) by (simp add: phase_inv_def queue_inv_def Queued_def Let_def)

text \<open>
  C4. When \<open>Shutdown\<close> of a logger returns to a caller whose context has not expired, every buffered handler of the
  pipeline has stopped, its queue is empty, and every record it ever accepted has been handed to the next handler; the
  caller's result is the first error the handlers' shutdowns returned.
\<close>

theorem shutdown_delivers_everything:
  assumes "drain_reach hs cap s" "ls_clients (ds_life s) t = ShutReturned res" "res \<noteq> Some ErrContext"
  shows "(\<forall>h \<in> set hs. Queued (ds_bufs s h) = 0 \<and> bc_state (sy_core (ds_bufs s h)) = StateStopped \<and>
      gh_done (sy_core (ds_bufs s h)) = gh_sent (sy_core (ds_bufs s h))) \<and>
    (\<exists>rs. length rs = length hs \<and> (\<forall>k < length hs. sy_clients (ds_bufs s (hs ! k)) k = Returned (rs ! k)) \<and>
      res = first_error (map lifecycle_result rs))"
proof -
  note inv = drain_reach_inv [OF assms(1), unfolded drain_inv_def]
  from inv have life: "lc_reach hs (ds_life s)" by simp
  have shared: "length (gl_results (ls_group (ds_life s))) = length hs" "res = first_error (gl_results (ls_group (ds_life s)))"
    using completed_result [OF life assms(2,3)] by simp_all
  define rs where "rs = map (\<lambda>k. case sy_clients (ds_bufs s (hs ! k)) k of Returned r \<Rightarrow> r | _ \<Rightarrow> None) [0..<length hs]"
  have fetched: "sy_clients (ds_bufs s (hs ! k)) k = Returned (rs ! k) \<and>
      gl_results (ls_group (ds_life s)) ! k = lifecycle_result (rs ! k)" if "k < length hs" for k
    using inv that shared(1) by (auto simp: answered_def rs_def)
  have len: "length rs = length hs" by (simp add: rs_def)
  have "gl_results (ls_group (ds_life s)) = map lifecycle_result rs"
    by (rule nth_equalityI) (simp_all add: shared(1) len fetched)
  moreover have "Queued (ds_bufs s h) = 0 \<and> bc_state (sy_core (ds_bufs s h)) = StateStopped \<and>
      gh_done (sy_core (ds_bufs s h)) = gh_sent (sy_core (ds_bufs s h))" if h: "h \<in> set hs" for h
  proof -
    obtain k where k: "k < length hs" "h = hs ! k" using h by (auto simp: in_set_conv_nth)
    have "runner_pc (sy_worker (ds_bufs s h)) (sy_clients (ds_bufs s h) k)"
      using inv k by (simp add: buf_ok_def)
    with fetched [OF k(1)] k(2) have "sy_worker (ds_bufs s h) = WorkerGone" by simp
    with worker_gone_drained [of "cap h" "ds_bufs s h"] inv show ?thesis by simp
  qed
  ultimately show ?thesis
    using fetched shared(2) len by (intro conjI ballI exI [of _ rs]) simp_all
qed

section \<open>An execution\<close>

fun drain_exec :: "nat list \<Rightarrow> 'n drain_event list \<Rightarrow> 'n drain_sys \<Rightarrow> 'n drain_sys option" where
  "drain_exec hs [] s = Some s"
| "drain_exec hs (ev # evs) s = (case drain_apply hs ev s of None \<Rightarrow> None | Some s' \<Rightarrow> drain_exec hs evs s')"

lemma drain_exec_reach: "drain_exec hs evs s = Some s' \<Longrightarrow> drain_reach hs cap s \<Longrightarrow> drain_reach hs cap s'"
  by (induction evs arbitrary: s) (auto split: option.splits intro: drain_reach.step)

text \<open>One buffered handler; a record is accepted, then \<open>Shutdown\<close> is called, and the record is delivered with an error.\<close>

definition accept_one :: "unit drain_event list" where
  "accept_one =
     map (BufEv 0) [Call 1 (CallHandle 7 (NewRecord 0 0 ''m'' 0) \<lparr>bh_next = ()\<rparr>), InHandle 1, InHandle 1, InHandle 1, InHandle 1]"

definition stop_all :: "unit drain_event list" where
  "stop_all =
     map LifeEv [EvStart 2 ShutOnce, EvShutdown 2 LcProceed, EvShutdown 2 LcProceed, EvShutdown 2 LcProceed, EvShutdown 2 LcProceed] @
     [RunnerCalls] @
     map (BufEv 0) [InShutdown 0 Proceed, InShutdown 0 Proceed, InShutdown 0 Proceed, Work SeeShutdown, Work Receive,
       Work (HandlerReturns (Some (Downstream ''disk full''))), Work Receive, Work Receive, Work Receive,
       Work Receive, Work Receive, Work Receive, InShutdown 0 WorkerDoneCh, InShutdown 0 Proceed] @
     [RunnerReturns] @ map LifeEv [EvRunner LcProceed, EvRunner LcProceed, EvRunner LcProceed, EvShutdown 2 LcProceed]"

abbreviation drain_start :: "unit drain_sys" where
  "drain_start \<equiv> \<lparr>ds_life = newLifecycle [0], ds_bufs = (\<lambda>h. NewBufferedHandler 4)\<rparr>"

theorem shutdown_delivers_everything_witness:
  "\<exists>s. drain_exec [0] (accept_one @ stop_all) drain_start = Some s \<and>
     gh_sent (sy_core (ds_bufs s 0)) = [RecordItem 0 7 (NewRecord 0 0 ''m'' 0) ()] \<and>
     gh_done (sy_core (ds_bufs s 0)) = gh_sent (sy_core (ds_bufs s 0)) \<and>
     ls_clients (ds_life s) 2 = ShutReturned (Some (ErrOther ''disk full''))"
proof -
  obtain s where s: "drain_exec [0] (accept_one @ stop_all) drain_start = Some s"
    and c: "gh_sent (sy_core (ds_bufs s 0)) = [RecordItem 0 7 (NewRecord 0 0 ''m'' 0) ()]"
      "ls_clients (ds_life s) 2 = ShutReturned (Some (ErrOther ''disk full''))"
    by (simp add: accept_one_def stop_all_def buffered_eval lc_run_defs set_buf_def lifecycle_result_def)
  have "drain_reach [0] (\<lambda>_. 4) s" by (rule drain_exec_reach [OF s drain_reach.init])
  from shutdown_delivers_everything [OF this c(2)] s c show ?thesis by (simp del: drain_exec.simps)
qed

end
