(* ===== verification/FlushDrain.thy ===== *)
theory FlushDrain
  imports ShutdownDrain
begin

text \<open>
  A flush from end to end, on the composed system of theory \<open>ShutdownDrain\<close>: \<open>flush\<close> of \<open>lifecycle.go\<close> calls
  \<open>f.Flush(ctx)\<close> of each buffered handler in turn and goes on when the call has returned, while logging, shutdowns
  and other flushes interleave freely. Every step here is a step of that system, so its invariant is inherited.
\<close>

section \<open>The composed system\<close>

text \<open>
  \<open>fs_flushing\<close> are the goroutines inside a handler's \<open>Flush\<close>; goroutine \<open>t\<close> calls it as client \<open>flush_client N t\<close>.
  \<open>fs_before t h\<close> records what handler \<open>h\<close> had accepted when goroutine \<open>t\<close> called the logger's \<open>Flush\<close>.
\<close>

record 'n flush_sys =
  fs_sys :: "'n drain_sys"
  fs_flushing :: "nat set"
  fs_before :: "nat \<Rightarrow> nat \<Rightarrow> 'n buffered_item list"

datatype 'n flush_event = Other "'n drain_event" | FlushCalls nat | FlushReturns nat

definition flush_client :: "nat \<Rightarrow> nat \<Rightarrow> nat" where
  "flush_client N t = N + 2 * t"

definition reserved :: "nat \<Rightarrow> nat \<Rightarrow> bool" where
  "reserved N u \<longleftrightarrow> N \<le> u \<and> even (u - N)"

text \<open>The calls of \<open>flush\<close> start and return only below.\<close>

fun other_event :: "nat \<Rightarrow> 'n drain_event \<Rightarrow> bool" where
  "other_event N (LifeEv (EvFlush t (LcHandlerReturns res))) = False"
| "other_event N (BufEv h (Call u call)) = (\<not> reserved N u)"
| "other_event N ev = True"

fun note_start :: "'n drain_event \<Rightarrow> 'n flush_sys \<Rightarrow> 'n drain_sys \<Rightarrow> 'n flush_sys" where
  "note_start (LifeEv (EvStart t FlushGate)) s d =
     s\<lparr>fs_sys := d, fs_before := (fs_before s)(t := \<lambda>h. gh_sent (sy_core (ds_bufs d h)))\<rparr>"
| "note_start ev s d = s\<lparr>fs_sys := d\<rparr>"

fun flush_apply :: "nat list \<Rightarrow> 'n flush_event \<Rightarrow> 'n flush_sys \<Rightarrow> 'n flush_sys option" where
  "flush_apply hs (Other ev) s =
     (if other_event (length hs) ev then map_option (note_start ev s) (drain_apply hs ev (fs_sys s)) else None)"
| "flush_apply hs (FlushCalls t) s =
     (case ls_clients (ds_life (fs_sys s)) t of
        FlushCall i first \<Rightarrow>
          if i < length hs \<and> t \<notin> fs_flushing s
          then map_option (\<lambda>d. s\<lparr>fs_sys := d, fs_flushing := insert t (fs_flushing s)\<rparr>)
                 (drain_apply hs (BufEv (hs ! i) (Call (flush_client (length hs) t) CallFlush)) (fs_sys s))
          else None
      | _ \<Rightarrow> None)"
| "flush_apply hs (FlushReturns t) s =
     (case ls_clients (ds_life (fs_sys s)) t of
        FlushCall i first \<Rightarrow>
          if i < length hs \<and> t \<in> fs_flushing s
          then (case sy_clients (ds_bufs (fs_sys s) (hs ! i)) (flush_client (length hs) t) of
                  Returned res \<Rightarrow>
                    map_option (\<lambda>d. s\<lparr>fs_sys := d, fs_flushing := fs_flushing s - {t}\<rparr>)
                      (drain_apply hs (LifeEv (EvFlush t (LcHandlerReturns (lifecycle_result res)))) (fs_sys s))
                | _ \<Rightarrow> None)
          else None
      | _ \<Rightarrow> None)"

definition flush_start :: "nat list \<Rightarrow> (nat \<Rightarrow> int) \<Rightarrow> 'n flush_sys" where
  "flush_start hs cap =
     \<lparr>fs_sys = \<lparr>ds_life = newLifecycle hs, ds_bufs = (\<lambda>h. NewBufferedHandler (cap h))\<rparr>, fs_flushing = {}, fs_before = (\<lambda>t h. [])\<rparr>"

inductive flush_reach :: "nat list \<Rightarrow> (nat \<Rightarrow> int) \<Rightarrow> 'n flush_sys \<Rightarrow> bool" for hs cap where
  init: "flush_reach hs cap (flush_start hs cap)"
| step: "flush_reach hs cap s \<Longrightarrow> flush_apply hs ev s = Some s' \<Longrightarrow> flush_reach hs cap s'"

text \<open>The system refines that of \<open>ShutdownDrain\<close>.\<close>

lemma note_start_sys [simp]: "fs_sys (note_start ev s d) = d" "fs_flushing (note_start ev s d) = fs_flushing s"
  by (cases "(ev, s, d)" rule: note_start.cases; simp)+

lemma flush_apply_drain: "flush_apply hs ev s = Some s' \<Longrightarrow> \<exists>dev. drain_apply hs dev (fs_sys s) = Some (fs_sys s')"
  by (cases ev) (auto simp del: drain_apply.simps split: if_splits lc_client.splits client.splits)

lemma flush_reach_drain: "flush_reach hs cap s \<Longrightarrow> drain_reach hs cap (fs_sys s)"
proof (induction rule: flush_reach.induct)
  case init
  then show ?case by (simp add: flush_start_def drain_reach.init)
next
  case (step s ev s')
  then show ?case using flush_apply_drain drain_reach.step by blast
qed

section \<open>One buffer during a flush\<close>

definition sent_set :: "'n buffered_sys \<Rightarrow> 'n buffered_item set" where
  "sent_set b = set (gh_sent (sy_core b))"

definition done_set :: "'n buffered_sys \<Rightarrow> 'n buffered_item set" where
  "done_set b = set (gh_done (sy_core b))"

text \<open>Where a call of the buffer's \<open>Flush\<close> is that has to deliver \<open>B\<close>.\<close>

fun flush_pc :: "'n buffered_item set \<Rightarrow> 'n buffered_core \<Rightarrow> 'n client \<Rightarrow> bool" where
  "flush_pc B c (Returned res) = (case res of None \<Rightarrow> B \<subseteq> set (gh_done c) | Some e \<Rightarrow> True)"
| "flush_pc B c (FlushTry b) = (b < gh_fresh c \<and> B \<subseteq> set (gh_before c b))"
| "flush_pc B c (FlushLocked b) = (b < gh_fresh c \<and> B \<subseteq> set (gh_before c b))"
| "flush_pc B c (FlushSelect b) = (b < gh_fresh c \<and> B \<subseteq> set (gh_before c b))"
| "flush_pc B c (FlushSent b) = (b < gh_fresh c \<and> B \<subseteq> set (gh_before c b))"
| "flush_pc B c (FlushRecheck b) = (b < gh_fresh c \<and> B \<subseteq> set (gh_before c b))"
| "flush_pc B c (FlushAwait b) = (b < gh_fresh c \<and> B \<subseteq> set (gh_before c b))"
| "flush_pc B c (FlushLate b) = (b < gh_fresh c \<and> B \<subseteq> set (gh_before c b))"
| "flush_pc B c (FlushTake b) = (b < gh_fresh c \<and> B \<subseteq> set (gh_before c b))"
| "flush_pc B c _ = False"

definition core_grows :: "'n buffered_core \<Rightarrow> 'n buffered_core \<Rightarrow> bool" where
  "core_grows c c' \<longleftrightarrow> set (gh_sent c) \<subseteq> set (gh_sent c') \<and> set (gh_done c) \<subseteq> set (gh_done c') \<and>
     gh_fresh c \<le> gh_fresh c' \<and> (\<forall>k < gh_fresh c. gh_before c' k = gh_before c k)"

lemma caller_grows: "caller_step t c pc c' pc' \<Longrightarrow> core_grows c c'"
proof -
  assume st: "caller_step t c pc c' pc'"
  have "gh_done c' = gh_done c" using caller_step_effect [OF st] by (simp add: caller_effect_def)
  with caller_step_numbers [OF st] show ?thesis
    unfolding numbers_effect_def core_grows_def by (elim disjE exE conjE) (simp_all add: subset_insertI)
qed

lemma worker_grows: "worker_step wch c w = Some (c', w') \<Longrightarrow> core_grows c c'"
  using worker_step_history [of wch c w c' w'] by (auto simp: core_grows_def)

lemma buffered_act_grows: "buffered_act a b = Some b' \<Longrightarrow> core_grows (sy_core b) (sy_core b')"
proof -
  assume "buffered_act a b = Some b'"
  then have "buffered_step b b'" by (rule buffered_act_step)
  then show ?thesis
  proof (cases rule: buffered_step_cases)
    case (caller t c' pc')
    with caller_grows [OF caller(1)] show ?thesis by simp
  next
    case (worker wch c' w')
    with worker_grows [OF worker(1)] show ?thesis by simp
  qed
qed

lemma flush_pc_grows: "flush_pc B c pc \<Longrightarrow> core_grows c c' \<Longrightarrow> flush_pc B c' pc"
  by (cases pc) (auto simp: core_grows_def split: option.splits)

lemma own_flush_step:
  assumes "flush_step t ch c pc = Some (c', pc')" "flush_pc B c pc" "core_grows c c'"
    and "\<And>b. pc = FlushTake b \<Longrightarrow> set (gh_before c b) \<subseteq> set (gh_done c)"
  shows "flush_pc B c' pc'"
  using assms(1) flush_pc_grows [OF assms(2,3)] assms(2-4)
  by (elim flush_stepE) (auto simp: buffered_step_defs core_grows_def split: if_splits option.splits choice.splits)

lemma flush_pc_step:
  assumes "buffered_act a b = Some b'" "buffered_reach n b" "flush_pc B (sy_core b) (sy_clients b r)"
    and "\<And>call. a \<noteq> Call r call"
  shows "flush_pc B (sy_core b') (sy_clients b' r)"
proof -
  note g = buffered_act_grows [OF assms(1)]
  have same: "sy_clients b' r = sy_clients b r \<Longrightarrow> ?thesis"
    using flush_pc_grows [OF assms(3) g] by simp
  show ?thesis
  proof (cases a)
    case (Call t call)
    with assms(4) [of call] have "t \<noteq> r" by simp
    with assms(1) Call have "sy_clients b' r = sy_clients b r"
      by (auto simp: client_to_def split: if_splits prod.splits)
    then show ?thesis by (rule same)
  next
    case (InHandle t)
    with assms(1,3) have "sy_clients b' r = sy_clients b r"
      by (cases "sy_clients b r") (auto simp: client_to_def split: option.splits if_splits)
    then show ?thesis by (rule same)
  next
    case (InShutdown t ch)
    with assms(1,3) have "sy_clients b' r = sy_clients b r"
      by (cases "sy_clients b r") (auto simp: client_to_def split: option.splits if_splits)
    then show ?thesis by (rule same)
  next
    case (InFlush t ch)
    show ?thesis
    proof (cases "t = r")
      case True
      with InFlush assms(1) have st: "flush_step r ch (sy_core b) (sy_clients b r) = Some (sy_core b', sy_clients b' r)"
        by (auto simp: client_to_def split: option.splits)
      show ?thesis by (rule own_flush_step [OF st assms(3) g flush_past_barrier [OF assms(2)]])
    next
      case False
      with InFlush assms(1) have "sy_clients b' r = sy_clients b r"
        by (auto simp: client_to_def split: option.splits)
      then show ?thesis by (rule same)
    qed
  next
    case (Work wch)
    with assms(1) have "sy_clients b' r = sy_clients b r" by (auto split: option.splits)
    then show ?thesis by (rule same)
  qed
qed

section \<open>The invariant\<close>

text \<open>What holds for goroutine \<open>t\<close>, by where it is in the logger's \<open>Flush\<close>.\<close>

definition flush_ok :: "nat list \<Rightarrow> 'n flush_sys \<Rightarrow> nat \<Rightarrow> bool" where
  "flush_ok hs s t \<longleftrightarrow>
     (let bufs = ds_bufs (fs_sys s); B = fs_before s t in
      case ls_clients (ds_life (fs_sys s)) t of
        FlushGate \<Rightarrow> t \<notin> fs_flushing s \<and> (\<forall>h. set (B h) \<subseteq> sent_set (bufs h))
      | FlushCall i first \<Rightarrow>
          (\<forall>h. set (B h) \<subseteq> sent_set (bufs h)) \<and>
          (first = None \<longrightarrow> (\<forall>j < length hs. j < i \<longrightarrow> set (B (hs ! j)) \<subseteq> done_set (bufs (hs ! j)))) \<and>
          (t \<in> fs_flushing s \<longrightarrow> i < length hs \<and>
             flush_pc (set (B (hs ! i))) (sy_core (bufs (hs ! i))) (sy_clients (bufs (hs ! i)) (flush_client (length hs) t)))
      | FlushReturned res \<Rightarrow>
          t \<notin> fs_flushing s \<and> (res = None \<longrightarrow> (\<forall>h \<in> set hs. set (B h) \<subseteq> done_set (bufs h)))
      | _ \<Rightarrow> t \<notin> fs_flushing s)"

definition bufs_grow :: "(nat \<Rightarrow> 'n buffered_sys) \<Rightarrow> (nat \<Rightarrow> 'n buffered_sys) \<Rightarrow> bool" where
  "bufs_grow bs bs' \<longleftrightarrow> (\<forall>h. core_grows (sy_core (bs h)) (sy_core (bs' h)))"

lemma core_grows_refl [simp]: "core_grows c c"
  by (simp add: core_grows_def)

lemma bufs_grow_sets:
  "bufs_grow bs bs' \<Longrightarrow> sent_set (bs h) \<subseteq> sent_set (bs' h)"
  "bufs_grow bs bs' \<Longrightarrow> done_set (bs h) \<subseteq> done_set (bs' h)"
  by (simp_all add: bufs_grow_def core_grows_def sent_set_def done_set_def)

text \<open>A step that leaves the goroutine where it is keeps what holds for it, when the buffers' own calls do.\<close>

lemma flush_ok_same:
  assumes "flush_ok hs s t" "ls_clients (ds_life (fs_sys s')) t = ls_clients (ds_life (fs_sys s)) t"
    and "t \<in> fs_flushing s' \<longleftrightarrow> t \<in> fs_flushing s" "fs_before s' t = fs_before s t"
    and "bufs_grow (ds_bufs (fs_sys s)) (ds_bufs (fs_sys s'))"
    and "\<And>h B. t \<in> fs_flushing s \<Longrightarrow>
      flush_pc B (sy_core (ds_bufs (fs_sys s) h)) (sy_clients (ds_bufs (fs_sys s) h) (flush_client (length hs) t)) \<Longrightarrow>
      flush_pc B (sy_core (ds_bufs (fs_sys s') h)) (sy_clients (ds_bufs (fs_sys s') h) (flush_client (length hs) t))"
  shows "flush_ok hs s' t"
proof -
  note up = bufs_grow_sets [OF assms(5)]
  show ?thesis
  proof (cases "ls_clients (ds_life (fs_sys s)) t")
    case FlushGate
    with assms(1-4) up(1) show ?thesis by (simp add: flush_ok_def Let_def) blast
  next
    case (FlushCall i first)
    have "\<forall>h. set (fs_before s t h) \<subseteq> sent_set (ds_bufs (fs_sys s') h)"
      using assms(1) FlushCall up(1) by (simp add: flush_ok_def Let_def) blast
    moreover have "first = None \<longrightarrow>
        (\<forall>j < length hs. j < i \<longrightarrow> set (fs_before s t (hs ! j)) \<subseteq> done_set (ds_bufs (fs_sys s') (hs ! j)))"
      using assms(1) FlushCall up(2) by (simp add: flush_ok_def Let_def) blast
    moreover have "t \<in> fs_flushing s \<longrightarrow> i < length hs \<and>
        flush_pc (set (fs_before s t (hs ! i))) (sy_core (ds_bufs (fs_sys s') (hs ! i)))
          (sy_clients (ds_bufs (fs_sys s') (hs ! i)) (flush_client (length hs) t))"
      using assms(1) FlushCall assms(6) by (simp add: flush_ok_def Let_def)
    ultimately show ?thesis using assms(2-4) FlushCall by (simp add: flush_ok_def Let_def)
  next
    case (FlushReturned res)
    with assms(1-4) up(2) show ?thesis by (simp add: flush_ok_def Let_def) blast
  qed (use assms(1-4) in \<open>simp_all add: flush_ok_def Let_def\<close>)
qed

definition flush_inv :: "nat list \<Rightarrow> 'n flush_sys \<Rightarrow> bool" where
  "flush_inv hs s \<longleftrightarrow> (\<forall>t. flush_ok hs s t)"

lemma flush_inv_start: "flush_inv hs (flush_start hs cap)"
  by (simp add: flush_inv_def flush_ok_def flush_start_def newLifecycle_def)

text \<open>A step of one buffer that is not the start of a reserved client's call.\<close>

lemma flush_inv_buf:
  assumes "flush_inv hs s" "buffered_act a (ds_bufs (fs_sys s) h) = Some b" "buffered_reach n (ds_bufs (fs_sys s) h)"
    and "\<And>t call. a \<noteq> Call (flush_client (length hs) t) call"
    and "s' = s\<lparr>fs_sys := set_buf h (fs_sys s) b\<rparr>"
  shows "flush_inv hs s'"
  unfolding flush_inv_def
proof
  fix t
  have "bufs_grow (ds_bufs (fs_sys s)) (ds_bufs (fs_sys s'))"
    using buffered_act_grows [OF assms(2)] by (simp add: bufs_grow_def assms(5) set_buf_def)
  moreover have "flush_pc B (sy_core (ds_bufs (fs_sys s') g)) (sy_clients (ds_bufs (fs_sys s') g) (flush_client (length hs) t))"
    if "flush_pc B (sy_core (ds_bufs (fs_sys s) g)) (sy_clients (ds_bufs (fs_sys s) g) (flush_client (length hs) t))" for g B
  proof (cases "g = h")
    case True
    with that flush_pc_step [OF assms(2,3) _ assms(4), of B t] show ?thesis by (simp add: assms(5) set_buf_def)
  next
    case False
    with that show ?thesis by (simp add: assms(5) set_buf_def)
  qed
  ultimately show "flush_ok hs s' t"
    using assms(1) by (intro flush_ok_same [of hs s t s']) (simp_all add: flush_inv_def assms(5) set_buf_def)
qed

text \<open>Steps of the lifecycle group, other than a handler's return to \<open>flush\<close>.\<close>

fun steps_client :: "lc_event \<Rightarrow> nat \<Rightarrow> bool" where
  "steps_client (EvStart u pc) t = (t = u)"
| "steps_client (EvLog u) t = (t = u)"
| "steps_client (EvFlush u ch) t = (t = u)"
| "steps_client (EvShutdown u ch) t = (t = u)"
| "steps_client (EvRunner ch) t = False"

lemma lc_apply_other: "lc_apply e l = Some l' \<Longrightarrow> \<not> steps_client e t \<Longrightarrow> ls_clients l' t = ls_clients l t"
  by (cases e) (auto split: if_splits)

lemma note_start_before: "\<not> steps_client e t \<Longrightarrow> fs_before (note_start (LifeEv e) s d) t = fs_before s t"
proof (cases e)
  case (EvStart u pc)
  assume "\<not> steps_client e t"
  with EvStart show ?thesis by (cases pc) auto
qed simp_all

text \<open>Goroutine \<open>t\<close> itself: where it gets, and what is known there.\<close>

lemma flush_ok_own:
  assumes "lc_apply e (ds_life (fs_sys s)) = Some l" "steps_client e t" "other_event (length hs) (LifeEv e)"
    and "flush_ok hs s t" "lc_handlers (ls_group (ds_life (fs_sys s))) = hs"
  shows "flush_ok hs (note_start (LifeEv e) s ((fs_sys s)\<lparr>ds_life := l\<rparr>)) t"
proof (cases e)
  case (EvStart u pc)
  with assms(1,2) have rest: "lc_at_rest (ls_clients (ds_life (fs_sys s)) t)" and
    pc: "pc = LogGate \<or> pc = FlushGate \<or> pc = ShutOnce" and l: "ls_clients l t = pc" and u: "u = t"
    by (auto split: if_splits)
  have "t \<notin> fs_flushing s"
    using assms(4) rest by (cases "ls_clients (ds_life (fs_sys s)) t") (simp_all add: flush_ok_def Let_def)
  with pc l show ?thesis
    by (auto simp: EvStart u flush_ok_def Let_def sent_set_def)
next
  case (EvLog u)
  with assms(1,2,4) show ?thesis
    by (auto simp: flush_ok_def Let_def elim!: log_stepE split: if_splits)
next
  case (EvFlush u ch)
  with assms(3) have ch: "\<And>res. ch \<noteq> LcHandlerReturns res" by (cases ch) auto
  from EvFlush ch assms show ?thesis
    by (auto simp: flush_ok_def Let_def all_set_conv_all_nth elim!: lc_flush_stepE split: if_splits lc_choice.splits)
next
  case (EvShutdown u ch)
  with assms(1,2,4) show ?thesis
    by (auto simp: flush_ok_def Let_def elim!: lc_shutdown_stepE split: if_splits lc_choice.splits once_state.splits)
next
  case (EvRunner ch)
  with assms(2) show ?thesis by simp
qed

lemma flush_inv_life:
  assumes "flush_inv hs s" "lc_apply e (ds_life (fs_sys s)) = Some l" "other_event (length hs) (LifeEv e)"
    and "lc_handlers (ls_group (ds_life (fs_sys s))) = hs"
  shows "flush_inv hs (note_start (LifeEv e) s ((fs_sys s)\<lparr>ds_life := l\<rparr>))"
  unfolding flush_inv_def
proof
  fix t
  have ok: "flush_ok hs s t" using assms(1) by (simp add: flush_inv_def)
  show "flush_ok hs (note_start (LifeEv e) s ((fs_sys s)\<lparr>ds_life := l\<rparr>)) t"
  proof (cases "steps_client e t")
    case True
    then show ?thesis by (rule flush_ok_own [OF assms(2) _ assms(3) ok assms(4)])
  next
    case False
    with ok show ?thesis
      by (rule_tac flush_ok_same [OF ok])
         (simp_all add: lc_apply_other [OF assms(2)] note_start_before bufs_grow_def)
  qed
qed

text \<open>Steps of \<open>flush\<close> itself.\<close>

lemma reserved_client [simp]: "reserved N (flush_client N t)" "N \<le> flush_client N t"
  "flush_client N t = flush_client N u \<longleftrightarrow> t = u"
  by (auto simp: reserved_def flush_client_def)

lemma flush_inv_calls:
  assumes "flush_inv hs s" "flush_apply hs (FlushCalls t) s = Some s'"
    and "buffered_reach n (ds_bufs (fs_sys s) (hs ! i))" "ls_clients (ds_life (fs_sys s)) t = FlushCall i first"
  shows "flush_inv hs s'"
proof -
  let ?r = "flush_client (length hs) t" and ?b = "ds_bufs (fs_sys s) (hs ! i)"
  obtain b where i: "i < length hs" and t: "t \<notin> fs_flushing s"
    and b: "buffered_act (Call ?r CallFlush) ?b = Some b"
    and s': "s' = s\<lparr>fs_sys := set_buf (hs ! i) (fs_sys s) b, fs_flushing := insert t (fs_flushing s)\<rparr>"
    using assms(2,4) by (auto simp del: buffered_act.simps split: if_splits)
  have b': "sy_clients b = (sy_clients ?b)(?r := FlushTry (gh_fresh (sy_core ?b)))"
    "gh_before (sy_core b) (gh_fresh (sy_core ?b)) = gh_sent (sy_core ?b)" "gh_fresh (sy_core b) = Suc (gh_fresh (sy_core ?b))"
    using b by (auto simp: client_to_def split: if_splits)
  have grow: "bufs_grow (ds_bufs (fs_sys s)) (ds_bufs (fs_sys s'))"
    using buffered_act_grows [OF b] by (simp add: bufs_grow_def s' set_buf_def)
  show ?thesis
    unfolding flush_inv_def
  proof
    fix u
    have ok: "flush_ok hs s u" using assms(1) by (simp add: flush_inv_def)
    show "flush_ok hs s' u"
    proof (cases "u = t")
      case True
      have "flush_pc (set (fs_before s t (hs ! i))) (sy_core (ds_bufs (fs_sys s') (hs ! i)))
          (sy_clients (ds_bufs (fs_sys s') (hs ! i)) ?r)"
        using ok True assms(4) by (simp add: b' s' set_buf_def flush_ok_def Let_def sent_set_def)
      moreover have "\<forall>h. set (fs_before s t h) \<subseteq> sent_set (ds_bufs (fs_sys s') h)"
        using ok True assms(4) bufs_grow_sets(1) [OF grow] by (simp add: flush_ok_def Let_def) blast
      moreover have "first = None \<longrightarrow>
          (\<forall>j < length hs. j < i \<longrightarrow> set (fs_before s t (hs ! j)) \<subseteq> done_set (ds_bufs (fs_sys s') (hs ! j)))"
        using ok True assms(4) bufs_grow_sets(2) [OF grow] by (simp add: flush_ok_def Let_def) blast
      moreover have "ls_clients (ds_life (fs_sys s')) t = FlushCall i first" "fs_before s' = fs_before s"
        using assms(4) by (simp_all add: s' set_buf_def)
      ultimately show ?thesis
        unfolding flush_ok_def Let_def True by (simp add: i)
    next
      case False
      have "flush_pc B (sy_core b) (sy_clients b (flush_client (length hs) u))"
        if "flush_pc B (sy_core ?b) (sy_clients ?b (flush_client (length hs) u))" for B
        using that False flush_pc_step [OF b assms(3), of B "flush_client (length hs) u"] by simp
      with False show ?thesis
        by (intro flush_ok_same [OF ok _ _ _ grow]) (auto simp: s' set_buf_def)
    qed
  qed
qed

lemma flush_inv_returns:
  assumes "flush_inv hs s" "flush_apply hs (FlushReturns t) s = Some s'"
    and "ls_clients (ds_life (fs_sys s)) t = FlushCall i first" "lc_handlers (ls_group (ds_life (fs_sys s))) = hs"
  shows "flush_inv hs s'"
proof -
  let ?b = "ds_bufs (fs_sys s) (hs ! i)"
  obtain res where i: "i < length hs" and t: "t \<in> fs_flushing s"
    and r: "sy_clients ?b (flush_client (length hs) t) = Returned res"
    and s': "fs_flushing s' = fs_flushing s - {t}" "fs_before s' = fs_before s" "ds_bufs (fs_sys s') = ds_bufs (fs_sys s)"
      "ls_clients (ds_life (fs_sys s')) = (ls_clients (ds_life (fs_sys s)))(t := FlushCall (Suc i) (keep_first first (lifecycle_result res)))"
    using assms(2,3,4) by (auto split: if_splits client.splits)
  show ?thesis
    unfolding flush_inv_def
  proof
    fix u
    have ok: "flush_ok hs s u" using assms(1) by (simp add: flush_inv_def)
    show "flush_ok hs s' u"
    proof (cases "u = t")
      case True
      have "first = None \<and> res = None" if "keep_first first (lifecycle_result res) = None"
        using that by (cases res) (auto simp: keep_first_def lifecycle_result_def translateLifecycleErr_def Let_def
            split: if_splits buffer_error.splits)
      moreover have "res = None \<Longrightarrow> set (fs_before s t (hs ! i)) \<subseteq> done_set ?b"
        using ok True t r assms(3) by (simp add: flush_ok_def Let_def done_set_def)
      ultimately show ?thesis
        using ok True assms(3) by (auto simp: s' flush_ok_def Let_def less_Suc_eq)
    next
      case False
      then show ?thesis by (intro flush_ok_same [OF ok]) (simp_all add: s' bufs_grow_def)
    qed
  qed
qed

lemma drain_parts:
  assumes "drain_inv hs cap d"
  shows "buffered_reach (cap h) (ds_bufs d h)" "lc_handlers (ls_group (ds_life d)) = hs"
  using assms lc_reach_inv [of hs "ds_life d"] by (simp_all add: drain_inv_def lc_inv_def)

lemma flush_apply_inv:
  assumes "flush_apply hs ev s = Some s'" "flush_inv hs s" "drain_inv hs cap (fs_sys s)"
  shows "flush_inv hs s'"
proof (cases ev)
  case (FlushCalls t)
  with assms obtain i first where "ls_clients (ds_life (fs_sys s)) t = FlushCall i first"
    by (auto split: lc_client.splits)
  with assms FlushCalls flush_inv_calls drain_parts(1) [OF assms(3)] show ?thesis by blast
next
  case (FlushReturns t)
  with assms obtain i first where "ls_clients (ds_life (fs_sys s)) t = FlushCall i first"
    by (auto split: lc_client.splits)
  with assms FlushReturns flush_inv_returns drain_parts(2) [OF assms(3)] show ?thesis by blast
next
  case (Other dev)
  with assms(1) obtain d where o: "other_event (length hs) dev" "drain_apply hs dev (fs_sys s) = Some d"
    "s' = note_start dev s d"
    by (auto split: if_splits)
  show ?thesis
  proof (cases dev)
    case (LifeEv e)
    with o obtain l where "lc_apply e (ds_life (fs_sys s)) = Some l" "d = (fs_sys s)\<lparr>ds_life := l\<rparr>"
      by (auto split: if_splits)
    with flush_inv_life [OF assms(2) _ _ drain_parts(2) [OF assms(3)]] o LifeEv show ?thesis by simp
  next
    case (BufEv h a)
    with o obtain b where b: "buffered_act a (ds_bufs (fs_sys s) h) = Some b" "d = set_buf h (fs_sys s) b"
      by (auto split: if_splits)
    have "a \<noteq> Call (flush_client (length hs) t) call" for t call using o(1) BufEv by auto
    from flush_inv_buf [OF assms(2) b(1) drain_parts(1) [OF assms(3)] this] o(3) b(2) BufEv show ?thesis by simp
  next
    case RunnerCalls
    with o obtain k where k: "k < length hs"
      and b: "\<exists>b. buffered_act (Call k CallShutdown) (ds_bufs (fs_sys s) (hs ! k)) = Some b \<and> d = set_buf (hs ! k) (fs_sys s) b"
      by (auto simp del: buffered_act.simps split: lc_runner.splits if_splits)
    then obtain b where b: "buffered_act (Call k CallShutdown) (ds_bufs (fs_sys s) (hs ! k)) = Some b"
      "d = set_buf (hs ! k) (fs_sys s) b" by blast
    have "Call k CallShutdown \<noteq> Call (flush_client (length hs) t) call" for t call
      using k by (auto simp: flush_client_def)
    from flush_inv_buf [OF assms(2) b(1) drain_parts(1) [OF assms(3)] this] o(3) b(2) RunnerCalls show ?thesis by simp
  next
    case RunnerReturns
    with o obtain res l where l: "lc_apply (EvRunner (LcHandlerReturns res)) (ds_life (fs_sys s)) = Some l"
      "d = (fs_sys s)\<lparr>ds_life := l\<rparr>"
      by (auto split: lc_runner.splits if_splits client.splits)
    from flush_inv_life [OF assms(2) l(1) _ drain_parts(2) [OF assms(3)]] l(2) o(3) RunnerReturns show ?thesis by simp
  qed
qed

lemma flush_reach_inv: "flush_reach hs cap s \<Longrightarrow> flush_inv hs s"
proof (induction rule: flush_reach.induct)
  case init
  then show ?case by (rule flush_inv_start)
next
  case (step s ev s')
  then show ?case using flush_apply_inv drain_reach_inv [OF flush_reach_drain] by blast
qed

section \<open>What a flush means\<close>

text \<open>
  C5. When \<open>Flush\<close> of a logger returns nil, every record that any buffered handler of the pipeline had accepted
  when it was called has been handed to the next handler, whatever other goroutines log, flush or shut down
  meanwhile.
\<close>

theorem flush_delivers_everything:
  assumes "flush_reach hs cap s" "ls_clients (ds_life (fs_sys s)) t = FlushReturned None"
  shows "\<forall>h \<in> set hs. set (fs_before s t h) \<subseteq> set (gh_done (sy_core (ds_bufs (fs_sys s) h)))"
proof -
  have "flush_ok hs s t" using flush_reach_inv [OF assms(1)] by (simp add: flush_inv_def)
  with assms(2) show ?thesis by (simp add: flush_ok_def done_set_def)
qed

section \<open>An execution\<close>

fun flush_exec :: "nat list \<Rightarrow> 'n flush_event list \<Rightarrow> 'n flush_sys \<Rightarrow> 'n flush_sys option" where
  "flush_exec hs [] s = Some s"
| "flush_exec hs (ev # evs) s = (case flush_apply hs ev s of None \<Rightarrow> None | Some s' \<Rightarrow> flush_exec hs evs s')"

lemma flush_exec_reach: "flush_exec hs evs s = Some s' \<Longrightarrow> flush_reach hs cap s \<Longrightarrow> flush_reach hs cap s'"
  by (induction evs arbitrary: s) (auto split: option.splits intro: flush_reach.step)

text \<open>One buffered handler; a record is accepted from client 2, then goroutine 5 flushes.\<close>

definition accept_then_flush :: "unit flush_event list" where
  "accept_then_flush =
     map (Other \<circ> BufEv 0) [Call 2 (CallHandle 7 (NewRecord 0 0 ''m'' 0) \<lparr>bh_next = ()\<rparr>), InHandle 2, InHandle 2, InHandle 2, InHandle 2] @
     [Other (LifeEv (EvStart 5 FlushGate)), Other (LifeEv (EvFlush 5 LcProceed)), FlushCalls 5] @
     map (Other \<circ> BufEv 0) [InFlush 11 Proceed, InFlush 11 Proceed, InFlush 11 Proceed, InFlush 11 Proceed,
       Work Receive, Work (HandlerReturns None), Work Receive, Work Receive, InFlush 11 Proceed, InFlush 11 Proceed] @
     [FlushReturns 5, Other (LifeEv (EvFlush 5 LcProceed))]"

theorem flush_delivers_everything_witness:
  "\<exists>s. flush_exec [0] accept_then_flush (flush_start [0] (\<lambda>h. 4)) = Some s \<and>
     ls_clients (ds_life (fs_sys s)) 5 = FlushReturned None \<and>
     fs_before s 5 0 = [RecordItem 0 7 (NewRecord 0 0 ''m'' 0) ()] \<and>
     RecordItem 0 7 (NewRecord 0 0 ''m'' 0) () \<in> set (gh_done (sy_core (ds_bufs (fs_sys s) 0)))"
proof -
  obtain s where s: "flush_exec [0] accept_then_flush (flush_start [0] (\<lambda>h. 4)) = Some s"
    and c: "ls_clients (ds_life (fs_sys s)) 5 = FlushReturned None"
      "fs_before s 5 0 = [RecordItem 0 7 (NewRecord 0 0 ''m'' 0) ()]"
    by (simp add: accept_then_flush_def flush_start_def flush_client_def reserved_def buffered_eval lc_run_defs
        set_buf_def lifecycle_result_def)
  have "flush_reach [0] (\<lambda>h. 4) s" by (rule flush_exec_reach [OF s flush_reach.init])
  from flush_delivers_everything [OF this c(1)] s c show ?thesis by (simp del: flush_exec.simps)
qed

end
