(* ===== verification/ShutdownProgress.thy ===== *)
theory ShutdownProgress
  imports ShutdownDrain
begin

text \<open>
  The shutdown of theory \<open>ShutdownDrain\<close> cannot get stuck: until the goroutine that \<open>shutdown\<close> starts is done, it or
  somebody it waits for can take a step (wrapped handlers are taken to return).
\<close>

section \<open>Waiting for a buffer\<close>

definition holds :: "'n buffered_sys \<Rightarrow> nat \<Rightarrow> bool" where
  "holds b t \<longleftrightarrow> holds_read (sy_clients b t) \<or> holds_write (sy_clients b t)"

text \<open>Who an action belongs to: a caller inside a call, or the worker (\<open>None\<close>). The start of a call is nobody's.\<close>

fun actor :: "'n buffered_action \<Rightarrow> nat option option" where
  "actor (Call t call) = None"
| "actor (InHandle t) = Some (Some t)"
| "actor (InFlush t ch) = Some (Some t)"
| "actor (InShutdown t ch) = Some (Some t)"
| "actor (Work wch) = Some None"

text \<open>The shutdown channel is closed before a \<open>Shutdown\<close> waits.\<close>

lemma await_caller:
  assumes "caller_step t c pc c' pc'" "pc = ShutdownAwait \<longrightarrow> bc_shutdownCh c" "pc' = ShutdownAwait"
  shows "bc_shutdownCh c'"
proof -
  have "start_call call c \<noteq> (c', ShutdownAwait)" for call by (cases call) auto
  moreover have "handle_step t c pc \<noteq> Some (c', ShutdownAwait)"
    by (auto elim!: handle_stepE simp: return_handle_def split: option.splits if_splits)
  moreover have "flush_step t ch c pc \<noteq> Some (c', ShutdownAwait)" for ch
    by (cases ch) (auto elim!: flush_stepE simp: Let_def split: option.splits if_splits prod.splits)
  moreover have "shutdown_step ch c pc = Some (c', ShutdownAwait) \<Longrightarrow> bc_shutdownCh c'" for ch
    using assms(2) by (cases ch) (auto elim!: shutdown_stepE simp: Let_def split: option.splits if_splits prod.splits)
  ultimately show ?thesis using assms(1,3) unfolding caller_step_def by blast
qed

lemma await_closed: "buffered_reach n b \<Longrightarrow> sy_clients b t = ShutdownAwait \<Longrightarrow> bc_shutdownCh (sy_core b)"
proof (induction arbitrary: t rule: buffered_reach.induct)
  case init
  then show ?case by (simp add: NewBufferedHandler_def)
next
  case (step b b')
  from step(2) show ?case
  proof (cases rule: buffered_step_cases)
    case (caller u c' pc')
    show ?thesis
    proof (cases "u = t")
      case True
      have "pc' = ShutdownAwait" using caller(2) step.prems True by simp
      with await_caller [OF caller(1)] step.IH [of u] caller(2) show ?thesis by simp
    next
      case False
      with step caller(2) have "bc_shutdownCh (sy_core b)" by simp
      with caller_step_effect [OF caller(1)] caller(2) show ?thesis by (auto simp: caller_effect_def)
    qed
  next
    case (worker wch c' w')
    with step worker_step_effect [OF worker(1)] show ?thesis by simp
  qed
qed

text \<open>Whoever holds the lock can go on, and so gives it back.\<close>

lemma holder_acts:
  assumes "holds b t"
  shows "\<exists>a b'. actor a = Some (Some t) \<and> free_action N a \<and> buffered_act a b = Some b' \<or> \<not> N \<le> t \<and> holds_read (sy_clients b t)"
proof (cases "holds_write (sy_clients b t)")
  case True
  then have "\<exists>b'. buffered_act (InShutdown t Proceed) b = Some b'"
    by (cases "sy_clients b t") (auto simp: client_to_def Let_def)
  then show ?thesis by (metis actor.simps(4) free_action.simps(4) choice.distinct(1))
next
  case False
  with assms have r: "holds_read (sy_clients b t)" by (simp add: holds_def)
  then have "(\<exists>b'. buffered_act (InHandle t) b = Some b') \<or> (\<exists>b'. buffered_act (InFlush t TimerFired) b = Some b')"
    by (cases "sy_clients b t") (auto simp: client_to_def return_handle_def split: option.split)
  with r show ?thesis by (metis actor.simps(2,3) free_action.simps(2,3))
qed

lemma lock_taken:
  assumes "buffered_reach n b" "Lock (sy_core b) = None"
  shows "(\<exists>t. holds b t) \<or> sy_worker b = WorkerExitLocked"
  using buffered_invs(1) [OF assms(1)] assms(2)
  by (auto simp: Lock_def lock_inv_def writers_def holds_def split: if_splits)

text \<open>Some step brings a pending \<open>Shutdown\<close> of the runner closer to its return.\<close>

definition brings_on :: "'n buffered_sys \<Rightarrow> nat \<Rightarrow> 'n buffered_action \<Rightarrow> bool" where
  "brings_on b k a \<longleftrightarrow>
     (case actor a of None \<Rightarrow> False | Some None \<Rightarrow> True | Some (Some t) \<Rightarrow> t = k \<or> holds b t)"

lemma holder_brings_on:
  assumes "holds b t" "buf_ok N b"
  shows "\<exists>a b'. free_action N a \<and> buffered_act a b = Some b' \<and> brings_on b k a"
proof -
  have "\<not> (\<not> N \<le> t \<and> holds_read (sy_clients b t))"
    using assms(2) by (cases "sy_clients b t") (auto simp: buf_ok_def dest!: spec [of _ t])
  with holder_acts [OF assms(1), of N] obtain a b' where
    "actor a = Some (Some t)" "free_action N a" "buffered_act a b = Some b'" by blast
  with assms(1) show ?thesis by (auto simp: brings_on_def)
qed

lemma blocked_brings_on:
  assumes "buffered_reach n b" "buf_ok N b" "Lock (sy_core b) = None"
  shows "\<exists>a b'. free_action N a \<and> buffered_act a b = Some b' \<and> brings_on b k a"
  using lock_taken [OF assms(1,3)]
proof
  assume "\<exists>t. holds b t"
  then show ?thesis using holder_brings_on [OF _ assms(2)] by blast
next
  assume "sy_worker b = WorkerExitLocked"
  then show ?thesis by (intro exI [of _ "Work Receive"]) (simp add: brings_on_def)
qed

lemma worker_brings_on:
  assumes "buffered_reach n b" "buf_ok N b" "bc_shutdownCh (sy_core b)" "sy_worker b \<noteq> WorkerGone"
  shows "\<exists>a b'. free_action N a \<and> buffered_act a b = Some b' \<and> brings_on b k a"
proof (cases "\<exists>wch b'. buffered_act (Work wch) b = Some b'")
  case True
  then obtain wch b' where "buffered_act (Work wch) b = Some b'" by blast
  then show ?thesis by (intro exI [of _ "Work wch"] exI [of _ b']) (simp add: brings_on_def)
next
  case False
  then have stuck: "worker_step wch (sy_core b) (sy_worker b) = None" for wch
  proof -
    have "buffered_act (Work wch) b = None" using False by (metis not_None_eq)
    then show ?thesis by (auto split: option.splits)
  qed
  have "Lock (sy_core b) = None"
  proof (cases "sy_worker b")
    case WorkerSelect
    with stuck [of SeeShutdown] assms(3) show ?thesis by simp
  next
    case (WorkerProcess d item)
    with stuck [of "HandlerReturns None"] show ?thesis by (cases item) auto
  next
    case WorkerDrain
    with stuck [of Receive] show ?thesis by (auto split: list.splits)
  next
    case WorkerExit
    with stuck [of Receive] show ?thesis by (auto split: option.splits)
  qed (use stuck [of Receive] assms(4) in \<open>auto simp: Let_def\<close>)
  then show ?thesis by (rule blocked_brings_on [OF assms(1,2)])
qed

lemma pending_shutdown_goes_on:
  assumes "buffered_reach n b" "buf_ok N b" "k < N" "sy_clients b k \<noteq> Idle" "\<And>res. sy_clients b k \<noteq> Returned res"
  shows "\<exists>a b'. free_action N a \<and> buffered_act a b = Some b' \<and> brings_on b k a"
proof -
  have own: ?thesis if "buffered_act (InShutdown k ch) b = Some b'" "ch \<noteq> CtxDone" for ch b'
    using that by (intro exI [of _ "InShutdown k ch"]) (auto simp: brings_on_def)
  have pc: "runner_pc (sy_worker b) (sy_clients b k)" using assms(2,3) by (simp add: buf_ok_def)
  show ?thesis
  proof (cases "sy_clients b k")
    case ShutdownStart
    then show ?thesis
    proof (cases "Lock (sy_core b)")
      case None
      then show ?thesis by (rule blocked_brings_on [OF assms(1,2)])
    next
      case (Some c)
      with ShutdownStart show ?thesis by (intro own [of Proceed]) (auto simp: client_to_def)
    qed
  next
    case ShutdownLocked
    then show ?thesis by (intro own [of Proceed]) (auto simp: client_to_def Let_def)
  next
    case ShutdownClose
    then show ?thesis by (intro own [of Proceed]) (auto simp: client_to_def)
  next
    case ShutdownAwait
    show ?thesis
    proof (cases "sy_worker b = WorkerGone")
      case True
      with ShutdownAwait workerDone_gone [OF assms(1)] show ?thesis
        by (intro own [of WorkerDoneCh]) (auto simp: client_to_def)
    next
      case False
      show ?thesis by (rule worker_brings_on [OF assms(1,2) await_closed [OF assms(1) ShutdownAwait] False])
    qed
  next
    case ShutdownTake
    then show ?thesis by (intro own [of Proceed]) (auto simp: client_to_def takeErr_def Let_def)
  qed (use assms(4,5) pc in auto)
qed

section \<open>The shutdown as a whole\<close>

text \<open>
  The events that bring the shutdown on: steps of the runner, and, while it waits for a handler's \<open>Shutdown\<close>, steps of
  that call, of that handler's worker, and of goroutines that hold that handler's lock. No call has to be started.
\<close>

fun helps :: "nat list \<Rightarrow> 'n drain_sys \<Rightarrow> 'n drain_event \<Rightarrow> bool" where
  "helps hs s (LifeEv e) = (e = EvRunner LcProceed)"
| "helps hs s (BufEv h a) =
     (case ls_runner (ds_life s) of RunCall k first \<Rightarrow> k < length hs \<and> h = hs ! k \<and> brings_on (ds_bufs s h) k a | _ \<Rightarrow> False)"
| "helps hs s RunnerCalls = True"
| "helps hs s RunnerReturns = True"

text \<open>
  C20. A shutdown never gets stuck: from the moment its goroutine has been started until the goroutine is done, in every
  reachable state of the lifecycle group and its buffers, some step that brings the shutdown on can be taken.
\<close>

theorem shutdown_never_stuck:
  assumes "drain_reach hs cap s" "ls_runner (ds_life s) \<noteq> RunNone" "ls_runner (ds_life s) \<noteq> RunGone"
  shows "\<exists>ev s'. helps hs s ev \<and> drain_apply hs ev s = Some s'"
proof -
  note inv = drain_reach_inv [OF assms(1), unfolded drain_inv_def]
  have hs: "lc_handlers (ls_group (ds_life s)) = hs" using inv lc_reach_inv by (auto simp: lc_inv_def)
  have runner: ?thesis if "\<exists>l. lc_apply (EvRunner LcProceed) (ds_life s) = Some l"
    using that by (intro exI [of _ "LifeEv (EvRunner LcProceed)"]) auto
  show ?thesis
  proof (cases "ls_runner (ds_life s)")
    case (RunCall k first)
    show ?thesis
    proof (cases "k < length hs")
      case False
      with RunCall hs show ?thesis by (intro runner) simp
    next
      case True
      let ?b = "ds_bufs s (hs ! k)"
      have waiting: ?thesis if pending: "sy_clients ?b k \<noteq> Idle" "\<And>res. sy_clients ?b k \<noteq> Returned res"
      proof -
        obtain a b' where a: "free_action (length hs) a" "buffered_act a ?b = Some b'" "brings_on ?b k a"
          using pending_shutdown_goes_on [OF _ _ True pending] inv by blast
        then have "helps hs s (BufEv (hs ! k) a) \<and> drain_apply hs (BufEv (hs ! k) a) s = Some (set_buf (hs ! k) s b')"
          using RunCall True by simp
        then show ?thesis by blast
      qed
      show ?thesis
      proof (cases "sy_clients ?b k")
        case Idle
        with RunCall True show ?thesis
          by (intro exI [of _ RunnerCalls]) (auto simp: client_to_def split: prod.split)
      next
        case (Returned res)
        with RunCall True hs show ?thesis by (intro exI [of _ RunnerReturns]) auto
      qed (use waiting in simp_all)
    qed
  qed (use assms(2,3) runner in auto)
qed

text \<open>A shutdown that has called a handler whose worker is still busy.\<close>

definition stop_begun :: "unit drain_event list" where
  "stop_begun =
     map LifeEv [EvStart 2 ShutOnce, EvShutdown 2 LcProceed, EvShutdown 2 LcProceed, EvShutdown 2 LcProceed] @
     [RunnerCalls] @ map (BufEv 0) [Work Receive, InShutdown 0 Proceed, InShutdown 0 Proceed, InShutdown 0 Proceed]"

theorem shutdown_never_stuck_witness:
  "\<exists>s. drain_exec [0] (accept_one @ stop_begun) drain_start = Some s \<and>
     ls_runner (ds_life s) = RunCall 0 None \<and> sy_clients (ds_bufs s 0) 0 = ShutdownAwait \<and>
     (\<exists>ev s'. helps [0] s ev \<and> drain_apply [0] ev s = Some s')"
proof -
  obtain s where s: "drain_exec [0] (accept_one @ stop_begun) drain_start = Some s"
    and r: "ls_runner (ds_life s) = RunCall 0 None" "sy_clients (ds_bufs s 0) 0 = ShutdownAwait"
    by (simp add: accept_one_def stop_begun_def buffered_eval lc_run_defs set_buf_def lifecycle_result_def)
  have "drain_reach [0] (\<lambda>_. 4) s" by (rule drain_exec_reach [OF s drain_reach.init])
  from shutdown_never_stuck [OF this] r have "\<exists>ev s'. helps [0] s ev \<and> drain_apply [0] ev s = Some s'" by simp
  with s r show ?thesis by blast
qed

end
