(* ===== verification/Spec2Isabelle.thy ===== *)
theory Spec2Isabelle
  imports GrpcInterceptor ConsoleHandler MockLogger Globals LineTypes HeldSlices ChainStore FlushDrain ShutdownProgress
begin

text \<open>
  A model of kit-logger, a structured logging library for Go on top of \<open>log/slog\<close>, and the theorems that make it
  correct. All paths are relative to \<open>src/pkg/logger\<close>.

  \<^bold>\<open>The program.\<close> \<open>NewWithError\<close> (\<open>config.go\<close>) assembles a chain of handlers from a \<open>Config\<close>: from the inside out a
  terminal handler or the caller's sink behind a level gate, deduplication with the pinned global fields, filtering,
  source attribution, sampling, the metrics seam, an asynchronous buffer, a hook and the context handler. \<open>SlogLogger\<close>
  (\<open>slog_logger.go\<close>) turns a log call into a record and hands it to the chain, after the lifecycle gate, the rate
  limiter and the context extractor. The lifecycle group (\<open>lifecycle.go\<close>) finds the handlers that hold records and
  shuts them down once for all loggers derived from one. On top there are an HTTP middleware, four gRPC interceptors
  and a process-wide logger; \<open>kitlogtest\<close> holds the test doubles.

  \<^bold>\<open>Theories.\<close>
  \<^item> \<open>Prelude\<close>, \<open>Slog\<close>: maps as association lists, bytes, and what the code uses of \<open>log/slog\<close> (values, \<open>Resolve\<close>,
    attrs, records, levels), with \<open>utils/log_utils.go\<close>.
  \<^item> \<open>HeldOps\<close>: the \<open>WithAttrs\<close> and \<open>WithGroup\<close> calls a handler holds back, their meaning \<open>nest\<close>, the locales
    \<open>op_holder\<close> (a handler that holds its derivations) and \<open>slog_next\<close> (the contract of a next handler), and
    \<open>kitlogtest/test_handler.go\<close>, which satisfies both.
  \<^item> \<open>DedupHandler\<close>, \<open>FilterHandler\<close>, \<open>GlobalFieldsHandler\<close>, \<open>SamplingHandler\<close>, \<open>BufferedHandler\<close>, \<open>SourceHandler\<close>,
    \<open>ConsoleHandler\<close>: the files of the same names under \<open>handler/\<close> (\<open>SourceHandler\<close> has \<open>component_handler.go\<close> as
    well). \<open>Decorators\<close>: \<open>level.go\<close>, \<open>handler/multi_handler.go\<close>, \<open>handler/hook_handler.go\<close>, \<open>otel/handler.go\<close>,
    \<open>prometheus/handler.go\<close>, \<open>handler/prometheus_handler.go\<close>.
  \<^item> \<open>Slices\<close>: slices with capacity and shared backing arrays on a store, \<open>append\<close>, \<open>Clip\<close> and \<open>Clone\<close>, and the
    locale \<open>held_store\<close> of what \<open>WithAttrs\<close> and \<open>WithGroup\<close> owe on it; \<open>HeldSlices\<close>: its interpretations for the four
    handlers that hold their derivations. \<open>RecordStore\<close>: \<open>slog.Record\<close> as it is stored, with \<open>Clone\<close> and \<open>AddAttrs\<close>;
    \<open>ChainStore\<close>: the whole chain over stored records.
  \<^item> \<open>KeyEviction\<close>: the bounded key map that the sampler and the rate limiter share, as a locale; \<open>RateState\<close>: \<open>rate.go\<close>.
  \<^item> \<open>Strconv\<close>: UTF-8 decoding and \<open>strconv.Quote\<close>, for the console handler.
  \<^item> \<open>Chain\<close>: a chain of handlers as a datatype with one constructor per handler, whose \<open>Handle\<close> runs the modelled
    handlers down to the sinks; \<open>ChainRun\<close>: the steps of a chain at work (calls, deliveries of the buffer's worker, level
    changes), the locale \<open>chain_property\<close> of what records keep on their way, and its instances.
  \<^item> \<open>ConfigTypes\<close>, \<open>Config\<close>: \<open>config_types.go\<close> and \<open>config.go\<close> up to the chain; \<open>Lifecycle\<close>: \<open>lifecycle.go\<close>;
    \<open>ShutdownDrain\<close>: the lifecycle group over its buffered handlers as one system, \<open>FlushDrain\<close>: its flushes,
    \<open>ShutdownProgress\<close>: that it always has a step to take;
    \<open>Logger\<close>: \<open>slog_logger.go\<close>, \<open>context_extracto.go\<close> and the rest of \<open>NewWithError\<close>; \<open>Helpers\<close>: \<open>helpers.go\<close> and \<open>New\<close>;
    \<open>Globals\<close>: \<open>SetGlobal\<close> and \<open>L\<close> of \<open>config.go\<close>, and \<open>loggerext.go\<close>; \<open>LineTypes\<close>: what kind of value a sink meets.
  \<^item> \<open>HttpMiddleware\<close>: \<open>httpmw/middleware.go\<close>; \<open>GrpcInterceptor\<close>: \<open>grpc/interceptor.go\<close>; \<open>MockLogger\<close>:
    \<open>kitlogtest/mocklogger.go\<close>.

  \<^bold>\<open>State and operations.\<close> A struct is a record with the fields of the source, and a method is a definition that
  takes the receiver and returns it updated. A handler's \<open>Handle\<close> ends in a call of the next handler or in none, so its
  model returns the record it forwards; \<open>Chain\<close> composes these. A map is an association list with distinct keys;
  where Go iterates a map, the order is an argument (a permutation), and the theorems hold for every one. The clock,
  random numbers and the frames of the runtime are arguments too. A panic is \<open>None\<close> or a value of its own, an error a
  value of a datatype. The counters of the code are \<open>64 word\<close> and wrap as in Go, an \<open>int64\<close> one (\<open>i64\<close>) read with
  \<open>sint\<close>; levels, sizes, statuses, call-site skips, durations and times are \<open>int\<close>, with the saturation of \<open>Time.Sub\<close>
  written out.

  Concurrency is modelled by atomic steps of any number of goroutines, one step per lock, channel or atomic operation,
  in \<open>BufferedHandler\<close> (clients and the worker), \<open>Lifecycle\<close> (log calls, flushes, shutdowns and the goroutine that runs
  them), their composition \<open>ShutdownDrain\<close> and \<open>FlushDrain\<close>, and \<open>Globals\<close>. An \<open>inductive\<close> relation gives the reachable states, and the properties follow from invariants
  by rule induction. The other components run under one mutex or on one goroutine, and their histories are
  sequences of calls. Ghost fields, named \<open>gh_\<close> or \<open>gl_\<close>, record history for the statements and influence nothing.

  \<^bold>\<open>What the groups of lemmas show.\<close>
  \<^item> The deduplicated record: unique keys in every group at any depth, pinned fields first, the same result for any mix
    of \<open>With\<close> calls and inline attrs when the record holds an attr. \<open>LineTypes\<close> adds that every value is resolved and no group is empty.
  \<^item> Filtering: \<open>line_leaves\<close> is the line a record becomes, groups flattened and lazy values resolved. A record is dropped
    when and only when a rule applies to a leaf of it, and redaction replaces exactly these leaves, for attrs the filter
    can see through (\<open>in_sight\<close>); two lemmas show how lazy groups and unnamed groups escape it.
  \<^item> Sampling and rate limiting: spacing of emissions, exact counts of what was suppressed, bounded maps, and the
    refinement of a per-key specification while the keys fit the bound.
  \<^item> The buffer: first in first out and exactly once, truthful results, flush and shutdown that deliver, a bound on
    the drain and its progress.
  \<^item> The lifecycle: discovery of handlers in any graph, one shutdown in order, one result for all callers, and a rejected
    counter that is the number of log calls that returned without their record.
    \<open>ShutdownDrain\<close> composes it with the buffers: a completed shutdown has delivered every accepted record. In
    \<open>FlushDrain\<close> a flush that returns has delivered what was accepted before it began, and in \<open>ShutdownProgress\<close> no
    reachable state of a shutdown is a deadlock.
  \<^item> Aliasing: handlers derived from one another, and the callers' own writes to the slices they passed, do not
    interfere: every handler's held calls are those of the list model, in any order of derivations and writes. A chain over
    stored records, whose copies share arrays, simulates the chain over record values.
  \<^item> The pipeline as a whole: \<open>chain_property\<close> carries a handler's guarantee to every sink in every run, and the logger
    refines the chain, so the guarantees hold for every line of a logger and of those derived from it, as long as no
    \<open>PipelineOverride\<close> replaces the pipeline, the sink only forwards (\<open>quiet\<close>) and the caller's seams leave the dedup stage
    in place (\<open>seams_keep_dedup\<close>). \<open>log_effect\<close> is the whole effect of one log call, with what the rate limit owes.
  \<^item> The console line: quoted values read back, values cannot break the line, groups are dotted prefixes.
  \<^item> The adapters: request IDs that are safe to log and survive a hop, a recorder that does not change the response,
    one line per request and per stream. The recorder is exact for handlers that send their final status first
    (\<open>status_first\<close>); lemmas show what happens with the others.
  \<^item> The global logger: the latest one set wins over the lazy default, no nil dereference, no deadlock.

  \<^bold>\<open>Bounds.\<close> \<open>maxLogValues\<close> is the 100 of \<open>slog.Value.Resolve\<close> and \<open>maxUnwrapDepth\<close> the 32 of \<open>lifecycle.go\<close>: both are
  limits of the program, not of the model. No recursion needs fuel: all loops are structural or have a measure.
  The waits that may last (a full buffer, a once, a lock) are steps that are not enabled.

  \<^bold>\<open>Parameters.\<close> Code outside the repository is an argument of the definitions: the token bucket of \<open>x/time/rate\<close>
  (locale \<open>token_bucket\<close>, with an exact bucket as its instance), the gRPC library, the Prometheus registry, the span
  context of OpenTelemetry, \<open>ulid\<close>, and the Text and JSON handlers of \<open>log/slog\<close>, which are sinks. So are the Unicode
  tables for case folding and printable runes, \<open>Time.Format\<close>, and how a float or an arbitrary Go value prints.

  \<^bold>\<open>Not modelled.\<close> The \<open>Enabled\<close> and \<open>Unwrap\<close> methods that only delegate appear as \<open>chain_Enabled\<close> and \<open>chain_unwrap\<close> and
  not per handler; \<open>SlogLogger.Flush\<close>, \<open>Shutdown\<close> and \<open>Sync\<close> only delegate to the lifecycle group. The interfaces of
  \<open>interface.go\<close> have no behaviour. The fixtures under \<open>handler/testdata\<close> log one line each for the tests of source
  attribution. Outside \<open>Slices\<close>, \<open>HeldSlices\<close>, \<open>RecordStore\<close> and \<open>ChainStore\<close> a slice is a value; the members
  of a group inside an attr are values there too, since \<open>slices.Clone\<close> copies the attrs and not what they point to.
  Data races below the level of locks, channels and atomic operations are not modelled.
\<close>

end
